(* ===== verification/NL_Prelude.thy ===== *)
theory NL_Prelude
  imports Main "HOL-Library.Word" "HOL-Library.AList" "HOL-Library.Multiset"
begin

text \<open>
  The vocabulary the component theories share: machine integers at the width the Rust code
  declares them, results as sums, hash maps as association lists with distinct keys, and the
  generic list lemmas that the component proofs use.

  Conventions of the whole development:
  \<^item> \<open>Result<T, Error>\<close> is \<open>error + 'a\<close>: \<open>Err e\<close> is the left injection, \<open>Ok v\<close> the right one;
  \<^item> a \<open>HashMap\<close> that the code iterates over is an association list: its order is the iteration
    order, which the code leaves open, so that a theorem about every such list is a theorem about
    every iteration order;
  \<^item> a message built with \<open>format!\<close> is modelled by its literal text, without the interpolated
    values: no branch of the program reads a message.
\<close>

section \<open>Machine integers\<close>

type_synonym u8 = "8 word"
type_synonym u32 = "32 word"
type_synonym u64 = "64 word"
type_synonym i32 = "32 word"

section \<open>Results\<close>

abbreviation Ok :: "'a \<Rightarrow> 'e + 'a" where
  "Ok \<equiv> Inr"

abbreviation Err :: "'e \<Rightarrow> 'e + 'a" where
  "Err \<equiv> Inl"

fun is_ok :: "'e + 'a \<Rightarrow> bool" where
  "is_ok (Inr _) = True"
| "is_ok (Inl _) = False"

text \<open>The operator \<open>?\<close> of the source: go on with the value, or return the error.\<close>

fun try_bind :: "'e + 'a \<Rightarrow> ('a \<Rightarrow> 'e + 'b) \<Rightarrow> 'e + 'b" where
  "try_bind (Inr v) f = f v"
| "try_bind (Inl e) f = Inl e"

lemma is_ok_iff: "is_ok r \<longleftrightarrow> (\<exists>v. r = Ok v)"
  by (cases r) auto

lemma try_bind_Ok_iff: "try_bind r f = Ok w \<longleftrightarrow> (\<exists>v. r = Ok v \<and> f v = Ok w)"
  by (cases r) auto

lemma try_bind_Err_iff: "try_bind r f = Err e \<longleftrightarrow> r = Err e \<or> (\<exists>v. r = Ok v \<and> f v = Err e)"
  by (cases r) auto

section \<open>Ranges\<close>

text \<open>\<open>std::ops::Bound\<close>, and when \<open>BTreeSet::range\<close> and \<open>BTreeMap::range\<close> panic.\<close>

datatype 'a bound = Included 'a | Excluded 'a | Unbounded

fun above_start :: "'a::linorder bound \<Rightarrow> 'a \<Rightarrow> bool" where
  "above_start (Included a) x = (a \<le> x)"
| "above_start (Excluded a) x = (a < x)"
| "above_start Unbounded x = True"

fun below_end :: "'a::linorder bound \<Rightarrow> 'a \<Rightarrow> bool" where
  "below_end (Included a) x = (x \<le> a)"
| "below_end (Excluded a) x = (x < a)"
| "below_end Unbounded x = True"

fun range_panics :: "'a::linorder bound \<Rightarrow> 'a bound \<Rightarrow> bool" where
  "range_panics (Excluded a) (Excluded b) = (b \<le> a)"
| "range_panics (Included a) (Included b) = (b < a)"
| "range_panics (Included a) (Excluded b) = (b < a)"
| "range_panics (Excluded a) (Included b) = (b < a)"
| "range_panics _ _ = False"

section \<open>Association lists\<close>

named_theorems alist_simps \<open>lookup after an update or a deletion of an association list\<close>

lemma map_of_update [alist_simps]: "map_of (AList.update k v al) = (map_of al)(k \<mapsto> v)"
  by (rule update_conv')

lemma map_of_delete [alist_simps]: "map_of (AList.delete k al) = (map_of al)(k := None)"
  by (rule delete_conv')

lemma distinct_keys_update: "distinct (map fst al) \<Longrightarrow> distinct (map fst (AList.update k v al))"
  by (rule distinct_update)

lemma distinct_keys_delete: "distinct (map fst al) \<Longrightarrow> distinct (map fst (AList.delete k al))"
  by (rule distinct_delete)

lemma keys_delete [alist_simps]: "fst ` set (AList.delete k al) = fst ` set al - {k}"
  by (auto simp: AList.delete_eq)

section \<open>Lists\<close>

text \<open>\<open>[T]::join\<close> of the standard library.\<close>

fun join :: "string \<Rightarrow> string list \<Rightarrow> string" where
  "join sep [] = []"
| "join sep [x] = x"
| "join sep (x # y # ys) = x @ sep @ join sep (y # ys)"


lemma delete_filter: "AList.delete k xs = filter (\<lambda>p. fst p \<noteq> k) xs"
  by (auto simp: AList.delete_eq intro: filter_cong)

lemma mset_filter_remove_key:
  assumes "distinct (map fst xs)" and "map_of xs k = Some v"
  shows "mset xs = add_mset (k, v) (mset (filter (\<lambda>p. fst p \<noteq> k) xs))"
  using assms
proof (induction xs)
  case Nil
  then show ?case by simp
next
  case (Cons p xs)
  obtain k' v' where p: "p = (k', v')" by (cases p)
  show ?case
  proof (cases "k' = k")
    case True
    with Cons.prems p have "\<forall>q \<in> set xs. fst q \<noteq> k" and "v' = v"
      by (auto simp: image_iff)
    with True p show ?thesis by (simp add: filter_id_conv)
  next
    case False
    with Cons p show ?thesis by (simp add: add_mset_commute)
  qed
qed

lemma filter_key_absent: "map_of xs k = None \<Longrightarrow> filter (\<lambda>p. fst p \<noteq> k) xs = xs"
  by (induction xs) (auto split: if_splits)

lemma map_of_filter_key:
  "map_of (filter (\<lambda>p. fst p \<noteq> k) xs) = (map_of xs)(k := None)"
  by (induction xs) (auto simp: fun_eq_iff)

lemma distinct_filter_key:
  "distinct (map fst xs) \<Longrightarrow> distinct (map fst (filter P xs))"
  by (induction xs) auto

lemma map_of_butlast:
  assumes "distinct (map fst xs)" and "xs \<noteq> []"
  shows "map_of (butlast xs) = (map_of xs)(fst (last xs) := None)"
  using assms
proof (induction xs)
  case Nil
  then show ?case by simp
next
  case (Cons p xs)
  show ?case
  proof (cases "xs = []")
    case True
    then show ?thesis by (cases p) (simp add: fun_eq_iff)
  next
    case False
    with Cons.prems have "fst p \<noteq> fst (last xs)"
      by auto
    with False Cons show ?thesis by (cases p) (auto simp: fun_eq_iff)
  qed
qed

lemma mset_butlast_last: "xs \<noteq> [] \<Longrightarrow> mset xs = add_mset (last xs) (mset (butlast xs))"
  by (metis append_butlast_last_id mset.simps(1) mset.simps(2) mset_append union_mset_add_mset_right
      add.right_neutral)

lemma distinct_map_butlast: "distinct (map f xs) \<Longrightarrow> distinct (map f (butlast xs))"
  by (simp add: map_butlast distinct_butlast)

end
