(* ===== verification/NL_Error.thy ===== *)
theory NL_Error
  imports NL_Prelude
begin

text \<open>
  The error type of every component (\<open>nativelink-error/src/lib.rs\<close>): the codes, the error record
  with its list of messages, and the combinators \<open>append\<close>, \<open>merge\<close> and \<open>err_tip\<close> that the other
  components build their results with. The lemmas say what a chain of merges returns, which is how
  the schedulers report the outcome of a loop, and which conversions between the code and its wire
  or operating-system form lose nothing.
\<close>

section \<open>Codes\<close>

datatype code =
    Code_Ok | Cancelled | Code_Unknown | InvalidArgument | DeadlineExceeded | NotFound
  | AlreadyExists | PermissionDenied | ResourceExhausted | FailedPrecondition | Aborted
  | OutOfRange | Unimplemented | Internal | Unavailable | DataLoss | Unauthenticated

text \<open>The discriminants, \<open>code as i32\<close>.\<close>

fun code_as_i32 :: "code \<Rightarrow> int" where
  "code_as_i32 Code_Ok = 0"
| "code_as_i32 Cancelled = 1"
| "code_as_i32 Code_Unknown = 2"
| "code_as_i32 InvalidArgument = 3"
| "code_as_i32 DeadlineExceeded = 4"
| "code_as_i32 NotFound = 5"
| "code_as_i32 AlreadyExists = 6"
| "code_as_i32 PermissionDenied = 7"
| "code_as_i32 ResourceExhausted = 8"
| "code_as_i32 FailedPrecondition = 9"
| "code_as_i32 Aborted = 10"
| "code_as_i32 OutOfRange = 11"
| "code_as_i32 Unimplemented = 12"
| "code_as_i32 Internal = 13"
| "code_as_i32 Unavailable = 14"
| "code_as_i32 DataLoss = 15"
| "code_as_i32 Unauthenticated = 16"

definition code_from_i32 :: "int \<Rightarrow> code" where
  "code_from_i32 x =
     (if x = code_as_i32 Code_Ok then Code_Ok
      else if x = code_as_i32 Cancelled then Cancelled
      else if x = code_as_i32 Code_Unknown then Code_Unknown
      else if x = code_as_i32 InvalidArgument then InvalidArgument
      else if x = code_as_i32 DeadlineExceeded then DeadlineExceeded
      else if x = code_as_i32 NotFound then NotFound
      else if x = code_as_i32 AlreadyExists then AlreadyExists
      else if x = code_as_i32 PermissionDenied then PermissionDenied
      else if x = code_as_i32 ResourceExhausted then ResourceExhausted
      else if x = code_as_i32 FailedPrecondition then FailedPrecondition
      else if x = code_as_i32 Aborted then Aborted
      else if x = code_as_i32 OutOfRange then OutOfRange
      else if x = code_as_i32 Unimplemented then Unimplemented
      else if x = code_as_i32 Internal then Internal
      else if x = code_as_i32 Unavailable then Unavailable
      else if x = code_as_i32 DataLoss then DataLoss
      else if x = code_as_i32 Unauthenticated then Unauthenticated
      else Code_Unknown)"

lemma code_from_as_i32 [simp]: "code_from_i32 (code_as_i32 c) = c"
  by (cases c) (simp_all add: code_from_i32_def)

section \<open>The error record and its combinators\<close>

record error =
  code :: code
  messages :: "string list"

type_synonym 'a result = "error + 'a"

definition error_new :: "code \<Rightarrow> string \<Rightarrow> error" where
  "error_new c msg = \<lparr>code = c, messages = (if msg \<noteq> [] then [msg] else [])\<rparr>"

definition make_err :: "code \<Rightarrow> string \<Rightarrow> error" where
  "make_err c msg = error_new c msg"

definition make_input_err :: "string \<Rightarrow> error" where
  "make_input_err msg = make_err InvalidArgument msg"

definition error_append :: "error \<Rightarrow> string \<Rightarrow> error" where
  "error_append e msg = e\<lparr>messages := messages e @ [msg]\<rparr>"

definition error_merge :: "error \<Rightarrow> error \<Rightarrow> error" where
  "error_merge e other = e\<lparr>messages := messages e @ [''---''] @ messages other\<rparr>"

definition error_merge_option :: "error option \<Rightarrow> error option \<Rightarrow> error option" where
  "error_merge_option this other =
     (case this of
        Some t \<Rightarrow> (case other of Some o' \<Rightarrow> Some (error_merge t o') | None \<Rightarrow> Some t)
      | None \<Rightarrow> other)"

definition message_string :: "error \<Rightarrow> string" where
  "message_string e = join '' : '' (messages e)"

text \<open>\<open>ResultExt\<close> for \<open>Result\<close> and for \<open>Option\<close>.\<close>

definition err_tip_with_code :: "(error \<Rightarrow> code \<times> string) \<Rightarrow> 'a result \<Rightarrow> 'a result" where
  "err_tip_with_code tip r =
     (case r of
        Inr v \<Rightarrow> Ok v
      | Inl e \<Rightarrow> (case tip e of (c, msg) \<Rightarrow> Err (e\<lparr>code := c, messages := messages e @ [msg]\<rparr>)))"

definition err_tip :: "string \<Rightarrow> 'a result \<Rightarrow> 'a result" where
  "err_tip msg r = err_tip_with_code (\<lambda>e. (code e, msg)) r"

definition opt_err_tip_with_code :: "(error \<Rightarrow> code \<times> string) \<Rightarrow> 'a option \<Rightarrow> 'a result" where
  "opt_err_tip_with_code tip x =
     (case x of
        Some v \<Rightarrow> Ok v
      | None \<Rightarrow>
          (let e = \<lparr>code = Internal, messages = []\<rparr>
           in case tip e of (c, msg) \<Rightarrow> Err (e\<lparr>code := c, messages := messages e @ [msg]\<rparr>)))"

definition opt_err_tip :: "string \<Rightarrow> 'a option \<Rightarrow> 'a result" where
  "opt_err_tip msg x = opt_err_tip_with_code (\<lambda>e. (code e, msg)) x"

definition result_merge :: "'a result \<Rightarrow> 'b result \<Rightarrow> 'b result" where
  "result_merge r other =
     (case r of
        Inl e \<Rightarrow>
          (case other of
             Inl e' \<Rightarrow> Err (e\<lparr>messages := messages e @ [''---''] @ messages e'\<rparr>)
           | Inr _ \<Rightarrow> Err e)
      | Inr _ \<Rightarrow> other)"

section \<open>Conversions\<close>

text \<open>The fields of the generated \<open>google.rpc.Status\<close> message that the conversions read and write.\<close>

record rpc_status =
  status_code :: int
  status_message :: string

definition status_of_error :: "error \<Rightarrow> rpc_status" where
  "status_of_error e = \<lparr>status_code = code_as_i32 (code e), status_message = message_string e\<rparr>"

definition error_of_status :: "rpc_status \<Rightarrow> error" where
  "error_of_status s = \<lparr>code = code_from_i32 (status_code s), messages = [status_message s]\<rparr>"

text \<open>\<open>std::io::ErrorKind\<close>; \<open>Io_Unlisted\<close> stands for every kind the conversion does not name.\<close>

datatype io_error_kind =
    Io_NotFound | Io_PermissionDenied | Io_ConnectionRefused | Io_ConnectionReset
  | Io_ConnectionAborted | Io_AlreadyExists | Io_InvalidInput | Io_InvalidData | Io_TimedOut
  | Io_Interrupted | Io_NotConnected | Io_AddrInUse | Io_AddrNotAvailable | Io_BrokenPipe
  | Io_WouldBlock | Io_WriteZero | Io_Other | Io_UnexpectedEof | Io_Unlisted

fun code_of_io_kind :: "io_error_kind \<Rightarrow> code" where
  "code_of_io_kind Io_NotFound = NotFound"
| "code_of_io_kind Io_PermissionDenied = PermissionDenied"
| "code_of_io_kind Io_ConnectionRefused = Unavailable"
| "code_of_io_kind Io_ConnectionReset = Unavailable"
| "code_of_io_kind Io_ConnectionAborted = Unavailable"
| "code_of_io_kind Io_AlreadyExists = AlreadyExists"
| "code_of_io_kind Io_InvalidInput = InvalidArgument"
| "code_of_io_kind Io_InvalidData = InvalidArgument"
| "code_of_io_kind Io_TimedOut = DeadlineExceeded"
| "code_of_io_kind Io_Interrupted = Aborted"
| "code_of_io_kind Io_NotConnected = Internal"
| "code_of_io_kind Io_AddrInUse = Internal"
| "code_of_io_kind Io_AddrNotAvailable = Internal"
| "code_of_io_kind Io_BrokenPipe = Internal"
| "code_of_io_kind Io_WouldBlock = Internal"
| "code_of_io_kind Io_WriteZero = Internal"
| "code_of_io_kind Io_Other = Internal"
| "code_of_io_kind Io_UnexpectedEof = Internal"
| "code_of_io_kind Io_Unlisted = Code_Unknown"

fun io_kind_of_code :: "code \<Rightarrow> io_error_kind" where
  "io_kind_of_code Aborted = Io_Interrupted"
| "io_kind_of_code AlreadyExists = Io_AlreadyExists"
| "io_kind_of_code DeadlineExceeded = Io_TimedOut"
| "io_kind_of_code InvalidArgument = Io_InvalidInput"
| "io_kind_of_code NotFound = Io_NotFound"
| "io_kind_of_code PermissionDenied = Io_PermissionDenied"
| "io_kind_of_code Unavailable = Io_ConnectionRefused"
| "io_kind_of_code _ = Io_Other"

section \<open>Lemmas\<close>

lemma code_make_err [simp]: "code (make_err c msg) = c"
  by (simp add: make_err_def error_new_def)

lemma code_make_input_err [simp]: "code (make_input_err msg) = InvalidArgument"
  by (simp add: make_input_err_def)

lemma err_tip_Ok [simp]: "err_tip msg (Ok v) = Ok v"
  by (simp add: err_tip_def err_tip_with_code_def)

lemma err_tip_Ok_iff [simp]: "err_tip msg r = Ok v \<longleftrightarrow> r = Ok v"
  by (cases r) (auto simp: err_tip_def err_tip_with_code_def)

lemma err_tip_Err [simp]: "err_tip msg (Err e) = Err (e\<lparr>messages := messages e @ [msg]\<rparr>)"
  by (simp add: err_tip_def err_tip_with_code_def)

lemma err_tip_Err_code: "err_tip msg r = Err e \<Longrightarrow> \<exists>e'. r = Err e' \<and> code e' = code e"
  by (cases r) auto

lemma is_ok_err_tip [simp]: "is_ok (err_tip msg r) = is_ok r"
  by (cases r) auto

lemma opt_err_tip_Some [simp]: "opt_err_tip msg (Some v) = Ok v"
  by (simp add: opt_err_tip_def opt_err_tip_with_code_def)

lemma opt_err_tip_None [simp]:
  "opt_err_tip msg None = Err \<lparr>code = Internal, messages = [msg]\<rparr>"
  by (simp add: opt_err_tip_def opt_err_tip_with_code_def)

lemma result_merge_Ok [simp]: "result_merge (Ok v) r = r"
  by (simp add: result_merge_def)

lemma result_merge_Err_Ok [simp]: "result_merge (Err e) (Ok v) = Err e"
  by (simp add: result_merge_def)

lemma result_merge_Err_Err [simp]:
  "result_merge (Err e) (Err e') = Err (e\<lparr>messages := messages e @ [''---''] @ messages e'\<rparr>)"
  by (simp add: result_merge_def)

lemma is_ok_result_merge [simp]: "is_ok (result_merge r s) \<longleftrightarrow> is_ok r \<and> is_ok s"
  by (cases r; cases s) simp_all

lemma result_merge_Err_code: "\<exists>e'. result_merge (Err e) r = Err e' \<and> code e' = code e"
  by (cases r) auto

lemma error_merge_assoc: "error_merge (error_merge a b) c = error_merge a (error_merge b c)"
  by (simp add: error_merge_def)

lemma code_error_merge [simp]: "code (error_merge a b) = code a"
  by (simp add: error_merge_def)

text \<open>A loop that merges the outcome of each round into \<open>result\<close>.\<close>

definition merge_all :: "unit result list \<Rightarrow> unit result" where
  "merge_all rs = foldl result_merge (Ok ()) rs"

lemma foldl_merge_Err_code:
  "\<exists>e'. foldl result_merge (Err e :: unit result) rs = Err e' \<and> code e' = code e"
proof (induction rs arbitrary: e)
  case Nil
  then show ?case by simp
next
  case (Cons r rs)
  obtain e1 where "result_merge (Err e :: unit result) r = Err e1" and "code e1 = code e"
    using result_merge_Err_code [of e r] by blast
  with Cons.IH [of e1] show ?case by simp
qed

lemma merge_all_snoc: "merge_all (rs @ [r]) = result_merge (merge_all rs) r"
  by (simp add: merge_all_def)

lemma merge_all_ok_iff: "is_ok (merge_all rs) \<longleftrightarrow> (\<forall>r \<in> set rs. is_ok r)"
  by (induction rs rule: rev_induct) (auto simp: merge_all_snoc, auto simp: merge_all_def)

end
