(* ===== verification/Lru_Cache.thy ===== *)
theory Lru_Cache
  imports NL_Prelude
begin

text \<open>
  The interface of the \<open>lru\<close> crate, which is not part of the repository. The operations the
  repository calls are the fields of \<open>lru_ops\<close>, a parameter of every definition that holds an
  \<open>LruCache\<close>; what the crate documents about them are the assumptions of the locale
  \<open>lru_cache\<close>. Everything is stated over \<open>lru_iter\<close>, the entries from the most to the least
  recently used. The last section gives a reference instance over association lists, on which the
  locale is interpreted and the witnesses of the client theories evaluate.
\<close>

section \<open>Operations\<close>

text \<open>
  \<open>lru_get\<close> is both \<open>get\<close> and \<open>get_mut\<close>; \<open>lru_write\<close> is the assignment through the reference that
  \<open>get_mut\<close> or \<open>peek_mut\<close> returned; \<open>lru_pop\<close> is both \<open>pop\<close> and \<open>pop_entry\<close>.
\<close>

record ('k, 'v, 'c) lru_ops =
  lru_unbounded :: 'c
  lru_len :: "'c \<Rightarrow> nat"
  lru_iter :: "'c \<Rightarrow> ('k \<times> 'v) list"
  lru_peek_lru :: "'c \<Rightarrow> ('k \<times> 'v) option"
  lru_pop_lru :: "'c \<Rightarrow> ('k \<times> 'v) option \<times> 'c"
  lru_put :: "'k \<Rightarrow> 'v \<Rightarrow> 'c \<Rightarrow> 'v option \<times> 'c"
  lru_get :: "'k \<Rightarrow> 'c \<Rightarrow> 'v option \<times> 'c"
  lru_peek :: "'k \<Rightarrow> 'c \<Rightarrow> 'v option"
  lru_write :: "'k \<Rightarrow> 'v \<Rightarrow> 'c \<Rightarrow> 'c"
  lru_pop :: "'k \<Rightarrow> 'c \<Rightarrow> 'v option \<times> 'c"

text \<open>The effects on the list of entries that the documentation describes.\<close>

definition drop_key :: "'k \<Rightarrow> ('k \<times> 'v) list \<Rightarrow> ('k \<times> 'v) list" where
  "drop_key k xs = filter (\<lambda>p. fst p \<noteq> k) xs"

definition promote :: "'k \<Rightarrow> ('k \<times> 'v) list \<Rightarrow> ('k \<times> 'v) list" where
  "promote k xs = (case map_of xs k of None \<Rightarrow> xs | Some v \<Rightarrow> (k, v) # drop_key k xs)"

definition write_key :: "'k \<Rightarrow> 'v \<Rightarrow> ('k \<times> 'v) list \<Rightarrow> ('k \<times> 'v) list" where
  "write_key k v xs = map (\<lambda>p. if fst p = k then (k, v) else p) xs"

section \<open>What the crate documents\<close>

locale lru_cache =
  fixes L :: "('k, 'v, 'c) lru_ops"
  assumes iter_distinct: "distinct (map fst (lru_iter L c))"
    and iter_unbounded: "lru_iter L (lru_unbounded L) = []"
    and len_iter: "lru_len L c = length (lru_iter L c)"
    and peek_lru_iter:
      "lru_peek_lru L c = (if lru_iter L c = [] then None else Some (last (lru_iter L c)))"
    and pop_lru_value: "fst (lru_pop_lru L c) = lru_peek_lru L c"
    and pop_lru_iter: "lru_iter L (snd (lru_pop_lru L c)) = butlast (lru_iter L c)"
    and put_value: "fst (lru_put L k v c) = map_of (lru_iter L c) k"
    and put_iter: "lru_iter L (snd (lru_put L k v c)) = (k, v) # drop_key k (lru_iter L c)"
    and get_value: "fst (lru_get L k c) = map_of (lru_iter L c) k"
    and get_iter: "lru_iter L (snd (lru_get L k c)) = promote k (lru_iter L c)"
    and peek_value: "lru_peek L k c = map_of (lru_iter L c) k"
    and write_iter: "lru_iter L (lru_write L k v c) = write_key k v (lru_iter L c)"
    and pop_value: "fst (lru_pop L k c) = map_of (lru_iter L c) k"
    and pop_iter: "lru_iter L (snd (lru_pop L k c)) = drop_key k (lru_iter L c)"
begin

lemmas lru_values = pop_lru_value put_value get_value peek_value pop_value peek_lru_iter len_iter

lemmas lru_iters = iter_unbounded pop_lru_iter put_iter get_iter write_iter pop_iter

lemma pop_lru_cases:
  assumes "lru_peek_lru L c = Some p"
  shows "\<exists>c'. lru_pop_lru L c = (Some p, c') \<and> lru_iter L c = lru_iter L c' @ [p]"
proof -
  from assms have ne: "lru_iter L c \<noteq> []" and p: "p = last (lru_iter L c)"
    by (auto simp: peek_lru_iter split: if_splits)
  obtain r c' where pop: "lru_pop_lru L c = (r, c')" by (cases "lru_pop_lru L c")
  from pop_lru_value [of c] pop assms have "r = Some p" by simp
  moreover from pop_lru_iter [of c] pop ne p have "lru_iter L c = lru_iter L c' @ [p]" by simp
  ultimately show ?thesis using pop by simp
qed

end

section \<open>Facts about the list effects\<close>

lemma map_of_drop_key [simp]: "map_of (drop_key k xs) = (map_of xs)(k := None)"
  by (simp add: drop_key_def map_of_filter_key)

lemma keys_drop_key [simp]: "fst ` set (drop_key k xs) = fst ` set xs - {k}"
  by (auto simp: drop_key_def)

lemma distinct_drop_key [simp]: "distinct (map fst xs) \<Longrightarrow> distinct (map fst (drop_key k xs))"
  by (simp add: drop_key_def distinct_filter_key)

lemma drop_key_absent [simp]: "map_of xs k = None \<Longrightarrow> drop_key k xs = xs"
  by (simp add: drop_key_def filter_key_absent)

lemma mset_drop_key:
  "distinct (map fst xs) \<Longrightarrow> map_of xs k = Some v \<Longrightarrow> mset xs = add_mset (k, v) (mset (drop_key k xs))"
  unfolding drop_key_def by (rule mset_filter_remove_key)

lemma mset_promote: "distinct (map fst xs) \<Longrightarrow> mset (promote k xs) = mset xs"
  by (simp add: promote_def mset_drop_key [symmetric] split: option.split)

lemma map_of_promote [simp]: "map_of (promote k xs) = map_of xs"
  by (auto simp: promote_def fun_eq_iff split: option.split)

lemma keys_promote [simp]: "fst ` set (promote k xs) = fst ` set xs"
  by (auto simp: promote_def split: option.split dest: map_of_SomeD intro: rev_image_eqI)

lemma keys_write_key [simp]: "map fst (write_key k v xs) = map fst xs"
  by (induction xs) (auto simp: write_key_def)

lemma write_key_absent: "k \<notin> fst ` set xs \<Longrightarrow> write_key k v xs = xs"
  by (induction xs) (auto simp: write_key_def)

lemma map_of_write_key:
  "map_of (write_key k v xs) = (if map_of xs k = None then map_of xs else (map_of xs)(k \<mapsto> v))"
  by (induction xs) (auto simp: write_key_def fun_eq_iff)

section \<open>A reference instance\<close>

text \<open>
  The cache is the association list of its entries. Every operation first removes shadowed
  entries, so that the laws hold for every list.
\<close>

definition list_lru :: "('k, 'v, ('k \<times> 'v) list) lru_ops" where
  "list_lru =
     \<lparr>lru_unbounded = [],
      lru_len = (\<lambda>c. length (AList.clearjunk c)),
      lru_iter = AList.clearjunk,
      lru_peek_lru = (\<lambda>c. let xs = AList.clearjunk c in if xs = [] then None else Some (last xs)),
      lru_pop_lru = (\<lambda>c. let xs = AList.clearjunk c
                         in (if xs = [] then None else Some (last xs), butlast xs)),
      lru_put = (\<lambda>k v c. (map_of c k, (k, v) # drop_key k (AList.clearjunk c))),
      lru_get = (\<lambda>k c. (map_of c k, promote k (AList.clearjunk c))),
      lru_peek = (\<lambda>k c. map_of c k),
      lru_write = (\<lambda>k v c. write_key k v (AList.clearjunk c)),
      lru_pop = (\<lambda>k c. (map_of c k, drop_key k (AList.clearjunk c)))\<rparr>"

lemma clearjunk_distinct_id: "distinct (map fst xs) \<Longrightarrow> AList.clearjunk xs = xs"
proof (induction xs)
  case Nil
  then show ?case by simp
next
  case (Cons p xs)
  then have "AList.delete (fst p) xs = xs"
    by (auto simp: AList.delete_eq filter_id_conv image_iff)
  with Cons show ?case by (cases p) simp
qed

lemma distinct_promote: "distinct (map fst xs) \<Longrightarrow> distinct (map fst (promote k xs))"
  by (auto simp: promote_def split: option.split)

lemma clearjunk_put:
  "AList.clearjunk ((k, v) # drop_key k (AList.clearjunk xs)) = (k, v) # drop_key k (AList.clearjunk xs)"
  by (rule clearjunk_distinct_id) (simp add: distinct_clearjunk)

lemmas clearjunk_effects =
  clearjunk_distinct_id [OF distinct_map_butlast [OF distinct_clearjunk]]
  clearjunk_distinct_id [OF distinct_promote [OF distinct_clearjunk]]
  clearjunk_distinct_id [OF distinct_drop_key [OF distinct_clearjunk]]

lemma clearjunk_write:
  "AList.clearjunk (write_key k v (AList.clearjunk xs)) = write_key k v (AList.clearjunk xs)"
  by (rule clearjunk_distinct_id) (simp add: distinct_clearjunk)

interpretation ll: lru_cache "list_lru :: ('k, 'v, ('k \<times> 'v) list) lru_ops"
proof (unfold_locales, goal_cases)
  case (8 k v c)
  show ?case unfolding list_lru_def lru_ops.simps snd_conv by (rule clearjunk_put)
qed (simp_all add: list_lru_def Let_def distinct_clearjunk map_of_clearjunk clearjunk_effects
    clearjunk_write)

end
