(* ===== verification/Evicting_Map.thy ===== *)
theory Evicting_Map
  imports Lru_Cache
begin

text \<open>
  \<open>EvictingMap\<close> (nativelink-util/src/evicting_map.rs), the bounded LRU map below the memory store,
  the filesystem store, the existence cache and the scheduler's client table. The state behind the
  mutex is the record \<open>em_state\<close>; every public method locks the mutex once, so it is one
  state-passing function. \<open>now\<close> is \<open>anchor_time.elapsed().as_secs()\<close> at the time of the call, and a
  \<open>len_entry\<close> holds the methods of the \<open>LenEntry\<close> trait that return a value. \<open>unref\<close> returns
  nothing: its calls are recorded, in order, in \<open>unref_calls\<close>. Metrics are taken to be enabled, and
  the time of the last change that \<open>CounterWithTime\<close> keeps is left out.
\<close>

section \<open>State\<close>

record 'v eviction_item =
  seconds_since_anchor :: i32
  data :: 'v

record 'v len_entry =
  entry_len :: "'v \<Rightarrow> u64"
  entry_touch :: "'v \<Rightarrow> bool"

record ('k, 'v, 'c) em_state =
  lru :: 'c
  btree :: "'k set option"
  sum_store_size :: u64
  evicted_bytes :: u64
  evicted_items :: u64
  replaced_bytes :: u64
  replaced_items :: u64
  lifetime_inserted_bytes :: u64
  unref_calls :: "'v list"

record eviction_policy =
  policy_max_bytes :: u64
  policy_evict_bytes :: u64
  policy_max_seconds :: u32
  policy_max_count :: u64

record em_config =
  max_bytes :: u64
  evict_bytes :: u64
  max_seconds :: i32
  max_count :: u64

type_synonym ('k, 'v, 'c) em_lru = "('k, 'v eviction_item, 'c) lru_ops"

section \<open>Operations\<close>

definition em_state_remove ::
  "'v len_entry \<Rightarrow> 'k \<Rightarrow> 'v eviction_item \<Rightarrow> bool \<Rightarrow> ('k, 'v, 'c) em_state \<Rightarrow> ('k, 'v, 'c) em_state" where
  "em_state_remove E key item replaced s =
     (let s1 = s\<lparr>btree := map_option (\<lambda>b. b - {key}) (btree s),
                 sum_store_size := sum_store_size s - entry_len E (data item)\<rparr>;
          s2 = (if replaced
                then s1\<lparr>replaced_items := replaced_items s1 + 1,
                        replaced_bytes := replaced_bytes s1 + entry_len E (data item)\<rparr>
                else s1\<lparr>evicted_items := evicted_items s1 + 1,
                        evicted_bytes := evicted_bytes s1 + entry_len E (data item)\<rparr>)
      in s2\<lparr>unref_calls := unref_calls s2 @ [data item]\<rparr>)"

definition em_state_put ::
  "('k, 'v, 'c) em_lru \<Rightarrow> 'v len_entry \<Rightarrow> 'k \<Rightarrow> 'v eviction_item \<Rightarrow> ('k, 'v, 'c) em_state
     \<Rightarrow> 'v option \<times> ('k, 'v, 'c) em_state" where
  "em_state_put L E key item s =
     (let s1 = s\<lparr>btree := map_option (insert key) (btree s)\<rparr>
      in case lru_put L key item (lru s1) of
           (Some old_item, c) \<Rightarrow>
             (Some (data old_item), em_state_remove E key old_item True (s1\<lparr>lru := c\<rparr>))
         | (None, c) \<Rightarrow> (None, s1\<lparr>lru := c\<rparr>))"

definition em_config_new :: "eviction_policy \<Rightarrow> em_config" where
  "em_config_new p =
     \<lparr>max_bytes = policy_max_bytes p, evict_bytes = policy_evict_bytes p,
      max_seconds = policy_max_seconds p, max_count = policy_max_count p\<rparr>"

definition em_state_new :: "('k, 'v, 'c) em_lru \<Rightarrow> ('k, 'v, 'c) em_state" where
  "em_state_new L =
     \<lparr>lru = lru_unbounded L, btree = None, sum_store_size = 0, evicted_bytes = 0,
      evicted_items = 0, replaced_bytes = 0, replaced_items = 0, lifetime_inserted_bytes = 0,
      unref_calls = []\<rparr>"

definition rebuild_btree_index ::
  "('k, 'v, 'c) em_lru \<Rightarrow> ('k, 'v, 'c) em_state \<Rightarrow> ('k, 'v, 'c) em_state" where
  "rebuild_btree_index L s = s\<lparr>btree := Some (set (map fst (lru_iter L (lru s))))\<rparr>"

definition enable_filtering ::
  "('k, 'v, 'c) em_lru \<Rightarrow> ('k, 'v, 'c) em_state \<Rightarrow> ('k, 'v, 'c) em_state" where
  "enable_filtering L s = (case btree s of None \<Rightarrow> rebuild_btree_index L s | Some _ \<Rightarrow> s)"

text \<open>
  The handler of \<open>range\<close> is a closure with a state of its own. \<open>None\<close> is a panic: of
  \<open>BTreeSet::range\<close> on an inverted range, or of \<open>unwrap\<close> on a key that is in the index only.
\<close>

fun em_range_loop ::
  "('k, 'v, 'c) em_lru \<Rightarrow> 'c \<Rightarrow> ('k \<Rightarrow> 'v \<Rightarrow> 'h \<Rightarrow> bool \<times> 'h) \<Rightarrow> 'k list \<Rightarrow> 'h \<Rightarrow> u64
     \<Rightarrow> (u64 \<times> 'h) option" where
  "em_range_loop L c handler [] h continue_count = Some (continue_count, h)"
| "em_range_loop L c handler (key # keys) h continue_count =
     (case lru_peek L key c of
        None \<Rightarrow> None
      | Some item \<Rightarrow>
          (case handler key (data item) h of
             (False, h') \<Rightarrow> Some (continue_count, h')
           | (True, h') \<Rightarrow> em_range_loop L c handler keys h' (continue_count + 1)))"

definition em_range ::
  "('k::linorder, 'v, 'c) em_lru \<Rightarrow> 'k bound \<Rightarrow> 'k bound \<Rightarrow> ('k \<Rightarrow> 'v \<Rightarrow> 'h \<Rightarrow> bool \<times> 'h) \<Rightarrow> 'h
     \<Rightarrow> ('k, 'v, 'c) em_state \<Rightarrow> (u64 \<times> 'h \<times> ('k, 'v, 'c) em_state) option" where
  "em_range L lo hi handler h s =
     (let s1 = (case btree s of Some _ \<Rightarrow> s | None \<Rightarrow> rebuild_btree_index L s)
      in if range_panics lo hi then None
         else (case em_range_loop L (lru s1) handler
                      (sorted_list_of_set
                        (Set.filter (\<lambda>k. above_start lo k \<and> below_end hi k) (the (btree s1)))) h 0 of
                 None \<Rightarrow> None
               | Some (n, h') \<Rightarrow> Some (n, h', s1)))"

definition should_evict ::
  "em_config \<Rightarrow> u64 \<Rightarrow> nat \<Rightarrow> 'v eviction_item \<Rightarrow> u64 \<Rightarrow> u64 \<Rightarrow> bool" where
  "should_evict cfg now lru_length peek_entry sum_size mb =
     (let is_over_size = (mb \<noteq> 0 \<and> mb \<le> sum_size);
          evict_older_than_seconds = (ucast now :: i32) - max_seconds cfg;
          old_item_exists = (max_seconds cfg \<noteq> 0
                             \<and> seconds_since_anchor peek_entry <s evict_older_than_seconds);
          is_over_count = (max_count cfg \<noteq> 0 \<and> max_count cfg < of_nat lru_length)
      in is_over_size \<or> old_item_exists \<or> is_over_count)"

text \<open>
  The loop of \<open>evict_items\<close>: \<open>fuel\<close> bounds the iterations. Every iteration pops an entry, so the
  number of entries is enough (\<open>evict_loop_spec\<close>). \<open>pop_lru\<close> after a successful \<open>peek_lru\<close> cannot
  fail, the branch that stands for the \<open>expect\<close> leaves the state alone.
\<close>

fun evict_loop ::
  "('k, 'v, 'c) em_lru \<Rightarrow> 'v len_entry \<Rightarrow> em_config \<Rightarrow> u64 \<Rightarrow> u64 \<Rightarrow> nat
     \<Rightarrow> ('k, 'v, 'c) em_state \<Rightarrow> ('k, 'v, 'c) em_state" where
  "evict_loop L E cfg now mb 0 s = s"
| "evict_loop L E cfg now mb (Suc fuel) s =
     (case lru_peek_lru L (lru s) of
        None \<Rightarrow> s
      | Some (_, peek_entry) \<Rightarrow>
          if should_evict cfg now (lru_len L (lru s)) peek_entry (sum_store_size s) mb
          then (case lru_pop_lru L (lru s) of
                  (None, c) \<Rightarrow> s
                | (Some (key, item), c) \<Rightarrow>
                    evict_loop L E cfg now mb fuel (em_state_remove E key item False (s\<lparr>lru := c\<rparr>)))
          else s)"

definition evict_threshold ::
  "em_config \<Rightarrow> u64 \<Rightarrow> nat \<Rightarrow> 'v eviction_item \<Rightarrow> u64 \<Rightarrow> u64" where
  "evict_threshold cfg now lru_length peek_entry sum_size =
     (if max_bytes cfg \<noteq> 0 \<and> evict_bytes cfg \<noteq> 0
         \<and> should_evict cfg now lru_length peek_entry sum_size (max_bytes cfg)
      then if evict_bytes cfg < max_bytes cfg then max_bytes cfg - evict_bytes cfg else 0
      else max_bytes cfg)"

definition evict_items ::
  "('k, 'v, 'c) em_lru \<Rightarrow> 'v len_entry \<Rightarrow> em_config \<Rightarrow> u64
     \<Rightarrow> ('k, 'v, 'c) em_state \<Rightarrow> ('k, 'v, 'c) em_state" where
  "evict_items L E cfg now s =
     (case lru_peek_lru L (lru s) of
        None \<Rightarrow> s
      | Some (_, peek_entry) \<Rightarrow>
          evict_loop L E cfg now
            (evict_threshold cfg now (lru_len L (lru s)) peek_entry (sum_store_size s))
            (lru_len L (lru s)) s)"

definition size_of_entry ::
  "('k, 'v, 'c) em_lru \<Rightarrow> 'v len_entry \<Rightarrow> em_config \<Rightarrow> u64 \<Rightarrow> bool \<Rightarrow> nat \<Rightarrow> 'k
     \<Rightarrow> ('k, 'v, 'c) em_state \<Rightarrow> u64 option \<times> ('k, 'v, 'c) em_state" where
  "size_of_entry L E cfg now peek lru_length key s =
     (case (if peek then (lru_peek L key (lru s), lru s) else lru_get L key (lru s)) of
        (Some entry, c) \<Rightarrow>
          let evict = should_evict cfg now lru_length entry 0 (-1)
          in if \<not> evict \<and> peek then (Some (entry_len E (data entry)), s\<lparr>lru := c\<rparr>)
             else if \<not> evict \<and> entry_touch E (data entry)
             then (Some (entry_len E (data entry)),
                   s\<lparr>lru := lru_write L key (entry\<lparr>seconds_since_anchor := ucast now\<rparr>) c\<rparr>)
             else (case lru_pop L key c of
                     (Some item, c') \<Rightarrow> (None, em_state_remove E key item False (s\<lparr>lru := c'\<rparr>))
                   | (None, c') \<Rightarrow> (None, s\<lparr>lru := c'\<rparr>))
      | (None, c) \<Rightarrow> (None, s\<lparr>lru := c\<rparr>))"

fun sizes_for_keys_loop ::
  "('k, 'v, 'c) em_lru \<Rightarrow> 'v len_entry \<Rightarrow> em_config \<Rightarrow> u64 \<Rightarrow> bool \<Rightarrow> nat \<Rightarrow> 'k list
     \<Rightarrow> ('k, 'v, 'c) em_state \<Rightarrow> u64 option list \<times> ('k, 'v, 'c) em_state" where
  "sizes_for_keys_loop L E cfg now peek lru_length [] s = ([], s)"
| "sizes_for_keys_loop L E cfg now peek lru_length (key # keys) s =
     (let (result, s1) = size_of_entry L E cfg now peek lru_length key s;
          (results, s2) = sizes_for_keys_loop L E cfg now peek lru_length keys s1
      in (result # results, s2))"

definition sizes_for_keys ::
  "('k, 'v, 'c) em_lru \<Rightarrow> 'v len_entry \<Rightarrow> em_config \<Rightarrow> u64 \<Rightarrow> 'k list \<Rightarrow> bool
     \<Rightarrow> ('k, 'v, 'c) em_state \<Rightarrow> u64 option list \<times> ('k, 'v, 'c) em_state" where
  "sizes_for_keys L E cfg now keys peek s =
     sizes_for_keys_loop L E cfg now peek (lru_len L (lru s)) keys s"

definition size_for_key ::
  "('k, 'v, 'c) em_lru \<Rightarrow> 'v len_entry \<Rightarrow> em_config \<Rightarrow> u64 \<Rightarrow> 'k
     \<Rightarrow> ('k, 'v, 'c) em_state \<Rightarrow> u64 option \<times> ('k, 'v, 'c) em_state" where
  "size_for_key L E cfg now key s =
     (let (results, s') = sizes_for_keys L E cfg now [key] False s in (hd results, s'))"

definition em_get ::
  "('k, 'v, 'c) em_lru \<Rightarrow> 'v len_entry \<Rightarrow> em_config \<Rightarrow> u64 \<Rightarrow> 'k
     \<Rightarrow> ('k, 'v, 'c) em_state \<Rightarrow> 'v option \<times> ('k, 'v, 'c) em_state" where
  "em_get L E cfg now key s =
     (let s1 = evict_items L E cfg now s
      in case lru_get L key (lru s1) of
           (None, c) \<Rightarrow> (None, s1\<lparr>lru := c\<rparr>)
         | (Some entry, c) \<Rightarrow>
             if entry_touch E (data entry)
             then (Some (data entry),
                   s1\<lparr>lru := lru_write L key (entry\<lparr>seconds_since_anchor := ucast now\<rparr>) c\<rparr>)
             else (case lru_pop L key c of
                     (None, c') \<Rightarrow> (None, s1\<lparr>lru := c'\<rparr>)
                   | (Some item, c') \<Rightarrow> (None, em_state_remove E key item False (s1\<lparr>lru := c'\<rparr>))))"

fun inner_insert_many ::
  "('k, 'v, 'c) em_lru \<Rightarrow> 'v len_entry \<Rightarrow> em_config \<Rightarrow> u64 \<Rightarrow> ('k \<times> 'v) list \<Rightarrow> i32
     \<Rightarrow> ('k, 'v, 'c) em_state \<Rightarrow> 'v list \<times> ('k, 'v, 'c) em_state" where
  "inner_insert_many L E cfg now [] secs s = ([], s)"
| "inner_insert_many L E cfg now ((key, d) # inserts) secs s =
     (let (old_item, s1) = em_state_put L E key \<lparr>seconds_since_anchor = secs, data = d\<rparr> s;
          s2 = s1\<lparr>sum_store_size := sum_store_size s1 + entry_len E d,
                  lifetime_inserted_bytes := lifetime_inserted_bytes s1 + entry_len E d\<rparr>;
          s3 = evict_items L E cfg now s2;
          (rest, s4) = inner_insert_many L E cfg now inserts secs s3
      in ((case old_item of Some v \<Rightarrow> [v] | None \<Rightarrow> []) @ rest, s4))"

definition insert_with_time ::
  "('k, 'v, 'c) em_lru \<Rightarrow> 'v len_entry \<Rightarrow> em_config \<Rightarrow> u64 \<Rightarrow> 'k \<Rightarrow> 'v \<Rightarrow> i32
     \<Rightarrow> ('k, 'v, 'c) em_state \<Rightarrow> 'v option \<times> ('k, 'v, 'c) em_state" where
  "insert_with_time L E cfg now key d secs s =
     (let (results, s') = inner_insert_many L E cfg now [(key, d)] secs s
      in (case results of [] \<Rightarrow> None | v # _ \<Rightarrow> Some v, s'))"

definition em_insert ::
  "('k, 'v, 'c) em_lru \<Rightarrow> 'v len_entry \<Rightarrow> em_config \<Rightarrow> u64 \<Rightarrow> 'k \<Rightarrow> 'v
     \<Rightarrow> ('k, 'v, 'c) em_state \<Rightarrow> 'v option \<times> ('k, 'v, 'c) em_state" where
  "em_insert L E cfg now key d s = insert_with_time L E cfg now key d (ucast now) s"

definition insert_many ::
  "('k, 'v, 'c) em_lru \<Rightarrow> 'v len_entry \<Rightarrow> em_config \<Rightarrow> u64 \<Rightarrow> ('k \<times> 'v) list
     \<Rightarrow> ('k, 'v, 'c) em_state \<Rightarrow> 'v list \<times> ('k, 'v, 'c) em_state" where
  "insert_many L E cfg now inserts s =
     (if inserts = [] then ([], s) else inner_insert_many L E cfg now inserts (ucast now) s)"

definition inner_remove ::
  "('k, 'v, 'c) em_lru \<Rightarrow> 'v len_entry \<Rightarrow> em_config \<Rightarrow> u64 \<Rightarrow> 'k
     \<Rightarrow> ('k, 'v, 'c) em_state \<Rightarrow> bool \<times> ('k, 'v, 'c) em_state" where
  "inner_remove L E cfg now key s =
     (let s1 = evict_items L E cfg now s
      in case lru_pop L key (lru s1) of
           (Some entry, c) \<Rightarrow> (True, em_state_remove E key entry False (s1\<lparr>lru := c\<rparr>))
         | (None, c) \<Rightarrow> (False, s1\<lparr>lru := c\<rparr>))"

definition em_remove ::
  "('k, 'v, 'c) em_lru \<Rightarrow> 'v len_entry \<Rightarrow> em_config \<Rightarrow> u64 \<Rightarrow> 'k
     \<Rightarrow> ('k, 'v, 'c) em_state \<Rightarrow> bool \<times> ('k, 'v, 'c) em_state" where
  "em_remove L E cfg now key s = inner_remove L E cfg now key s"

definition remove_if ::
  "('k, 'v, 'c) em_lru \<Rightarrow> 'v len_entry \<Rightarrow> em_config \<Rightarrow> u64 \<Rightarrow> 'k \<Rightarrow> ('v \<Rightarrow> bool)
     \<Rightarrow> ('k, 'v, 'c) em_state \<Rightarrow> bool \<times> ('k, 'v, 'c) em_state" where
  "remove_if L E cfg now key cond s =
     (case lru_get L key (lru s) of
        (Some entry, c) \<Rightarrow>
          if \<not> cond (data entry) then (False, s\<lparr>lru := c\<rparr>)
          else inner_remove L E cfg now key (s\<lparr>lru := c\<rparr>)
      | (None, c) \<Rightarrow> (False, s\<lparr>lru := c\<rparr>))"


section \<open>Histories\<close>

text \<open>A client is a sequence of calls, each with the clock it reads.\<close>

datatype ('k, 'v) em_op =
  Em_insert 'k 'v
| Em_insert_with_time 'k 'v i32
| Em_insert_many "('k \<times> 'v) list"
| Em_get 'k
| Em_sizes_for_keys "'k list" bool
| Em_remove 'k
| Em_remove_if 'k "'v \<Rightarrow> bool"
| Em_enable_filtering

fun em_exec ::
  "('k, 'v, 'c) em_lru \<Rightarrow> 'v len_entry \<Rightarrow> em_config \<Rightarrow> u64 \<Rightarrow> ('k, 'v) em_op
     \<Rightarrow> ('k, 'v, 'c) em_state \<Rightarrow> ('k, 'v, 'c) em_state" where
  "em_exec L E cfg now (Em_insert k v) s = snd (em_insert L E cfg now k v s)"
| "em_exec L E cfg now (Em_insert_with_time k v t) s = snd (insert_with_time L E cfg now k v t s)"
| "em_exec L E cfg now (Em_insert_many kvs) s = snd (insert_many L E cfg now kvs s)"
| "em_exec L E cfg now (Em_get k) s = snd (em_get L E cfg now k s)"
| "em_exec L E cfg now (Em_sizes_for_keys ks peek) s = snd (sizes_for_keys L E cfg now ks peek s)"
| "em_exec L E cfg now (Em_remove k) s = snd (em_remove L E cfg now k s)"
| "em_exec L E cfg now (Em_remove_if k P) s = snd (remove_if L E cfg now k P s)"
| "em_exec L E cfg now Em_enable_filtering s = enable_filtering L s"

fun em_run ::
  "('k, 'v, 'c) em_lru \<Rightarrow> 'v len_entry \<Rightarrow> em_config \<Rightarrow> (u64 \<times> ('k, 'v) em_op) list
     \<Rightarrow> ('k, 'v, 'c) em_state \<Rightarrow> ('k, 'v, 'c) em_state" where
  "em_run L E cfg [] s = s"
| "em_run L E cfg ((now, op) # ops) s = em_run L E cfg ops (em_exec L E cfg now op s)"

fun inserted_by :: "('k, 'v) em_op \<Rightarrow> 'v list" where
  "inserted_by (Em_insert k v) = [v]"
| "inserted_by (Em_insert_with_time k v t) = [v]"
| "inserted_by (Em_insert_many kvs) = map snd kvs"
| "inserted_by _ = []"

section \<open>The invariant\<close>

definition contents :: "('k, 'v, 'c) em_lru \<Rightarrow> ('k, 'v, 'c) em_state \<Rightarrow> ('k \<times> 'v) list" where
  "contents L s = map (\<lambda>p. (fst p, data (snd p))) (lru_iter L (lru s))"

definition stored_bytes :: "'v len_entry \<Rightarrow> ('k \<times> 'v) list \<Rightarrow> u64" where
  "stored_bytes E kvs = sum_list (map (\<lambda>p. entry_len E (snd p)) kvs)"

definition em_inv :: "('k, 'v, 'c) em_lru \<Rightarrow> 'v len_entry \<Rightarrow> ('k, 'v, 'c) em_state \<Rightarrow> bool" where
  "em_inv L E s \<longleftrightarrow>
     sum_store_size s = stored_bytes E (contents L s)
     \<and> lifetime_inserted_bytes s = sum_store_size s + evicted_bytes s + replaced_bytes s
     \<and> (case btree s of None \<Rightarrow> True | Some b \<Rightarrow> b \<subseteq> fst ` set (contents L s))"

definition index_exact :: "('k, 'v, 'c) em_lru \<Rightarrow> ('k, 'v, 'c) em_state \<Rightarrow> bool" where
  "index_exact L s \<longleftrightarrow>
     (case btree s of None \<Rightarrow> True | Some b \<Rightarrow> b = fst ` set (contents L s))"

definition owned :: "('k, 'v, 'c) em_lru \<Rightarrow> ('k, 'v, 'c) em_state \<Rightarrow> 'v multiset" where
  "owned L s = image_mset snd (mset (contents L s)) + mset (unref_calls s)"

text \<open>
  Every method changes the state through three steps: it reorders the entries or rewrites their
  times, it takes one entry out, or it puts one in. The first two keep what \<open>em_inv\<close> and \<open>owned\<close>
  speak of.
\<close>

definition em_keeps ::
  "('k, 'v, 'c) em_lru \<Rightarrow> 'v len_entry \<Rightarrow> ('k, 'v, 'c) em_state \<Rightarrow> ('k, 'v, 'c) em_state \<Rightarrow> bool" where
  "em_keeps L E s s' \<longleftrightarrow>
     (em_inv L E s \<longrightarrow> em_inv L E s') \<and> (index_exact L s \<longrightarrow> index_exact L s')
     \<and> owned L s' = owned L s \<and> mset (contents L s') \<subseteq># mset (contents L s)
     \<and> lifetime_inserted_bytes s' = lifetime_inserted_bytes s"

lemma stored_bytes_mset:
  "stored_bytes E kvs = (\<Sum>p\<in>#mset kvs. entry_len E (snd p))"
  by (simp add: stored_bytes_def flip: mset_map sum_mset_sum_list)

lemma stored_bytes_cong: "mset xs = mset ys \<Longrightarrow> stored_bytes E xs = stored_bytes E ys"
  by (simp add: stored_bytes_mset)

lemma stored_bytes_simps [simp]:
  "stored_bytes E [] = 0"
  "stored_bytes E (p # kvs) = entry_len E (snd p) + stored_bytes E kvs"
  by (simp_all add: stored_bytes_def)

lemma em_keeps_refl [simp]: "em_keeps L E s s"
  by (simp add: em_keeps_def)

lemma em_keeps_trans: "em_keeps L E s t \<Longrightarrow> em_keeps L E t u \<Longrightarrow> em_keeps L E s u"
  by (auto simp: em_keeps_def intro: subset_mset.order_trans)

lemma em_keepsD:
  assumes "em_keeps L E s s'"
  shows "em_inv L E s \<Longrightarrow> em_inv L E s'" and "index_exact L s \<Longrightarrow> index_exact L s'"
    and "owned L s' = owned L s" and "mset (contents L s') \<subseteq># mset (contents L s)"
  using assms by (simp_all add: em_keeps_def)

lemma em_keeps_reorder:
  assumes "mset (contents L (s\<lparr>lru := c\<rparr>)) = mset (contents L s)"
  shows "em_keeps L E s (s\<lparr>lru := c\<rparr>)"
proof -
  have "fst ` set (contents L (s\<lparr>lru := c\<rparr>)) = fst ` set (contents L s)"
    using assms by (metis set_mset_mset)
  moreover have "stored_bytes E (contents L (s\<lparr>lru := c\<rparr>)) = stored_bytes E (contents L s)"
    using assms by (rule stored_bytes_cong)
  ultimately show ?thesis
    using assms
    by (auto simp: em_keeps_def em_inv_def index_exact_def owned_def split: option.splits)
qed

lemma em_state_remove_simps [simp]:
  "lru (em_state_remove E k i r s) = lru s"
  "btree (em_state_remove E k i r s) = map_option (\<lambda>b. b - {k}) (btree s)"
  "sum_store_size (em_state_remove E k i r s) = sum_store_size s - entry_len E (data i)"
  "unref_calls (em_state_remove E k i r s) = unref_calls s @ [data i]"
  "lifetime_inserted_bytes (em_state_remove E k i r s) = lifetime_inserted_bytes s"
  "evicted_bytes (em_state_remove E k i r s) + replaced_bytes (em_state_remove E k i r s)
     = evicted_bytes s + replaced_bytes s + entry_len E (data i)"
  by (simp_all add: em_state_remove_def Let_def ac_simps)

lemma contents_remove [simp]:
  "contents L (em_state_remove E k i r s) = contents L s"
  by (simp add: contents_def)

lemma em_keeps_remove:
  assumes mem: "mset (contents L s) = add_mset (k, data i) (mset (contents L (s\<lparr>lru := c\<rparr>)))"
    and fresh: "k \<notin> fst ` set (contents L (s\<lparr>lru := c\<rparr>))"
  shows "em_keeps L E s (em_state_remove E k i r (s\<lparr>lru := c\<rparr>))"
proof -
  let ?s' = "em_state_remove E k i r (s\<lparr>lru := c\<rparr>)"
  have keys: "fst ` set (contents L s) = insert k (fst ` set (contents L (s\<lparr>lru := c\<rparr>)))"
    using arg_cong [OF mem, of "\<lambda>M. fst ` set_mset M"] by simp
  have bytes: "stored_bytes E (contents L s)
      = entry_len E (data i) + stored_bytes E (contents L (s\<lparr>lru := c\<rparr>))"
    by (simp add: stored_bytes_mset mem)
  have counters: "evicted_bytes ?s' + replaced_bytes ?s' = evicted_bytes s + replaced_bytes s + entry_len E (data i)"
    by simp
  have "em_inv L E ?s'" if "em_inv L E s"
    using that keys fresh bytes counters
    by (auto simp: em_inv_def algebra_simps split: option.splits)
  moreover have "index_exact L ?s'" if "index_exact L s"
    using that keys fresh by (auto simp: index_exact_def split: option.splits)
  moreover have "owned L ?s' = owned L s"
    by (simp add: owned_def mem)
  ultimately show ?thesis
    by (simp add: em_keeps_def mem)
qed


section \<open>The methods over any LRU cache\<close>

locale evicting_map = lru_cache L
  for L :: "('k, 'v eviction_item, 'c) lru_ops"
begin

lemma keeps_promote:
  assumes "lru_get L k (lru s) = (r, c)"
  shows "em_keeps L E s (s\<lparr>lru := c\<rparr>)"
proof (rule em_keeps_reorder)
  have "lru_iter L c = promote k (lru_iter L (lru s))"
    using get_iter [of k "lru s"] assms by simp
  then show "mset (contents L (s\<lparr>lru := c\<rparr>)) = mset (contents L s)"
    by (simp add: contents_def mset_promote [OF iter_distinct])
qed

lemma contents_write:
  assumes "map_of (lru_iter L c) k = Some e"
  shows "contents L (s\<lparr>lru := lru_write L k (e\<lparr>seconds_since_anchor := t\<rparr>) c\<rparr>) = contents L (s\<lparr>lru := c\<rparr>)"
  using assms iter_distinct [of c]
  by (auto simp: contents_def write_iter write_key_def dest: eq_key_imp_eq_value)

lemma keeps_write:
  assumes "map_of (lru_iter L c) k = Some e"
  shows "em_keeps L E (s\<lparr>lru := c\<rparr>) (s\<lparr>lru := lru_write L k (e\<lparr>seconds_since_anchor := t\<rparr>) c\<rparr>)"
  using em_keeps_reorder [where s = "s\<lparr>lru := c\<rparr>" and c = "lru_write L k (e\<lparr>seconds_since_anchor := t\<rparr>) c"]
    contents_write [OF assms] by simp

lemma keeps_out:
  assumes out: "mset (lru_iter L c) = add_mset (k, i) (mset (lru_iter L c'))"
  shows "em_keeps L E (s\<lparr>lru := c\<rparr>) (em_state_remove E k i r (s\<lparr>lru := c'\<rparr>))"
proof -
  have "mset (map fst (lru_iter L c)) = mset (map fst ((k, i) # lru_iter L c'))"
    by (simp add: out)
  then have "distinct (map fst ((k, i) # lru_iter L c'))"
    using iter_distinct [of c] by (rule iffD1 [OF mset_eq_imp_distinct_iff])
  then have "k \<notin> fst ` set (lru_iter L c')" by simp
  then have "k \<notin> fst ` set (contents L (s\<lparr>lru := c'\<rparr>))"
    by (force simp: contents_def)
  moreover have "mset (contents L (s\<lparr>lru := c\<rparr>)) = add_mset (k, data i) (mset (contents L (s\<lparr>lru := c'\<rparr>)))"
    by (simp add: contents_def out)
  ultimately show ?thesis
    using em_keeps_remove [of L "s\<lparr>lru := c\<rparr>" k i c' E r] by simp
qed

lemma keeps_pop:
  assumes "lru_pop L k c = (Some i, c')"
  shows "em_keeps L E (s\<lparr>lru := c\<rparr>) (em_state_remove E k i r (s\<lparr>lru := c'\<rparr>))"
proof (rule keeps_out)
  have "map_of (lru_iter L c) k = Some i" and "lru_iter L c' = drop_key k (lru_iter L c)"
    using pop_value [of k c] pop_iter [of k c] assms by simp_all
  then show "mset (lru_iter L c) = add_mset (k, i) (mset (lru_iter L c'))"
    using mset_drop_key [OF iter_distinct] by simp
qed

lemma keeps_pop_none:
  assumes "lru_pop L k c = (None, c')"
  shows "em_keeps L E (s\<lparr>lru := c\<rparr>) (s\<lparr>lru := c'\<rparr>)"
proof -
  have "lru_iter L c' = lru_iter L c"
    using pop_value [of k c] pop_iter [of k c] assms by simp
  then show ?thesis
    using em_keeps_reorder [where s = "s\<lparr>lru := c\<rparr>" and c = c' and L = L] by (simp add: contents_def)
qed

lemma keeps_pop_case:
  "em_keeps L E (s\<lparr>lru := c\<rparr>)
     (snd (case lru_pop L k c of
             (Some item, c') \<Rightarrow> (x, em_state_remove E k item False (s\<lparr>lru := c'\<rparr>))
           | (None, c') \<Rightarrow> (y, s\<lparr>lru := c'\<rparr>)))"
  using keeps_pop [of k c] keeps_pop_none [of k c]
  by (auto split: prod.split option.split)

subsection \<open>Eviction\<close>

lemma keeps_evict_loop: "em_keeps L E s (evict_loop L E cfg now mb fuel s)"
proof (induction fuel arbitrary: s)
  case 0
  then show ?case by simp
next
  case (Suc fuel)
  show ?case
  proof (cases "lru_peek_lru L (lru s)")
    case None
    then show ?thesis by simp
  next
    case (Some p)
    then obtain c where pop: "lru_pop_lru L (lru s) = (Some p, c)"
      and xs: "lru_iter L (lru s) = lru_iter L c @ [p]"
      using pop_lru_cases by blast
    have "em_keeps L E s (em_state_remove E (fst p) (snd p) False (s\<lparr>lru := c\<rparr>))"
      using keeps_out [of "lru s" "fst p" "snd p" c E s False] by (simp add: xs)
    from em_keeps_trans [OF this Suc.IH] Some pop show ?thesis
      by (auto split: prod.split)
  qed
qed

lemma keeps_evict_items: "em_keeps L E s (evict_items L E cfg now s)"
  by (auto simp: evict_items_def keeps_evict_loop split: option.split)

lemma evict_loop_spec:
  assumes "em_inv L E s" and "length (lru_iter L (lru s)) \<le> fuel"
  shows "\<exists>n \<le> length (lru_iter L (lru s)).
      lru_iter L (lru (evict_loop L E cfg now mb fuel s)) = take n (lru_iter L (lru s))
      \<and> (n = 0 \<or> \<not> should_evict cfg now n (snd (lru_iter L (lru s) ! (n - 1)))
                      (stored_bytes E (take n (contents L s))) mb)
      \<and> (\<forall>m. n < m \<and> m \<le> length (lru_iter L (lru s)) \<longrightarrow>
             should_evict cfg now m (snd (lru_iter L (lru s) ! (m - 1)))
               (stored_bytes E (take m (contents L s))) mb)"
    (is "\<exists>n\<le>?len s. ?P fuel s n")
  using assms
proof (induction fuel arbitrary: s)
  case 0
  then show ?case by simp
next
  case (Suc fuel)
  have len: "length (contents L s) = ?len s" for s by (simp add: contents_def)
  have sum: "sum_store_size s = stored_bytes E (take (?len s) (contents L s))"
    using Suc.prems by (simp add: em_inv_def len)
  show ?case
  proof (cases "lru_peek_lru L (lru s)")
    case None
    then have "lru_iter L (lru s) = []" by (simp add: peek_lru_iter split: if_splits)
    with None show ?thesis by (intro exI [of _ 0]) simp
  next
    case (Some p)
    then obtain c where pop: "lru_pop_lru L (lru s) = (Some p, c)"
      and xs: "lru_iter L (lru s) = lru_iter L c @ [p]"
      using pop_lru_cases by blast
    let ?s1 = "em_state_remove E (fst p) (snd p) False (s\<lparr>lru := c\<rparr>)"
    have conts: "contents L s = contents L ?s1 @ [(fst p, data (snd p))]"
      by (simp add: contents_def xs)
    show ?thesis
    proof (cases "should_evict cfg now (?len s) (snd p) (sum_store_size s) mb")
      case False
      with Some have "?P (Suc fuel) s (?len s)"
        using sum by (auto simp: len_iter xs split: prod.split)
      then show ?thesis by blast
    next
      case True
      have "em_keeps L E s ?s1"
        using keeps_out [of "lru s" "fst p" "snd p" c E s False] by (simp add: xs)
      then have "em_inv L E ?s1" and "?len ?s1 \<le> fuel"
        using Suc.prems by (auto simp: xs dest: em_keepsD)
      then obtain n where n: "n \<le> ?len ?s1" "?P fuel ?s1 n" using Suc.IH by blast
      have "evict_loop L E cfg now mb (Suc fuel) s = evict_loop L E cfg now mb fuel ?s1"
        using Some True pop by (auto simp: len_iter split: prod.split)
      moreover have "should_evict cfg now m (snd (lru_iter L (lru s) ! (m - 1)))
          (stored_bytes E (take m (contents L s))) mb" if "n < m" "m \<le> ?len s" for m
      proof (cases "m = ?len s")
        case True
        with \<open>should_evict cfg now (?len s) (snd p) (sum_store_size s) mb\<close> sum show ?thesis
          by (simp add: xs)
      next
        case False
        with that xs have "m \<le> ?len ?s1" by simp
        with n that show ?thesis by (auto simp: xs conts nth_append len)
      qed
      ultimately have "?P (Suc fuel) s n"
        using n by (auto simp: xs conts nth_append len simp del: evict_loop.simps)
      moreover have "n \<le> ?len s" using n by (simp add: xs)
      ultimately show ?thesis by blast
    qed
  qed
qed

subsection \<open>Lookups and removals\<close>

lemma get_entry:
  assumes "lru_get L k c = (Some e, c')"
  shows "map_of (lru_iter L c) k = Some e" and "map_of (lru_iter L c') k = Some e"
  using get_value [of k c] get_iter [of k c] assms by simp_all

lemma keeps_size_of_entry: "em_keeps L E s (snd (size_of_entry L E cfg now peek n k s))"
proof -
  obtain e c where ec: "(if peek then (lru_peek L k (lru s), lru s) else lru_get L k (lru s)) = (e, c)"
    by (cases "if peek then (lru_peek L k (lru s), lru s) else lru_get L k (lru s)")
  have found: "map_of (lru_iter L c) k = Some x" if "e = Some x" for x
    using ec that get_entry [of k "lru s" x c] by (auto simp: peek_value split: if_splits)
  have "em_keeps L E (s\<lparr>lru := c\<rparr>) (snd (size_of_entry L E cfg now peek n k s))"
    using found keeps_pop_case [where s = s and c = c and k = k]
    by (cases e) (auto simp: size_of_entry_def ec Let_def keeps_write)
  moreover have "em_keeps L E s (s\<lparr>lru := c\<rparr>)"
    using ec keeps_promote [of k s] by (auto split: if_splits)
  ultimately show ?thesis using em_keeps_trans by blast
qed

lemma keeps_sizes_for_keys_loop:
  "em_keeps L E s (snd (sizes_for_keys_loop L E cfg now peek n keys s))"
proof (induction keys arbitrary: s)
  case Nil
  then show ?case by simp
next
  case (Cons k keys)
  from em_keeps_trans [OF keeps_size_of_entry Cons.IH] show ?case
    by (simp add: split_beta Let_def)
qed

lemma keeps_sizes_for_keys: "em_keeps L E s (snd (sizes_for_keys L E cfg now keys peek s))"
  by (simp add: sizes_for_keys_def keeps_sizes_for_keys_loop)

lemma keeps_get: "em_keeps L E s (snd (em_get L E cfg now k s))"
proof -
  define s1 where "s1 = evict_items L E cfg now s"
  obtain e c where g: "lru_get L k (lru s1) = (e, c)" by (cases "lru_get L k (lru s1)")
  have "em_keeps L E (s1\<lparr>lru := c\<rparr>) (snd (em_get L E cfg now k s))"
    using g get_entry [of k "lru s1"] keeps_pop [of k c] keeps_pop_none [of k c] keeps_write [of c k]
    by (auto simp: em_get_def Let_def s1_def [symmetric] split: option.split prod.split)
  moreover have "em_keeps L E s s1" unfolding s1_def by (rule keeps_evict_items)
  ultimately show ?thesis using keeps_promote [OF g] em_keeps_trans by blast
qed

lemma keeps_inner_remove: "em_keeps L E s (snd (inner_remove L E cfg now k s))"
proof -
  define s1 where "s1 = evict_items L E cfg now s"
  have "em_keeps L E s s1" unfolding s1_def by (rule keeps_evict_items)
  moreover have "em_keeps L E s1 (snd (inner_remove L E cfg now k s))"
    using keeps_pop_case [where s = s1 and c = "lru s1" and k = k]
    by (simp add: inner_remove_def s1_def [symmetric])
  ultimately show ?thesis by (rule em_keeps_trans)
qed

lemma keeps_remove_if: "em_keeps L E s (snd (remove_if L E cfg now k P s))"
proof -
  obtain e c where g: "lru_get L k (lru s) = (e, c)" by (cases "lru_get L k (lru s)")
  have "em_keeps L E (s\<lparr>lru := c\<rparr>) (snd (remove_if L E cfg now k P s))"
    using g keeps_inner_remove by (cases e) (auto simp: remove_if_def)
  with keeps_promote [OF g] show ?thesis by (rule em_keeps_trans)
qed

subsection \<open>Insertions\<close>

definition insert_one :: "'v len_entry \<Rightarrow> 'k \<Rightarrow> 'v \<Rightarrow> i32 \<Rightarrow> ('k, 'v, 'c) em_state \<Rightarrow> ('k, 'v, 'c) em_state" where
  "insert_one E k v t s =
     (let s1 = snd (em_state_put L E k \<lparr>seconds_since_anchor = t, data = v\<rparr> s)
      in s1\<lparr>sum_store_size := sum_store_size s1 + entry_len E v,
            lifetime_inserted_bytes := lifetime_inserted_bytes s1 + entry_len E v\<rparr>)"

lemma insert_one_iter:
  "lru_iter L (lru (insert_one E k v t s))
     = (k, \<lparr>seconds_since_anchor = t, data = v\<rparr>) # drop_key k (lru_iter L (lru s))"
proof -
  obtain r c where p: "lru_put L k \<lparr>seconds_since_anchor = t, data = v\<rparr> (lru s) = (r, c)"
    by (cases "lru_put L k \<lparr>seconds_since_anchor = t, data = v\<rparr> (lru s)")
  then show ?thesis
    using put_iter [of k "\<lparr>seconds_since_anchor = t, data = v\<rparr>" "lru s"]
    by (cases r) (simp_all add: insert_one_def em_state_put_def Let_def)
qed

lemma contents_insert_one:
  "contents L (insert_one E k v t s) = (k, v) # drop_key k (contents L s)"
proof -
  have "map (\<lambda>p. (fst p, data (snd p))) (drop_key k xs) = drop_key k (map (\<lambda>p. (fst p, data (snd p))) xs)"
    for xs :: "('k \<times> 'v eviction_item) list"
    by (induction xs) (auto simp: drop_key_def)
  then show ?thesis by (simp add: contents_def insert_one_iter)
qed

lemma contents_distinct: "distinct (map fst (contents L s))"
  using iter_distinct [of "lru s"] by (simp add: contents_def comp_def)

lemma contents_lookup: "map_of (contents L s) k = map_option data (map_of (lru_iter L (lru s)) k)"
proof -
  have "map_of (map (\<lambda>p. (fst p, data (snd p))) xs) k = map_option data (map_of xs k)"
    for xs :: "('k \<times> 'v eviction_item) list"
    by (induction xs) auto
  then show ?thesis by (simp add: contents_def)
qed

lemma put_replaces:
  assumes "lru_put L k i (lru s) = (r, c)"
  shows "r = map_of (lru_iter L (lru s)) k"
  using put_value [of k i "lru s"] assms by simp

lemma insert_one_fresh:
  assumes "map_of (contents L s) k = None"
  shows "em_inv L E s \<Longrightarrow> em_inv L E (insert_one E k v t s)"
    and "index_exact L s \<Longrightarrow> index_exact L (insert_one E k v t s)"
    and "owned L (insert_one E k v t s) = add_mset v (owned L s)"
proof -
  let ?i = "\<lparr>seconds_since_anchor = t, data = v\<rparr>"
  obtain c where p: "lru_put L k ?i (lru s) = (None, c)"
    using put_replaces [of k ?i s] assms by (cases "lru_put L k ?i (lru s)") (auto simp: contents_lookup)
  note insert_one_def [simp] em_state_put_def [simp] Let_def [simp]
  show "em_inv L E s \<Longrightarrow> em_inv L E (insert_one E k v t s)"
    using contents_insert_one [of E k v t s] p assms
    by (auto simp: em_inv_def contents_def split: option.splits)
  show "index_exact L s \<Longrightarrow> index_exact L (insert_one E k v t s)"
    using contents_insert_one [of E k v t s] p assms
    by (auto simp: index_exact_def contents_def split: option.splits)
  show "owned L (insert_one E k v t s) = add_mset v (owned L s)"
    using contents_insert_one [of E k v t s] p assms
    by (simp add: owned_def contents_def)
qed

lemma insert_one_replace:
  assumes old: "map_of (contents L s) k = Some w"
  shows "em_inv L E s \<Longrightarrow> em_inv L E (insert_one E k v t s)"
    and "owned L (insert_one E k v t s) = add_mset v (owned L s)"
    and "btree (insert_one E k v t s) = map_option (\<lambda>b. b - {k}) (btree s)"
    and "fst (em_state_put L E k \<lparr>seconds_since_anchor = t, data = v\<rparr> s) = Some w"
proof -
  let ?i = "\<lparr>seconds_since_anchor = t, data = v\<rparr>" and ?s' = "insert_one E k v t s"
  obtain i c where p: "lru_put L k ?i (lru s) = (Some i, c)" and i: "data i = w"
    using put_replaces [of k ?i s] old by (cases "lru_put L k ?i (lru s)") (auto simp: contents_lookup)
  have s': "?s' = (let s1 = em_state_remove E k i True (s\<lparr>btree := map_option (insert k) (btree s), lru := c\<rparr>)
      in s1\<lparr>sum_store_size := sum_store_size s1 + entry_len E v,
            lifetime_inserted_bytes := lifetime_inserted_bytes s1 + entry_len E v\<rparr>)"
    by (simp add: insert_one_def em_state_put_def p Let_def)
  have conts: "mset (contents L s) = add_mset (k, w) (mset (drop_key k (contents L s)))"
    by (rule mset_drop_key [OF contents_distinct old])
  have bytes: "stored_bytes E (contents L s) = entry_len E w + stored_bytes E (drop_key k (contents L s))"
    using arg_cong [OF conts, of "\<lambda>M. \<Sum>p\<in>#M. entry_len E (snd p)"] by (simp add: stored_bytes_mset)
  show bt: "btree ?s' = map_option (\<lambda>b. b - {k}) (btree s)"
    by (cases "btree s") (auto simp: s' Let_def)
  have evicted: "evicted_bytes ?s' = evicted_bytes s" "replaced_bytes ?s' = replaced_bytes s + entry_len E w"
    "sum_store_size ?s' = sum_store_size s - entry_len E w + entry_len E v"
    "lifetime_inserted_bytes ?s' = lifetime_inserted_bytes s + entry_len E v"
    "unref_calls ?s' = unref_calls s @ [w]"
    by (simp_all add: s' Let_def em_state_remove_def i)
  show "em_inv L E ?s'" if "em_inv L E s"
    using that bytes
    by (cases "btree s") (auto simp: em_inv_def contents_insert_one evicted bt)
  show "owned L ?s' = add_mset v (owned L s)"
    by (simp add: owned_def contents_insert_one conts evicted)
  show "fst (em_state_put L E k ?i s) = Some w"
    by (simp add: em_state_put_def p i Let_def)
qed

lemma insert_one_effect:
  shows "em_inv L E s \<Longrightarrow> em_inv L E (insert_one E k v t s)"
    and "owned L (insert_one E k v t s) = add_mset v (owned L s)"
  by (cases "map_of (contents L s) k"; simp add: insert_one_fresh insert_one_replace)+

lemma inner_insert_many_Cons:
  "snd (inner_insert_many L E cfg now ((k, v) # kvs) t s)
     = snd (inner_insert_many L E cfg now kvs t (evict_items L E cfg now (insert_one E k v t s)))"
  by (simp add: insert_one_def split_beta Let_def)

lemma inner_insert_many_effect:
  shows "em_inv L E s \<Longrightarrow> em_inv L E (snd (inner_insert_many L E cfg now kvs t s))"
    and "owned L (snd (inner_insert_many L E cfg now kvs t s)) = mset (map snd kvs) + owned L s"
proof (induction kvs arbitrary: s)
  case Nil
  { case 1 then show ?case by simp }
  { case 2 then show ?case by simp }
next
  case (Cons kv kvs)
  obtain k v where kv: "kv = (k, v)" by (cases kv)
  note keeps = em_keepsD [OF keeps_evict_items]
  { case 1
    then show ?case
      unfolding kv inner_insert_many_Cons by (intro Cons.IH(1) keeps(1) insert_one_effect(1)) }
  { case 2
    then show ?case
      unfolding kv inner_insert_many_Cons Cons.IH(2) by (simp add: keeps(3) insert_one_effect(2)) }
qed

subsection \<open>Histories\<close>

lemma inv_new: "em_inv L E (em_state_new L)"
  by (simp add: em_inv_def em_state_new_def contents_def iter_unbounded)

lemma owned_new: "owned L (em_state_new L) = {#}"
  by (simp add: owned_def em_state_new_def contents_def iter_unbounded)

lemma keeps_enable_filtering: "em_keeps L E s (enable_filtering L s)"
  by (auto simp: em_keeps_def em_inv_def index_exact_def owned_def contents_def enable_filtering_def
      rebuild_btree_index_def image_image split: option.split)

lemma exec_effect:
  shows "em_inv L E s \<Longrightarrow> em_inv L E (em_exec L E cfg now op s)"
    and "owned L (em_exec L E cfg now op s) = mset (inserted_by op) + owned L s"
  by (cases op; simp add: em_insert_def insert_with_time_def insert_many_def em_remove_def split_beta
      inner_insert_many_effect em_keepsD [OF keeps_get] em_keepsD [OF keeps_sizes_for_keys]
      em_keepsD [OF keeps_inner_remove] em_keepsD [OF keeps_remove_if]
      em_keepsD [OF keeps_enable_filtering] del: inner_insert_many.simps)+

lemma run_effect:
  shows "em_inv L E s \<Longrightarrow> em_inv L E (em_run L E cfg ops s)"
    and "owned L (em_run L E cfg ops s) = mset (concat (map (inserted_by \<circ> snd) ops)) + owned L s"
proof (induction ops arbitrary: s)
  case Nil
  { case 1 then show ?case by simp }
  { case 2 then show ?case by simp }
next
  case (Cons op ops)
  obtain now o' where op: "op = (now, o')" by (cases op)
  { case 1 then show ?case by (simp add: op Cons.IH(1) exec_effect(1)) }
  { case 2 then show ?case by (simp add: op Cons.IH(2) exec_effect(2)) }
qed

subsection \<open>What a caller sees\<close>

lemma evict_items_take:
  assumes "em_inv L E s"
  shows "\<exists>n. contents L (evict_items L E cfg now s) = take n (contents L s)"
proof (cases "lru_peek_lru L (lru s)")
  case None
  then show ?thesis by (auto simp: evict_items_def intro: exI [of _ "length (contents L s)"])
next
  case (Some p)
  define mb where "mb = evict_threshold cfg now (lru_len L (lru s)) (snd p) (sum_store_size s)"
  obtain n where "lru_iter L (lru (evict_loop L E cfg now mb (lru_len L (lru s)) s))
      = take n (lru_iter L (lru s))"
    using evict_loop_spec [OF assms, of "lru_len L (lru s)" cfg now mb] by (auto simp: len_iter)
  then have "contents L (evict_items L E cfg now s) = take n (contents L s)"
    using Some by (simp add: evict_items_def contents_def take_map mb_def split_beta)
  then show ?thesis by blast
qed

lemma em_insert_state:
  "snd (em_insert L E cfg now k v s) = evict_items L E cfg now (insert_one E k v (ucast now) s)"
  by (simp add: em_insert_def insert_with_time_def insert_one_def split_beta Let_def)

lemma em_insert_result: "fst (em_insert L E cfg now k v s) = map_of (contents L s) k"
proof (cases "map_of (contents L s) k")
  case None
  let ?i = "\<lparr>seconds_since_anchor = ucast now, data = v\<rparr>"
  have "fst (lru_put L k ?i (lru s)) = None"
    using None put_value [of k ?i "lru s"] by (simp add: contents_lookup)
  with None show ?thesis
    by (simp add: em_insert_def insert_with_time_def em_state_put_def split_beta Let_def)
next
  case (Some w)
  then show ?thesis
    using insert_one_replace(4) [OF Some, of E "ucast now" v]
    by (simp add: em_insert_def insert_with_time_def split_beta Let_def)
qed

lemma evict_items_unlimited:
  assumes "max_bytes cfg = 0" and "max_seconds cfg = 0" and "max_count cfg = 0"
  shows "evict_items L E cfg now s = s"
proof -
  have "evict_loop L E cfg now 0 n s = s" for n
    using assms by (cases n) (auto simp: should_evict_def split: option.split prod.split)
  with assms show ?thesis
    by (auto simp: evict_items_def evict_threshold_def split: option.split)
qed

lemma em_get_touched:
  assumes "map_of (contents L (evict_items L E cfg now s)) k = Some v" and "entry_touch E v"
  shows "fst (em_get L E cfg now k s) = Some v"
proof -
  define s1 where "s1 = evict_items L E cfg now s"
  obtain r c where g: "lru_get L k (lru s1) = (r, c)" by (cases "lru_get L k (lru s1)")
  then have "r = map_of (lru_iter L (lru s1)) k" using get_value [of k "lru s1"] by simp
  with assms g show ?thesis
    by (auto simp: em_get_def s1_def [symmetric] contents_lookup)
qed

lemma evict_loop_limits:
  assumes "em_inv L E s" and "lru_peek_lru L (lru s) = Some p"
    and "s' = evict_loop L E cfg now mb (lru_len L (lru s)) s"
  shows "lru_iter L (lru s') = []
    \<or> \<not> should_evict cfg now (length (lru_iter L (lru s'))) (snd (last (lru_iter L (lru s'))))
          (sum_store_size s') mb"
proof -
  obtain n where n: "n \<le> length (lru_iter L (lru s))" "lru_iter L (lru s') = take n (lru_iter L (lru s))"
      "n = 0 \<or> \<not> should_evict cfg now n (snd (lru_iter L (lru s) ! (n - 1)))
                      (stored_bytes E (take n (contents L s))) mb"
    using evict_loop_spec [OF assms(1), of "lru_len L (lru s)" cfg now mb] assms(3)
    by (auto simp: len_iter)
  have "em_inv L E s'"
    using em_keepsD(1) [OF keeps_evict_loop assms(1)] assms(3) by simp
  then have "sum_store_size s' = stored_bytes E (take n (contents L s))"
    by (simp add: em_inv_def contents_def n take_map)
  with n show ?thesis
    by (cases n) (auto simp: last_conv_nth)
qed

end

interpretation ll_em: evicting_map "list_lru :: ('k, 'v eviction_item, ('k \<times> 'v eviction_item) list) lru_ops"
  by unfold_locales

section \<open>Properties\<close>

text \<open>Lengths are the values themselves, for the instances below.\<close>

definition nat_entry :: "nat len_entry" where
  "nat_entry = \<lparr>entry_len = of_nat, entry_touch = (\<lambda>_. True)\<rparr>"

definition limits :: "u64 \<Rightarrow> u64 \<Rightarrow> i32 \<Rightarrow> u64 \<Rightarrow> em_config" where
  "limits mb eb ms mc = \<lparr>max_bytes = mb, evict_bytes = eb, max_seconds = ms, max_count = mc\<rparr>"

text \<open>
  C6. Accounting. After any sequence of calls on a fresh map, \<open>sum_store_size\<close> is the sum of the
  lengths of the entries in the map, every byte ever inserted is still stored, evicted or replaced,
  and the filtering index holds no key that is not in the map, so \<open>range\<close> never unwraps a missing
  entry. All counters are u64 and the statement is the equality of the machine values.
\<close>

theorem evicting_map_accounting:
  assumes "lru_cache L" and "s = em_run L E cfg ops (em_state_new L)"
  shows "sum_store_size s = stored_bytes E (contents L s)
    \<and> lifetime_inserted_bytes s = sum_store_size s + evicted_bytes s + replaced_bytes s
    \<and> (case btree s of None \<Rightarrow> True | Some b \<Rightarrow> b \<subseteq> fst ` set (contents L s))"
proof -
  have em: "evicting_map L" using assms(1) by (rule evicting_map.intro)
  show ?thesis
    using evicting_map.run_effect(1) [OF em evicting_map.inv_new [OF em], of E cfg ops]
    by (simp only: em_inv_def assms(2))
qed

definition sample_ops :: "(u64 \<times> (nat, nat) em_op) list" where
  "sample_ops = [(0, Em_enable_filtering), (1, Em_insert 1 4), (2, Em_insert 2 3), (3, Em_get 1),
                 (4, Em_insert 3 5), (5, Em_remove 3)]"

theorem evicting_map_accounting_witness:
  "sum_store_size (em_run list_lru nat_entry (limits 10 0 0 0) sample_ops (em_state_new list_lru)) = 4
   \<and> lifetime_inserted_bytes (em_run list_lru nat_entry (limits 10 0 0 0) sample_ops (em_state_new list_lru))
     = 4 + 8 + 0"
proof -
  let ?s = "em_run list_lru nat_entry (limits 10 0 0 0) sample_ops (em_state_new list_lru)"
  have "sum_store_size ?s = 4" "evicted_bytes ?s = 8" "replaced_bytes ?s = 0" by code_simp+
  with evicting_map_accounting [OF ll.lru_cache_axioms, of ?s nat_entry "limits 10 0 0 0" sample_ops]
  show ?thesis by simp
qed

text \<open>
  C16. Ownership. After any sequence of calls on a fresh map, the values that were inserted are
  exactly the values still in the map together with the values \<open>unref\<close> was called on: no value is
  dropped without \<open>unref\<close>, none is unreferenced twice, and none that is unreferenced is still there.
\<close>

theorem evicting_map_unref_once:
  assumes "lru_cache L" and "s = em_run L E cfg ops (em_state_new L)"
  shows "mset (map snd (contents L s)) + mset (unref_calls s)
    = mset (concat (map (inserted_by \<circ> snd) ops))"
proof -
  have em: "evicting_map L" using assms(1) by (rule evicting_map.intro)
  show ?thesis
    using evicting_map.run_effect(2) [OF em, of E cfg ops "em_state_new L"]
      evicting_map.owned_new [OF em] assms(2)
    by (simp add: owned_def)
qed

theorem evicting_map_unref_once_witness:
  "unref_calls (em_run list_lru nat_entry (limits 10 0 0 0) sample_ops (em_state_new list_lru)) = [3, 5]
   \<and> mset (map snd (contents list_lru
        (em_run list_lru nat_entry (limits 10 0 0 0) sample_ops (em_state_new list_lru))))
     + {#3, 5#} = {#4, 3, 5#}"
proof -
  let ?s = "em_run list_lru nat_entry (limits 10 0 0 0) sample_ops (em_state_new list_lru)"
  have "unref_calls ?s = [3, 5]" by code_simp
  with evicting_map_unref_once [OF ll.lru_cache_axioms, of ?s nat_entry "limits 10 0 0 0" sample_ops]
  show ?thesis by (simp add: sample_ops_def)
qed

text \<open>
  C15. Eviction establishes the limits. Unless the low watermark \<open>max_bytes - evict_bytes\<close> is zero or
  negative, after \<open>evict_items\<close> the map is empty or it is below \<open>max_bytes\<close>, has at most \<open>max_count\<close>
  entries, and its least recently used entry is not older than \<open>max_seconds\<close>. What is left is the
  most recently used part of what was there.
\<close>

theorem evict_items_limits:
  assumes "lru_cache L" and "em_inv L E s" and "evict_bytes cfg < max_bytes cfg \<or> evict_bytes cfg = 0"
    and "s' = evict_items L E cfg now s"
  shows "(\<exists>n. contents L s' = take n (contents L s))
    \<and> (contents L s' = []
       \<or> (max_bytes cfg = 0 \<or> sum_store_size s' < max_bytes cfg)
         \<and> (max_count cfg = 0 \<or> of_nat (length (contents L s')) \<le> max_count cfg)
         \<and> (max_seconds cfg = 0 \<or> (ucast now :: i32) - max_seconds cfg
              \<le>s seconds_since_anchor (snd (last (lru_iter L (lru s'))))))"
proof -
  have em: "evicting_map L" using assms(1) by (rule evicting_map.intro)
  have empty: "contents L s' = [] \<longleftrightarrow> lru_iter L (lru s') = []" by (simp add: contents_def)
  show ?thesis
  proof (cases "lru_peek_lru L (lru s)")
    case None
    then show ?thesis
      using assms(4) lru_cache.peek_lru_iter [OF assms(1), of "lru s"] evicting_map.evict_items_take [OF em assms(2)]
      by (simp add: evict_items_def contents_def split: if_splits)
  next
    case (Some p)
    define mb where "mb = evict_threshold cfg now (lru_len L (lru s)) (snd p) (sum_store_size s)"
    have s': "s' = evict_loop L E cfg now mb (lru_len L (lru s)) s"
      using assms(4) Some by (simp add: evict_items_def mb_def split_beta)
    have mb: "mb \<le> max_bytes cfg" "mb = 0 \<longleftrightarrow> max_bytes cfg = 0"
      using assms(3) by (auto simp: mb_def evict_threshold_def word_sub_le)
    show ?thesis
      using evicting_map.evict_loop_limits [OF em assms(2) Some s'] mb
        evicting_map.evict_items_take [OF em assms(2), of cfg now] assms(4)
      by (auto simp: empty should_evict_def contents_def Let_def not_less word_sless_alt word_sle_eq)
  qed
qed

lemma em_inv_run:
  assumes "lru_cache L"
  shows "em_inv L E (em_run L E cfg ops (em_state_new L))"
  using evicting_map.run_effect(1) evicting_map.inv_new evicting_map.intro [OF assms] by blast

definition filled :: "(nat, nat, (nat \<times> nat eviction_item) list) em_state" where
  "filled = em_run list_lru nat_entry (limits 0 0 0 0)
     [(1, Em_insert 1 4), (2, Em_insert 2 3), (3, Em_insert 3 5)] (em_state_new list_lru)"

theorem evict_items_limits_witness:
  "contents list_lru (evict_items list_lru nat_entry (limits 9 2 0 0) 3 filled) = [(3, 5)]
   \<and> sum_store_size (evict_items list_lru nat_entry (limits 9 2 0 0) 3 filled) < 9"
proof -
  let ?s = "evict_items list_lru nat_entry (limits 9 2 0 0) 3 filled"
  have "em_inv list_lru nat_entry filled"
    unfolding filled_def by (rule em_inv_run [OF ll.lru_cache_axioms])
  moreover have "contents list_lru ?s = [(3, 5)]" by code_simp
  ultimately show ?thesis
    using evict_items_limits [OF ll.lru_cache_axioms, of nat_entry filled "limits 9 2 0 0" ?s 3]
    by (simp add: limits_def)
qed





text \<open>
  A watermark of zero turns size eviction off. When \<open>evict_bytes\<close> is at least \<open>max_bytes\<close> the
  threshold becomes 0, which \<open>should_evict\<close> reads as "no limit": with no limit on age or count,
  \<open>evict_items\<close> then removes nothing, however far the map is over \<open>max_bytes\<close>.
\<close>

theorem evict_items_watermark_off:
  assumes "max_bytes cfg \<le> evict_bytes cfg" and "max_bytes cfg \<noteq> 0"
    and "max_seconds cfg = 0" and "max_count cfg = 0"
    and "max_bytes cfg \<le> sum_store_size s"
  shows "evict_items L E cfg now s = s"
proof -
  have "evict_loop L E cfg now 0 n s = s" for n
    using assms by (cases n) (auto simp: should_evict_def split: option.split prod.split)
  moreover have "evict_bytes cfg \<noteq> 0" using assms by auto
  ultimately show ?thesis
    using assms by (auto simp: evict_items_def evict_threshold_def should_evict_def split: option.split)
qed

theorem evict_items_watermark_off_witness:
  "sum_store_size filled = 12 \<and> evict_items list_lru nat_entry (limits 5 5 0 0) 9 filled = filled"
proof -
  have "sum_store_size filled = 12" by code_simp
  then show ?thesis
    using evict_items_watermark_off [of "limits 5 5 0 0" filled list_lru nat_entry 9]
    by (simp add: limits_def)
qed

end
