(* ===== verification/Rust_Std.thy ===== *)
theory Rust_Std
  imports NL_Prelude "HOL-Library.List_Lexorder" "HOL-Library.Char_ord"
begin

text \<open>
  The parts of Rust's standard library on strings and integers that the repository uses: decimal
  printing and parsing, and \<open>str::split_once\<close>. A \<open>str\<close> is the list of its UTF-8 bytes, as a
  \<open>string\<close>; the order on it is the lexicographic one.
\<close>

section \<open>Decimal integers\<close>

definition digit_char :: "nat \<Rightarrow> char" where
  "digit_char d = char_of (48 + d)"

definition char_digit :: "char \<Rightarrow> nat option" where
  "char_digit c = (let n = (of_char c :: nat) in if 48 \<le> n \<and> n \<le> 57 then Some (n - 48) else None)"

fun nat_to_string :: "nat \<Rightarrow> string" where
  "nat_to_string n =
     (if n < 10 then [digit_char n] else nat_to_string (n div 10) @ [digit_char (n mod 10)])"

declare nat_to_string.simps [simp del]

fun parse_digits :: "nat \<Rightarrow> string \<Rightarrow> nat option" where
  "parse_digits acc [] = Some acc"
| "parse_digits acc (c # cs) =
     (case char_digit c of None \<Rightarrow> None | Some d \<Rightarrow> parse_digits (acc * 10 + d) cs)"

text \<open>\<open>str::parse\<close> on an unsigned type of the given size: an optional plus sign, at least one digit, no overflow.\<close>

definition parse_unsigned :: "nat \<Rightarrow> string \<Rightarrow> nat option" where
  "parse_unsigned bound s =
     (let ds = (case s of c # cs \<Rightarrow> if c = CHR ''+'' then cs else s | [] \<Rightarrow> [])
      in if ds = [] then None
         else (case parse_digits 0 ds of Some n \<Rightarrow> if n < bound then Some n else None | None \<Rightarrow> None))"

definition parse_u64 :: "string \<Rightarrow> u64 option" where
  "parse_u64 s = map_option of_nat (parse_unsigned (2 ^ 64) s)"

definition u64_to_string :: "u64 \<Rightarrow> string" where
  "u64_to_string w = nat_to_string (unat w)"

section \<open>Splitting\<close>

fun split_once :: "char \<Rightarrow> string \<Rightarrow> (string \<times> string) option" where
  "split_once sep [] = None"
| "split_once sep (c # cs) =
     (if c = sep then Some ([], cs)
      else (case split_once sep cs of None \<Rightarrow> None | Some (a, b) \<Rightarrow> Some (c # a, b)))"

section \<open>Laws\<close>

lemma char_digit_digit_char [simp]: "d < 10 \<Longrightarrow> char_digit (digit_char d) = Some d"
  by (simp add: char_digit_def digit_char_def Let_def)

lemma digit_char_neq_plus [simp]: "d < 10 \<Longrightarrow> digit_char d \<noteq> CHR ''+''"
proof
  assume "d < 10" and "digit_char d = CHR ''+''"
  then have "char_digit (CHR ''+'') = Some d" by (metis char_digit_digit_char)
  then show False by (simp add: char_digit_def)
qed

lemma parse_digits_append:
  "parse_digits acc (xs @ ys) = Option.bind (parse_digits acc xs) (\<lambda>n. parse_digits n ys)"
  by (induction acc xs rule: parse_digits.induct) (auto split: option.split)

lemma parse_digits_nat_to_string: "parse_digits 0 (nat_to_string n) = Some n"
proof (induction n rule: nat_to_string.induct)
  case (1 n)
  then show ?case
    by (subst nat_to_string.simps) (auto simp: parse_digits_append)
qed

lemma nat_to_string_Cons: "\<exists>d cs. nat_to_string n = digit_char d # cs \<and> d < 10"
proof (induction n rule: nat_to_string.induct)
  case (1 n)
  then show ?case by (subst (1) nat_to_string.simps) fastforce
qed

lemma parse_unsigned_nat_to_string:
  "parse_unsigned b (nat_to_string n) = (if n < b then Some n else None)"
  using nat_to_string_Cons [of n] parse_digits_nat_to_string [of n]
  by (auto simp: parse_unsigned_def Let_def)

lemma parse_u64_to_string [simp]: "parse_u64 (u64_to_string w) = Some w"
  using unsigned_less [of w, where ?'a = nat] by (simp add: parse_u64_def u64_to_string_def parse_unsigned_nat_to_string)

lemma nat_to_string_nonempty [simp]: "nat_to_string n \<noteq> []"
  using nat_to_string_Cons [of n] by auto

lemma digits_nat_to_string: "c \<in> set (nat_to_string n) \<Longrightarrow> char_digit c \<noteq> None"
proof (induction n rule: nat_to_string.induct)
  case (1 n)
  from "1.prems" show ?case
    by (subst (asm) nat_to_string.simps) (auto split: if_splits dest: "1.IH" [rotated])
qed

lemma split_once_fresh: "sep \<notin> set a \<Longrightarrow> split_once sep (a @ sep # b) = Some (a, b)"
  by (induction a) auto

lemma split_once_Some: "split_once sep s = Some (a, b) \<Longrightarrow> s = a @ sep # b \<and> sep \<notin> set a"
  by (induction s arbitrary: a) (auto split: if_splits option.splits)

lemma split_once_None: "split_once sep s = None \<longleftrightarrow> sep \<notin> set s"
  by (induction s) (auto split: option.split)

end
