(* ===== verification/Digest_Info.thy ===== *)
theory Digest_Info
  imports Rust_Std NL_Error
begin

text \<open>
  \<open>DigestInfo\<close> and \<open>PackedHash\<close> (nativelink-util/src/common.rs) and \<open>DigestHasherFunc\<close>
  (nativelink-util/src/digest_hasher.rs): the digests every store and scheduler key is made of, their
  order, their text form \<open>{hex}-{size}\<close> and their proto form. The \<open>hex\<close> crate is the pair of
  parameters \<open>enc\<close> and \<open>dec\<close>, for the 32-byte slices the code passes; what the crate documents is the
  locale \<open>hex_codec\<close>.
\<close>

section \<open>Data\<close>

datatype digest_info = DigestInfo (packed_hash: "u8 list") (size_bytes: u64)

record proto_digest =
  hash :: string
  proto_size_bytes :: u64

datatype digest_hasher_func = Sha256 | Blake3

definition i64_max :: u64 where
  "i64_max = 0x7fffffffffffffff"

section \<open>PackedHash and DigestInfo\<close>

definition from_hex :: "(string \<Rightarrow> u8 list option) \<Rightarrow> string \<Rightarrow> u8 list result" where
  "from_hex dec h =
     (case dec h of Some bytes \<Rightarrow> Ok bytes | None \<Rightarrow> Err (make_input_err ''Invalid sha256 hash''))"

definition try_into_u64 :: "int \<Rightarrow> u64 option" where
  "try_into_u64 n = (if 0 \<le> n \<and> n < 2 ^ 64 then Some (word_of_int n) else None)"

definition digest_try_new ::
  "(string \<Rightarrow> u8 list option) \<Rightarrow> string \<Rightarrow> int \<Rightarrow> digest_info result" where
  "digest_try_new dec h n =
     try_bind (err_tip ''Invalid sha256 hash'' (from_hex dec h)) (\<lambda>packed.
       case try_into_u64 n of
         None \<Rightarrow> Err (make_input_err ''Could not convert into u64'')
       | Some sz \<Rightarrow>
           if i64_max < sz then Err (make_input_err ''Size bytes is too large'')
           else Ok (DigestInfo packed sz))"

definition zero_digest :: digest_info where
  "zero_digest = DigestInfo (replicate 32 0) 0"

fun count_digits :: "nat \<Rightarrow> nat" where
  "count_digits n = (if n = 0 then 0 else Suc (count_digits (n div 10)))"

declare count_digits.simps [simp del]

text \<open>\<open>Cursor<&mut [u8]>\<close>: writing past the end of the buffer is an error.\<close>

definition cursor_write :: "string \<Rightarrow> nat \<times> string \<Rightarrow> (nat \<times> string) option" where
  "cursor_write bytes c =
     (case c of (pos, buf) \<Rightarrow>
        if pos + length bytes \<le> length buf
        then Some (pos + length bytes, take pos buf @ bytes @ drop (pos + length bytes) buf)
        else None)"

definition stringifier_buf :: string where
  "stringifier_buf = replicate (32 * 2 + count_digits (2 ^ 64 - 1) + 1) CHR ''-''"

definition digest_as_str :: "(u8 list \<Rightarrow> string) \<Rightarrow> digest_info \<Rightarrow> string result" where
  "digest_as_str enc d =
     (case cursor_write (enc (packed_hash d)) (0, stringifier_buf) of
        None \<Rightarrow> Err (error_append (make_err (code_of_io_kind Io_WriteZero) ''failed to write whole buffer'') ''Could not write hex to buffer'')
      | Some (pos, buf) \<Rightarrow>
          (case cursor_write (u64_to_string (size_bytes d)) (pos + 1, buf) of
             None \<Rightarrow> Err (error_append (make_err (code_of_io_kind Io_WriteZero) ''failed to write whole buffer'') ''Could not write size_bytes to buffer'')
           | Some (len, buf') \<Rightarrow> Ok (take len buf')))"

text \<open>\<open>visit_str\<close> of the deserializer; serde's custom error keeps only the text.\<close>

definition digest_visit_str :: "(string \<Rightarrow> u8 list option) \<Rightarrow> string \<Rightarrow> string + digest_info" where
  "digest_visit_str dec s =
     (case split_once (CHR ''-'') s of
        None \<Rightarrow> Inl ''Invalid DigestInfo format, expected separator''
      | Some (h, sz) \<Rightarrow>
          (case parse_u64 sz of
             None \<Rightarrow> Inl ''Could not parse size_bytes''
           | Some n \<Rightarrow>
               (case digest_try_new dec h (uint n) of
                  Inl e \<Rightarrow> Inl ''Could not create DigestInfo''
                | Inr d \<Rightarrow> Inr d)))"

definition digest_from_proto ::
  "(string \<Rightarrow> u8 list option) \<Rightarrow> proto_digest \<Rightarrow> digest_info result" where
  "digest_from_proto dec p =
     try_bind (err_tip ''Invalid sha256 hash'' (from_hex dec (hash p))) (\<lambda>packed.
       case try_into_u64 (sint (proto_size_bytes p)) of
         None \<Rightarrow> Err (make_input_err ''Could not convert into u64'')
       | Some sz \<Rightarrow> Ok (DigestInfo packed sz))"

definition digest_to_proto :: "(u8 list \<Rightarrow> string) \<Rightarrow> digest_info \<Rightarrow> proto_digest" where
  "digest_to_proto enc d =
     \<lparr>hash = enc (packed_hash d),
      proto_size_bytes = (if size_bytes d \<le> i64_max then size_bytes d else - 255)\<rparr>"

text \<open>\<open>Ord\<close> for \<open>DigestInfo\<close>: the packed hash, then the size.\<close>

instantiation digest_info :: linorder
begin

definition less_eq_digest_info :: "digest_info \<Rightarrow> digest_info \<Rightarrow> bool" where
  "less_eq_digest_info a b \<longleftrightarrow>
     packed_hash a < packed_hash b \<or> packed_hash a = packed_hash b \<and> size_bytes a \<le> size_bytes b"

definition less_digest_info :: "digest_info \<Rightarrow> digest_info \<Rightarrow> bool" where
  "less_digest_info a b \<longleftrightarrow>
     packed_hash a < packed_hash b \<or> packed_hash a = packed_hash b \<and> size_bytes a < size_bytes b"

instance
  by standard (auto simp: less_eq_digest_info_def less_digest_info_def digest_info.expand)

end

section \<open>DigestHasherFunc\<close>

definition hasher_func_to_proto :: "digest_hasher_func \<Rightarrow> i32" where
  "hasher_func_to_proto f = (case f of Sha256 \<Rightarrow> 1 | Blake3 \<Rightarrow> 9)"

definition hasher_func_display :: "digest_hasher_func \<Rightarrow> string" where
  "hasher_func_display f = (case f of Sha256 \<Rightarrow> ''SHA256'' | Blake3 \<Rightarrow> ''BLAKE3'')"

definition hasher_func_of_i32 :: "digest_hasher_func \<Rightarrow> i32 \<Rightarrow> digest_hasher_func result" where
  "hasher_func_of_i32 default_func v =
     (if v = 0 then Ok default_func
      else if v = 1 then Ok Sha256
      else if v = 9 then Ok Blake3
      else Err (make_input_err ''Unknown or unsupported digest function for int conversion''))"

lemma hasher_func_of_to_proto: "hasher_func_of_i32 d (hasher_func_to_proto f) = Ok f"
  by (cases f) (simp_all add: hasher_func_of_i32_def hasher_func_to_proto_def)

section \<open>The size of the buffer\<close>

lemma length_nat_to_string: "0 < n \<Longrightarrow> length (nat_to_string n) = count_digits n"
proof (induction n rule: nat_to_string.induct)
  case (1 n)
  then show ?case
    by (subst nat_to_string.simps, subst count_digits.simps)
      (auto simp: count_digits.simps [of "n div 10"] count_digits.simps [of 0])
qed

lemma count_digits_mono: "m \<le> n \<Longrightarrow> count_digits m \<le> count_digits n"
proof (induction m arbitrary: n rule: count_digits.induct)
  case (1 m)
  then show ?case
    by (subst (1 2) count_digits.simps) (auto simp: div_le_mono)
qed

lemma count_digits_u64_max: "count_digits (2 ^ 64 - 1) = 20"
  by (simp add: count_digits.simps)

lemma length_u64_to_string: "length (u64_to_string w) \<le> 20"
proof (cases "unat w = 0")
  case True
  then show ?thesis by (simp add: u64_to_string_def nat_to_string.simps)
next
  case False
  moreover have "unat w \<le> 2 ^ 64 - 1"
    using unsigned_less [of w, where ?'a = nat] by simp
  ultimately show ?thesis
    using count_digits_mono [of "unat w" "2 ^ 64 - 1"] count_digits_u64_max
    by (simp add: u64_to_string_def length_nat_to_string)
qed

lemma uint_lt2p_64: "uint (w :: u64) < 18446744073709551616"
  using unsigned_less [of w, where ?'a = int] by simp

section \<open>The hex crate\<close>

locale hex_codec =
  fixes enc :: "u8 list \<Rightarrow> string" and dec :: "string \<Rightarrow> u8 list option"
  assumes dec_enc: "length h = 32 \<Longrightarrow> dec (enc h) = Some h"
    and enc_length: "length h = 32 \<Longrightarrow> length (enc h) = 64"
    and enc_no_hyphen: "CHR ''-'' \<notin> set (enc h)"
    and dec_length: "dec s = Some h \<Longrightarrow> length h = 32"
begin

lemma enc_inj: "length h = 32 \<Longrightarrow> length h' = 32 \<Longrightarrow> enc h = enc h' \<Longrightarrow> h = h'"
  by (metis dec_enc option.inject)

lemma try_new_wf: "digest_try_new dec s n = Ok d \<Longrightarrow> length (packed_hash d) = 32 \<and> size_bytes d \<le> i64_max"
  by (auto simp: digest_try_new_def try_bind_Ok_iff from_hex_def not_less
      dest: dec_length split: option.splits if_splits)

lemma from_to_proto:
  assumes "length (packed_hash d) = 32"
  shows "digest_from_proto dec (digest_to_proto enc d)
    = (if size_bytes d \<le> i64_max then Ok d else Err (make_input_err ''Could not convert into u64''))"
proof (cases "size_bytes d \<le> i64_max")
  case True
  then have "uint (size_bytes d) < 2 ^ 63" by (simp add: i64_max_def word_le_def)
  moreover have "- (2 ^ 63) \<le> uint (size_bytes d)" by (rule order_trans [of _ 0]) simp_all
  ultimately have "sint (size_bytes d) = uint (size_bytes d)"
    using signed_take_bit_int_eq_self [of 63 "uint (size_bytes d)"] by (simp add: sint_uint)
  with True assms show ?thesis
    by (cases d) (simp add: digest_from_proto_def digest_to_proto_def from_hex_def dec_enc try_into_u64_def
        uint_lt2p_64)
next
  case False
  with assms show ?thesis
    by (simp add: digest_from_proto_def digest_to_proto_def from_hex_def dec_enc try_into_u64_def)
qed

lemma as_str_eq:
  assumes "length (packed_hash d) = 32"
  shows "digest_as_str enc d = Ok (enc (packed_hash d) @ CHR ''-'' # u64_to_string (size_bytes d))"
proof -
  let ?h = "enc (packed_hash d)" and ?n = "u64_to_string (size_bytes d)"
  have buf: "stringifier_buf = replicate 85 CHR ''-''"
    unfolding stringifier_buf_def count_digits_u64_max by simp
  have h: "length ?h = 64" using assms by (rule enc_length)
  have n: "length ?n \<le> 20" by (rule length_u64_to_string)
  have "cursor_write ?h (0, stringifier_buf) = Some (64, ?h @ replicate 21 CHR ''-'')"
    by (simp add: cursor_write_def buf h)
  moreover have "cursor_write ?n (65, ?h @ replicate 21 CHR ''-'')
      = Some (65 + length ?n, (?h @ [CHR ''-'']) @ ?n @ replicate (20 - length ?n) CHR ''-'')"
    using n by (simp add: cursor_write_def h take_Cons' drop_Cons')
  ultimately show ?thesis
    by (simp add: digest_as_str_def h)
qed

lemma visit_as_str:
  assumes "length (packed_hash d) = 32" and "size_bytes d \<le> i64_max"
  shows "digest_visit_str dec (enc (packed_hash d) @ CHR ''-'' # u64_to_string (size_bytes d)) = Inr d"
  using assms
  by (cases d) (simp add: digest_visit_str_def split_once_fresh enc_no_hyphen digest_try_new_def
      from_hex_def dec_enc try_into_u64_def uint_lt2p_64 not_less)

end

section \<open>A reference instance of the codec\<close>

definition hex_char :: "nat \<Rightarrow> char" where
  "hex_char n = (if n < 10 then char_of (48 + n) else char_of (87 + n))"

definition hex_value :: "char \<Rightarrow> nat option" where
  "hex_value c =
     (let n = (of_char c :: nat)
      in if 48 \<le> n \<and> n \<le> 57 then Some (n - 48)
         else if 97 \<le> n \<and> n \<le> 102 then Some (n - 87)
         else if 65 \<le> n \<and> n \<le> 70 then Some (n - 55)
         else None)"

definition hex_enc :: "u8 list \<Rightarrow> string" where
  "hex_enc bs = concat (map (\<lambda>b. [hex_char (unat b div 16), hex_char (unat b mod 16)]) bs)"

fun hex_pairs :: "string \<Rightarrow> u8 list option" where
  "hex_pairs [] = Some []"
| "hex_pairs [c] = None"
| "hex_pairs (c # d # cs) =
     (case (hex_value c, hex_value d, hex_pairs cs) of
        (Some a, Some b, Some bs) \<Rightarrow> Some (of_nat (a * 16 + b) # bs)
      | _ \<Rightarrow> None)"

definition hex_dec :: "string \<Rightarrow> u8 list option" where
  "hex_dec s = (case hex_pairs s of Some bs \<Rightarrow> if length bs = 32 then Some bs else None | None \<Rightarrow> None)"

lemma hex_value_char: "n < 16 \<Longrightarrow> hex_value (hex_char n) = Some n"
  by (simp add: hex_value_def hex_char_def Let_def)

lemma hex_char_no_hyphen: "n < 16 \<Longrightarrow> hex_char n \<noteq> CHR ''-''"
proof
  assume "n < 16" and "hex_char n = CHR ''-''"
  then have "hex_value (CHR ''-'') = Some n" by (metis hex_value_char)
  then show False by (simp add: hex_value_def)
qed

lemma unat_u8_div: "unat (b :: u8) div 16 < 16"
  using unsigned_less [of b, where ?'a = nat] by simp

lemma hex_pairs_enc: "hex_pairs (hex_enc bs) = Some bs"
proof (induction bs)
  case Nil
  then show ?case by (simp add: hex_enc_def)
next
  case (Cons b bs)
  have "(word_of_nat (unat b div 16 * 16 + unat b mod 16) :: u8) = b" by simp
  with Cons show ?case
    by (simp add: hex_enc_def hex_value_char unat_u8_div del: of_nat_add of_nat_mult)
qed

interpretation hx: hex_codec hex_enc hex_dec
proof
  fix h :: "u8 list" and s
  show "length h = 32 \<Longrightarrow> hex_dec (hex_enc h) = Some h"
    by (simp add: hex_dec_def hex_pairs_enc)
  have len: "length (hex_enc h) = 2 * length h"
    by (induction h) (simp_all add: hex_enc_def)
  then show "length h = 32 \<Longrightarrow> length (hex_enc h) = 64" by simp
  show "CHR ''-'' \<notin> set (hex_enc h)"
    by (auto simp: hex_enc_def hex_char_no_hyphen [symmetric] unat_u8_div)
  show "hex_dec s = Some h \<Longrightarrow> length h = 32"
    by (auto simp: hex_dec_def split: option.splits if_splits)
qed

section \<open>Properties\<close>

text \<open>
  C27. Digests survive serialization. The stack-allocated printer never runs out of its buffer and
  prints the hash in hex, a hyphen and the decimal size; reading that text back gives the digest
  exactly when its size fits an i64, and so does the conversion to the proto message and back.
\<close>

theorem digest_info_roundtrip:
  assumes "hex_codec enc dec" and "length (packed_hash d) = 32"
  shows "\<exists>s. digest_as_str enc d = Ok s
    \<and> s = enc (packed_hash d) @ CHR ''-'' # u64_to_string (size_bytes d)
    \<and> (digest_visit_str dec s = Inr d \<longleftrightarrow> size_bytes d \<le> i64_max)
    \<and> (digest_from_proto dec (digest_to_proto enc d) = Ok d \<longleftrightarrow> size_bytes d \<le> i64_max)"
proof -
  let ?s = "enc (packed_hash d) @ CHR ''-'' # u64_to_string (size_bytes d)"
  have "size_bytes d \<le> i64_max" if "digest_visit_str dec ?s = Inr d"
    using that hex_codec.try_new_wf [OF assms(1)]
    by (auto simp: digest_visit_str_def split: option.splits prod.splits sum.splits)
  moreover note hex_codec.as_str_eq [OF assms] hex_codec.visit_as_str [OF assms]
    hex_codec.from_to_proto [OF assms]
  ultimately show ?thesis by auto
qed

theorem digest_info_roundtrip_witness:
  "digest_as_str hex_enc (DigestInfo (replicate 32 171) 1024)
     = Ok (concat (replicate 32 ''ab'') @ ''-1024'')
   \<and> digest_visit_str hex_dec (concat (replicate 32 ''ab'') @ ''-1024'')
     = Inr (DigestInfo (replicate 32 171) 1024)"
proof -
  let ?d = "DigestInfo (replicate 32 171) 1024"
  have "hex_enc (packed_hash ?d) @ CHR ''-'' # u64_to_string (size_bytes ?d)
      = concat (replicate 32 ''ab'') @ ''-1024''" by code_simp
  moreover have "size_bytes ?d \<le> i64_max" by (simp add: i64_max_def)
  ultimately show ?thesis
    using digest_info_roundtrip [OF hx.hex_codec_axioms, of ?d] by auto
qed

end
