(* ===== verification/Action_Messages.thy ===== *)
theory Action_Messages
  imports Digest_Info
begin

text \<open>
  The messages the scheduler, the workers and the clients exchange about actions
  (nativelink-util/src/action_messages.rs), with their conversions to and from the protocol buffers
  of the remote execution API. A \<open>SystemTime\<close> is the number of nanoseconds since the epoch and a
  uuid its 128-bit value. The conversions the repository takes from other crates are the fields of
  \<open>ext\<close>: hex digits, uuids as text, and the \<open>prost\<close> timestamps, durations and message encoding;
  what these crates document about round trips is the locale
  \<open>ext_laws\<close>. The wire format of an encoded message is the type variable \<open>'w\<close>. A conversion that panics
  on some arguments returns \<open>None\<close> there. Fields the code neither reads nor sets
  (\<open>node_properties\<close>, stream names, auxiliary metadata) are left out.
\<close>

section \<open>Identifiers\<close>

type_synonym uuid = "128 word"
type_synonym system_time = int
type_synonym bytes = "u8 list"

datatype operation_id = Op_Uuid uuid | Op_String string

datatype worker_id = WorkerId uuid

record action_unique_key =
  key_instance_name :: string
  key_digest_function :: digest_hasher_func
  key_digest :: digest_info

datatype action_unique_qualifier = Cachable action_unique_key | Uncachable action_unique_key

record action_info =
  command_digest :: digest_info
  input_root_digest :: digest_info
  timeout :: nat
  ai_platform_properties :: "(string \<times> string) list"
  priority :: i32
  load_timestamp :: system_time
  insert_timestamp :: system_time
  unique_qualifier :: action_unique_qualifier

text \<open>The derived \<open>Ord\<close> of \<open>OperationId\<close>: uuids before strings.\<close>

instantiation operation_id :: linorder
begin

fun less_eq_operation_id :: "operation_id \<Rightarrow> operation_id \<Rightarrow> bool" where
  "less_eq_operation_id (Op_Uuid a) (Op_Uuid b) = (a \<le> b)"
| "less_eq_operation_id (Op_Uuid a) (Op_String b) = True"
| "less_eq_operation_id (Op_String a) (Op_Uuid b) = False"
| "less_eq_operation_id (Op_String a) (Op_String b) = (a \<le> b)"

definition less_operation_id :: "operation_id \<Rightarrow> operation_id \<Rightarrow> bool" where
  "less_operation_id a b \<longleftrightarrow> a \<le> b \<and> \<not> b \<le> a"

instance
proof
  fix x y z :: operation_id
  show "x < y \<longleftrightarrow> x \<le> y \<and> \<not> y \<le> x" by (rule less_operation_id_def)
  show "x \<le> x" by (cases x) auto
  show "x \<le> y \<Longrightarrow> y \<le> z \<Longrightarrow> x \<le> z" by (cases x; cases y; cases z) auto
  show "x \<le> y \<Longrightarrow> y \<le> x \<Longrightarrow> x = y" by (cases x; cases y) auto
  show "x \<le> y \<or> y \<le> x" by (cases x; cases y) auto
qed

end

section \<open>Protocol buffers\<close>

record p_timestamp =
  ts_seconds :: int
  ts_nanos :: int

record p_duration =
  dur_seconds :: int
  dur_nanos :: int

record p_output_file =
  of_path :: string
  of_digest :: "proto_digest option"
  of_is_executable :: bool
  of_contents :: bytes

record p_file_node =
  fn_name :: string
  fn_digest :: "proto_digest option"
  fn_is_executable :: bool

record p_symlink_node =
  sn_name :: string
  sn_target :: string

record p_output_symlink =
  os_path :: string
  os_target :: string

record p_output_directory =
  od_path :: string
  od_tree_digest :: "proto_digest option"
  od_is_topologically_sorted :: bool

record p_executed_action_metadata =
  em_worker :: string
  em_queued :: "p_timestamp option"
  em_worker_start :: "p_timestamp option"
  em_worker_completed :: "p_timestamp option"
  em_input_fetch_start :: "p_timestamp option"
  em_input_fetch_completed :: "p_timestamp option"
  em_execution_start :: "p_timestamp option"
  em_execution_completed :: "p_timestamp option"
  em_output_upload_start :: "p_timestamp option"
  em_output_upload_completed :: "p_timestamp option"
  em_virtual_execution_duration :: "p_duration option"

record p_action_result =
  ar_output_files :: "p_output_file list"
  ar_output_file_symlinks :: "p_output_symlink list"
  ar_output_symlinks :: "p_output_symlink list"
  ar_output_directories :: "p_output_directory list"
  ar_output_directory_symlinks :: "p_output_symlink list"
  ar_exit_code :: i32
  ar_stdout_raw :: bytes
  ar_stdout_digest :: "proto_digest option"
  ar_stderr_raw :: bytes
  ar_stderr_digest :: "proto_digest option"
  ar_execution_metadata :: "p_executed_action_metadata option"

record p_log_file =
  lf_digest :: "proto_digest option"
  lf_human_readable :: bool

record p_execute_response =
  er_result :: "p_action_result option"
  er_cached_result :: bool
  er_status :: "rpc_status option"
  er_server_logs :: "(string \<times> p_log_file) list"
  er_message :: string

record p_execute_request =
  rq_instance_name :: string
  rq_skip_cache_lookup :: bool
  rq_action_digest :: "proto_digest option"
  rq_priority :: "i32 option"
  rq_digest_function :: i32

record p_action =
  ac_command_digest :: "proto_digest option"
  ac_input_root_digest :: "proto_digest option"
  ac_timeout :: "p_duration option"
  ac_platform :: "(string \<times> string) list option"

record 'w p_any =
  type_url :: string
  any_value :: 'w

datatype 'w long_running_result = LR_Error rpc_status | LR_Response "'w p_any"

record p_operation_metadata =
  md_stage :: i32
  md_action_digest :: "proto_digest option"

record 'w p_operation =
  opn_name :: string
  opn_metadata :: "'w p_any option"
  opn_done :: bool
  opn_result :: "'w long_running_result option"

section \<open>Conversions of other crates\<close>

record 'w ext =
  hex_encode :: "u8 list \<Rightarrow> string"
  hex_decode :: "string \<Rightarrow> u8 list option"
  uuid_to_string :: "uuid \<Rightarrow> string"
  uuid_parse :: "string \<Rightarrow> uuid option"
  timestamp_of_time :: "system_time \<Rightarrow> p_timestamp"
  time_of_timestamp :: "p_timestamp \<Rightarrow> system_time result"
  duration_of_nanos :: "nat \<Rightarrow> p_duration option"
  nanos_of_duration :: "p_duration \<Rightarrow> nat option"
  encode_execute_response :: "p_execute_response \<Rightarrow> 'w"
  decode_execute_response :: "'w \<Rightarrow> p_execute_response result"
  encode_operation_metadata :: "p_operation_metadata \<Rightarrow> 'w"
  decode_operation_metadata :: "'w \<Rightarrow> p_operation_metadata result"

section \<open>Identifiers as text\<close>

definition operation_id_into_string :: "'w ext \<Rightarrow> operation_id \<Rightarrow> string" where
  "operation_id_into_string X oid =
     (case oid of Op_Uuid u \<Rightarrow> uuid_to_string X u | Op_String name \<Rightarrow> name)"

definition operation_id_of_string :: "'w ext \<Rightarrow> string \<Rightarrow> operation_id" where
  "operation_id_of_string X s =
     (case uuid_parse X s of Some u \<Rightarrow> Op_Uuid u | None \<Rightarrow> Op_String s)"

definition worker_id_to_string :: "'w ext \<Rightarrow> worker_id \<Rightarrow> string" where
  "worker_id_to_string X w = (case w of WorkerId u \<Rightarrow> uuid_to_string X u)"

definition worker_id_of_string :: "'w ext \<Rightarrow> string \<Rightarrow> worker_id result" where
  "worker_id_of_string X s =
     (case uuid_parse X s of
        None \<Rightarrow> Err (make_input_err ''Failed to convert string to WorkerId'')
      | Some u \<Rightarrow> Ok (WorkerId u))"

definition qualifier_key :: "action_unique_qualifier \<Rightarrow> action_unique_key" where
  "qualifier_key q = (case q of Cachable k \<Rightarrow> k | Uncachable k \<Rightarrow> k)"

definition instance_name :: "action_info \<Rightarrow> string" where
  "instance_name a = key_instance_name (qualifier_key (unique_qualifier a))"

definition action_digest_of :: "action_info \<Rightarrow> digest_info" where
  "action_digest_of a = key_digest (qualifier_key (unique_qualifier a))"

definition qualifier_display :: "'w ext \<Rightarrow> action_unique_qualifier \<Rightarrow> string" where
  "qualifier_display X q =
     (let k = qualifier_key q
      in key_instance_name k @ ''_'' @ hasher_func_display (key_digest_function k) @ ''_''
         @ hex_encode X (packed_hash (key_digest k)) @ ''_'' @ u64_to_string (size_bytes (key_digest k))
         @ ''_'' @ (case q of Cachable _ \<Rightarrow> ''c'' | Uncachable _ \<Rightarrow> ''u''))"

section \<open>ActionInfo and ExecuteRequest\<close>

text \<open>\<open>HashMap::insert\<close> for each property of the platform message.\<close>

definition properties_of_platform :: "(string \<times> string) list \<Rightarrow> (string \<times> string) list" where
  "properties_of_platform ps = foldl (\<lambda>m p. AList.update (fst p) (snd p) m) [] ps"

definition try_from_action_and_execute_request ::
  "'w ext \<Rightarrow> digest_hasher_func \<Rightarrow> p_execute_request \<Rightarrow> p_action \<Rightarrow> system_time \<Rightarrow> system_time
     \<Rightarrow> action_info result" where
  "try_from_action_and_execute_request X default_func rq ac load_ts queued_ts =
     try_bind (err_tip ''Could not find digest_function in try_from_action_and_execute_request''
                 (hasher_func_of_i32 default_func (rq_digest_function rq))) (\<lambda>func.
     try_bind (opt_err_tip ''Expected action_digest to exist on ExecuteRequest'' (rq_action_digest rq)) (\<lambda>pd.
     try_bind (digest_from_proto (hex_decode X) pd) (\<lambda>digest.
     let unique_key = \<lparr>key_instance_name = rq_instance_name rq, key_digest_function = func,
                       key_digest = digest\<rparr>;
         qualifier = (if rq_skip_cache_lookup rq then Uncachable unique_key else Cachable unique_key);
         props = properties_of_platform (case ac_platform ac of Some ps \<Rightarrow> ps | None \<Rightarrow> [])
     in try_bind (opt_err_tip ''Expected command_digest to exist on Action'' (ac_command_digest ac)) (\<lambda>pc.
        try_bind (digest_from_proto (hex_decode X) pc) (\<lambda>cmd.
        try_bind (opt_err_tip ''Expected input_root_digest to exist on Action'' (ac_input_root_digest ac)) (\<lambda>pr.
        try_bind (digest_from_proto (hex_decode X) pr) (\<lambda>root.
        case nanos_of_duration X (case ac_timeout ac of Some d \<Rightarrow> d | None \<Rightarrow> \<lparr>dur_seconds = 0, dur_nanos = 0\<rparr>) of
          None \<Rightarrow> Err (make_input_err ''Failed convert proto duration to system duration'')
        | Some t \<Rightarrow>
            Ok \<lparr>command_digest = cmd, input_root_digest = root, timeout = t,
                ai_platform_properties = props,
                priority = (case rq_priority rq of Some p \<Rightarrow> p | None \<Rightarrow> 0),
                load_timestamp = load_ts, insert_timestamp = queued_ts,
                unique_qualifier = qualifier\<rparr>)))))))"

definition execute_request_of :: "'w ext \<Rightarrow> action_info \<Rightarrow> p_execute_request" where
  "execute_request_of X a =
     (let k = qualifier_key (unique_qualifier a)
      in \<lparr>rq_instance_name = key_instance_name k,
          rq_skip_cache_lookup = (case unique_qualifier a of Cachable _ \<Rightarrow> False | Uncachable _ \<Rightarrow> True),
          rq_action_digest = Some (digest_to_proto (hex_encode X) (action_digest_of a)),
          rq_priority = None,
          rq_digest_function = hasher_func_to_proto (key_digest_function k)\<rparr>)"

section \<open>Outputs\<close>

datatype name_or_path = Name string | Path string

fun lexical_name :: "name_or_path \<Rightarrow> string" where
  "lexical_name (Name n) = n"
| "lexical_name (Path p) = p"

definition name_or_path_le :: "name_or_path \<Rightarrow> name_or_path \<Rightarrow> bool" where
  "name_or_path_le a b \<longleftrightarrow> lexical_name a \<le> lexical_name b"

record file_info =
  fi_name_or_path :: name_or_path
  fi_digest :: digest_info
  fi_is_executable :: bool

record symlink_info =
  si_name_or_path :: name_or_path
  si_target :: string

record directory_info =
  di_path :: string
  di_tree_digest :: digest_info

definition file_node_of :: "'w ext \<Rightarrow> file_info \<Rightarrow> p_file_node option" where
  "file_node_of X f =
     (case fi_name_or_path f of
        Name n \<Rightarrow> Some \<lparr>fn_name = n, fn_digest = Some (digest_to_proto (hex_encode X) (fi_digest f)),
                        fn_is_executable = fi_is_executable f\<rparr>
      | Path _ \<Rightarrow> None)"

definition file_info_of_output_file :: "'w ext \<Rightarrow> p_output_file \<Rightarrow> file_info result" where
  "file_info_of_output_file X f =
     try_bind (opt_err_tip ''Expected digest to exist on OutputFile'' (of_digest f)) (\<lambda>pd.
     try_bind (digest_from_proto (hex_decode X) pd) (\<lambda>d.
       Ok \<lparr>fi_name_or_path = Path (of_path f), fi_digest = d, fi_is_executable = of_is_executable f\<rparr>))"

definition output_file_of :: "'w ext \<Rightarrow> file_info \<Rightarrow> p_output_file option" where
  "output_file_of X f =
     (case fi_name_or_path f of
        Path p \<Rightarrow> Some \<lparr>of_path = p, of_digest = Some (digest_to_proto (hex_encode X) (fi_digest f)),
                        of_is_executable = fi_is_executable f, of_contents = []\<rparr>
      | Name _ \<Rightarrow> None)"

definition symlink_info_of_node :: "p_symlink_node \<Rightarrow> symlink_info result" where
  "symlink_info_of_node n = Ok \<lparr>si_name_or_path = Name (sn_name n), si_target = sn_target n\<rparr>"

definition symlink_node_of :: "symlink_info \<Rightarrow> p_symlink_node option" where
  "symlink_node_of i =
     (case si_name_or_path i of
        Name n \<Rightarrow> Some \<lparr>sn_name = n, sn_target = si_target i\<rparr>
      | Path _ \<Rightarrow> None)"

definition symlink_info_of_output :: "p_output_symlink \<Rightarrow> symlink_info result" where
  "symlink_info_of_output l = Ok \<lparr>si_name_or_path = Path (os_path l), si_target = os_target l\<rparr>"

definition output_symlink_of :: "symlink_info \<Rightarrow> p_output_symlink option" where
  "output_symlink_of i =
     (case si_name_or_path i of
        Path p \<Rightarrow> Some \<lparr>os_path = p, os_target = si_target i\<rparr>
      | Name _ \<Rightarrow> None)"

definition directory_info_of_output :: "'w ext \<Rightarrow> p_output_directory \<Rightarrow> directory_info result" where
  "directory_info_of_output X d =
     try_bind (opt_err_tip ''Expected tree_digest to exist in OutputDirectory'' (od_tree_digest d)) (\<lambda>pd.
     try_bind (digest_from_proto (hex_decode X) pd) (\<lambda>t.
       Ok \<lparr>di_path = od_path d, di_tree_digest = t\<rparr>))"

definition output_directory_of :: "'w ext \<Rightarrow> directory_info \<Rightarrow> p_output_directory" where
  "output_directory_of X d =
     \<lparr>od_path = di_path d, od_tree_digest = Some (digest_to_proto (hex_encode X) (di_tree_digest d)),
      od_is_topologically_sorted = False\<rparr>"

section \<open>Execution metadata\<close>

record execution_metadata =
  worker :: string
  queued_timestamp :: system_time
  worker_start_timestamp :: system_time
  worker_completed_timestamp :: system_time
  input_fetch_start_timestamp :: system_time
  input_fetch_completed_timestamp :: system_time
  execution_start_timestamp :: system_time
  execution_completed_timestamp :: system_time
  output_upload_start_timestamp :: system_time
  output_upload_completed_timestamp :: system_time

definition execution_metadata_default :: execution_metadata where
  "execution_metadata_default =
     \<lparr>worker = [], queued_timestamp = 0, worker_start_timestamp = 0, worker_completed_timestamp = 0,
      input_fetch_start_timestamp = 0, input_fetch_completed_timestamp = 0,
      execution_start_timestamp = 0, execution_completed_timestamp = 0,
      output_upload_start_timestamp = 0, output_upload_completed_timestamp = 0\<rparr>"

text \<open>\<open>SystemTime::duration_since\<close> fails when the other time is later.\<close>

definition duration_since :: "system_time \<Rightarrow> system_time \<Rightarrow> nat option" where
  "duration_since t earlier = (if earlier \<le> t then Some (nat (t - earlier)) else None)"

definition executed_action_metadata_of :: "'w ext \<Rightarrow> execution_metadata \<Rightarrow> p_executed_action_metadata" where
  "executed_action_metadata_of X m =
     \<lparr>em_worker = worker m,
      em_queued = Some (timestamp_of_time X (queued_timestamp m)),
      em_worker_start = Some (timestamp_of_time X (worker_start_timestamp m)),
      em_worker_completed = Some (timestamp_of_time X (worker_completed_timestamp m)),
      em_input_fetch_start = Some (timestamp_of_time X (input_fetch_start_timestamp m)),
      em_input_fetch_completed = Some (timestamp_of_time X (input_fetch_completed_timestamp m)),
      em_execution_start = Some (timestamp_of_time X (execution_start_timestamp m)),
      em_execution_completed = Some (timestamp_of_time X (execution_completed_timestamp m)),
      em_output_upload_start = Some (timestamp_of_time X (output_upload_start_timestamp m)),
      em_output_upload_completed = Some (timestamp_of_time X (output_upload_completed_timestamp m)),
      em_virtual_execution_duration =
        (case duration_since (execution_completed_timestamp m) (execution_start_timestamp m) of
           Some d \<Rightarrow> duration_of_nanos X d
         | None \<Rightarrow> None)\<rparr>"

definition required_time :: "'w ext \<Rightarrow> string \<Rightarrow> p_timestamp option \<Rightarrow> system_time result" where
  "required_time X tip ts = try_bind (opt_err_tip tip ts) (time_of_timestamp X)"

definition execution_metadata_of :: "'w ext \<Rightarrow> p_executed_action_metadata \<Rightarrow> execution_metadata result" where
  "execution_metadata_of X m =
     try_bind (required_time X ''Expected queued_timestamp to exist in ExecutedActionMetadata'' (em_queued m)) (\<lambda>t1.
     try_bind (required_time X ''Expected worker_start_timestamp to exist in ExecutedActionMetadata'' (em_worker_start m)) (\<lambda>t2.
     try_bind (required_time X ''Expected worker_completed_timestamp to exist in ExecutedActionMetadata'' (em_worker_completed m)) (\<lambda>t3.
     try_bind (required_time X ''Expected input_fetch_start_timestamp to exist in ExecutedActionMetadata'' (em_input_fetch_start m)) (\<lambda>t4.
     try_bind (required_time X ''Expected input_fetch_completed_timestamp to exist in ExecutedActionMetadata'' (em_input_fetch_completed m)) (\<lambda>t5.
     try_bind (required_time X ''Expected execution_start_timestamp to exist in ExecutedActionMetadata'' (em_execution_start m)) (\<lambda>t6.
     try_bind (required_time X ''Expected execution_completed_timestamp to exist in ExecutedActionMetadata'' (em_execution_completed m)) (\<lambda>t7.
     try_bind (required_time X ''Expected output_upload_start_timestamp to exist in ExecutedActionMetadata'' (em_output_upload_start m)) (\<lambda>t8.
     try_bind (required_time X ''Expected output_upload_completed_timestamp to exist in ExecutedActionMetadata'' (em_output_upload_completed m)) (\<lambda>t9.
       Ok \<lparr>worker = em_worker m, queued_timestamp = t1, worker_start_timestamp = t2,
           worker_completed_timestamp = t3, input_fetch_start_timestamp = t4,
           input_fetch_completed_timestamp = t5, execution_start_timestamp = t6,
           execution_completed_timestamp = t7, output_upload_start_timestamp = t8,
           output_upload_completed_timestamp = t9\<rparr>)))))))))"

section \<open>ActionResult and ActionStage\<close>

record action_result =
  output_files :: "file_info list"
  output_folders :: "directory_info list"
  output_directory_symlinks :: "symlink_info list"
  output_file_symlinks :: "symlink_info list"
  exit_code :: i32
  stdout_digest :: digest_info
  stderr_digest :: digest_info
  result_execution_metadata :: execution_metadata
  server_logs :: "(string \<times> digest_info) list"
  result_error :: "error option"
  message :: string

definition internal_error_exit_code :: i32 where
  "internal_error_exit_code = - 178"

definition action_result_default :: action_result where
  "action_result_default =
     \<lparr>output_files = [], output_folders = [], output_directory_symlinks = [], output_file_symlinks = [],
      exit_code = internal_error_exit_code,
      stdout_digest = DigestInfo (replicate 32 0) 0, stderr_digest = DigestInfo (replicate 32 0) 0,
      result_execution_metadata = execution_metadata_default,
      server_logs = [], result_error = None, message = []\<rparr>"

datatype action_stage =
    Stage_Unknown
  | CacheCheck
  | Queued
  | Executing
  | Completed action_result
  | CompletedFromCache p_action_result

fun has_action_result :: "action_stage \<Rightarrow> bool" where
  "has_action_result (Completed r) = True"
| "has_action_result (CompletedFromCache r) = True"
| "has_action_result _ = False"

definition is_finished :: "action_stage \<Rightarrow> bool" where
  "is_finished st = has_action_result st"

fun is_same_stage :: "action_stage \<Rightarrow> action_stage \<Rightarrow> bool" where
  "is_same_stage Stage_Unknown Stage_Unknown = True"
| "is_same_stage CacheCheck CacheCheck = True"
| "is_same_stage Queued Queued = True"
| "is_same_stage Executing Executing = True"
| "is_same_stage (Completed _) (Completed _) = True"
| "is_same_stage (CompletedFromCache _) (CompletedFromCache _) = True"
| "is_same_stage _ _ = False"

fun stage_value :: "action_stage \<Rightarrow> i32" where
  "stage_value Stage_Unknown = 0"
| "stage_value CacheCheck = 1"
| "stage_value Queued = 2"
| "stage_value Executing = 3"
| "stage_value (Completed _) = 4"
| "stage_value (CompletedFromCache _) = 4"

text \<open>\<open>try_map\<close> of \<open>VecExt\<close> and \<open>HashMapExt\<close> (common.rs), and \<open>collect\<close> into a \<open>Result\<close>.\<close>

fun try_map :: "('a \<Rightarrow> 'b result) \<Rightarrow> 'a list \<Rightarrow> 'b list result" where
  "try_map f [] = Ok []"
| "try_map f (x # xs) = try_bind (f x) (\<lambda>y. try_bind (try_map f xs) (\<lambda>ys. Ok (y # ys)))"

definition try_map_values :: "('a \<Rightarrow> 'b result) \<Rightarrow> ('k \<times> 'a) list \<Rightarrow> ('k \<times> 'b) list result" where
  "try_map_values f m = try_map (\<lambda>p. try_bind (f (snd p)) (\<lambda>v. Ok (fst p, v))) m"

definition proto_action_result_of :: "'w ext \<Rightarrow> action_result \<Rightarrow> p_action_result option" where
  "proto_action_result_of X r =
     (case (those (map (output_file_of X) (output_files r)),
            those (map output_symlink_of (output_file_symlinks r)),
            those (map output_symlink_of (output_file_symlinks r @ output_directory_symlinks r)),
            those (map output_symlink_of (output_directory_symlinks r))) of
        (Some files, Some file_links, Some links, Some dir_links) \<Rightarrow>
          Some \<lparr>ar_output_files = files, ar_output_file_symlinks = file_links,
                ar_output_symlinks = links,
                ar_output_directories = map (output_directory_of X) (output_folders r),
                ar_output_directory_symlinks = dir_links,
                ar_exit_code = exit_code r, ar_stdout_raw = [],
                ar_stdout_digest = Some (digest_to_proto (hex_encode X) (stdout_digest r)),
                ar_stderr_raw = [],
                ar_stderr_digest = Some (digest_to_proto (hex_encode X) (stderr_digest r)),
                ar_execution_metadata =
                  Some (executed_action_metadata_of X (result_execution_metadata r))\<rparr>
      | _ \<Rightarrow> None)"

definition required_digest :: "'w ext \<Rightarrow> string \<Rightarrow> proto_digest option \<Rightarrow> digest_info result" where
  "required_digest X tip pd = try_bind (opt_err_tip tip pd) (digest_from_proto (hex_decode X))"

definition action_result_of_proto :: "'w ext \<Rightarrow> p_action_result \<Rightarrow> action_result result" where
  "action_result_of_proto X v =
     try_bind (try_map (\<lambda>l. err_tip ''Output File Symlinks could not be converted to SymlinkInfo''
                              (symlink_info_of_output l)) (ar_output_file_symlinks v)) (\<lambda>file_links.
     try_bind (try_map (\<lambda>l. err_tip ''Output File Symlinks could not be converted to SymlinkInfo''
                              (symlink_info_of_output l)) (ar_output_directory_symlinks v)) (\<lambda>dir_links.
     try_bind (try_map (\<lambda>f. err_tip ''Output File could not be converted''
                              (file_info_of_output_file X f)) (ar_output_files v)) (\<lambda>files.
     try_bind (try_map (\<lambda>d. err_tip ''Output File could not be converted''
                              (directory_info_of_output X d)) (ar_output_directories v)) (\<lambda>folders.
     try_bind (required_digest X ''Expected stdout_digest to be set on ExecuteResponse msg'' (ar_stdout_digest v)) (\<lambda>out.
     try_bind (required_digest X ''Expected stderr_digest to be set on ExecuteResponse msg'' (ar_stderr_digest v)) (\<lambda>err.
     try_bind (opt_err_tip ''Expected execution_metadata to be set on ExecuteResponse msg'' (ar_execution_metadata v)) (\<lambda>pm.
     try_bind (execution_metadata_of X pm) (\<lambda>m.
       Ok \<lparr>output_files = files, output_folders = folders, output_directory_symlinks = dir_links,
           output_file_symlinks = file_links, exit_code = ar_exit_code v,
           stdout_digest = out, stderr_digest = err, result_execution_metadata = m,
           server_logs = [], result_error = None, message = []\<rparr>))))))))"

section \<open>ExecuteResponse\<close>

definition to_execute_response :: "'w ext \<Rightarrow> action_result \<Rightarrow> p_execute_response option" where
  "to_execute_response X r =
     (case proto_action_result_of X r of
        None \<Rightarrow> None
      | Some pr \<Rightarrow>
          Some \<lparr>er_result = Some pr, er_cached_result = False,
                er_status = Some (case result_error r of
                                    None \<Rightarrow> \<lparr>status_code = 0, status_message = []\<rparr>
                                  | Some e \<Rightarrow> status_of_error e),
                er_server_logs =
                  map (\<lambda>p. (fst p, \<lparr>lf_digest = Some (digest_to_proto (hex_encode X) (snd p)),
                                   lf_human_readable = False\<rparr>)) (server_logs r),
                er_message = message r\<rparr>)"

definition execute_response_default :: p_execute_response where
  "execute_response_default =
     \<lparr>er_result = None, er_cached_result = False, er_status = None, er_server_logs = [],
      er_message = []\<rparr>"

definition execute_response_of_stage :: "'w ext \<Rightarrow> action_stage \<Rightarrow> p_execute_response option" where
  "execute_response_of_stage X st =
     (case st of
        Completed r \<Rightarrow> to_execute_response X r
      | CompletedFromCache pr \<Rightarrow>
          Some \<lparr>er_result = Some pr, er_cached_result = True,
                er_status = Some \<lparr>status_code = 0, status_message = []\<rparr>,
                er_server_logs = [], er_message = []\<rparr>
      | _ \<Rightarrow> Some execute_response_default)"

text \<open>The outer \<open>None\<close> is the panic of the conversion back to the proto.\<close>

definition stage_of_execute_response :: "'w ext \<Rightarrow> p_execute_response \<Rightarrow> action_stage result option" where
  "stage_of_execute_response X er =
     (let parsed =
        try_bind (opt_err_tip ''Expected result to be set on ExecuteResponse msg'' (er_result er)) (\<lambda>v.
        try_bind (try_map (file_info_of_output_file X) (ar_output_files v)) (\<lambda>files.
        try_bind (try_map symlink_info_of_output (ar_output_directory_symlinks v)) (\<lambda>dir_links.
        try_bind (try_map symlink_info_of_output (ar_output_file_symlinks v)) (\<lambda>file_links.
        try_bind (try_map (directory_info_of_output X) (ar_output_directories v)) (\<lambda>folders.
        try_bind (required_digest X ''Expected stdout_digest to be set on ExecuteResponse msg'' (ar_stdout_digest v)) (\<lambda>out.
        try_bind (required_digest X ''Expected stderr_digest to be set on ExecuteResponse msg'' (ar_stderr_digest v)) (\<lambda>err.
        try_bind (opt_err_tip ''Expected execution_metadata to be set on ExecuteResponse msg'' (ar_execution_metadata v)) (\<lambda>pm.
        try_bind (execution_metadata_of X pm) (\<lambda>m.
        try_bind (try_map_values (\<lambda>l. required_digest X ''Expected digest to be set on LogFile msg'' (lf_digest l))
                    (er_server_logs er)) (\<lambda>logs.
          Ok \<lparr>output_files = files, output_folders = folders, output_directory_symlinks = dir_links,
              output_file_symlinks = file_links, exit_code = ar_exit_code v,
              stdout_digest = out, stderr_digest = err, result_execution_metadata = m,
              server_logs = logs,
              result_error = (case er_status er of
                                None \<Rightarrow> None
                              | Some st \<Rightarrow> if status_code st = 0 then None else Some (error_of_status st)),
              message = er_message er\<rparr>))))))))))
      in case parsed of
           Inl e \<Rightarrow> Some (Err e)
         | Inr r \<Rightarrow>
             if er_cached_result er
             then map_option (\<lambda>pr. Ok (CompletedFromCache pr)) (proto_action_result_of X r)
             else Some (Ok (Completed r)))"

section \<open>ActionState and Operation\<close>

record action_state =
  stage :: action_stage
  client_operation_id :: operation_id
  action_digest :: digest_info

definition execute_response_url :: string where
  "execute_response_url = ''type.googleapis.com/build.bazel.remote.execution.v2.ExecuteResponse''"

definition operation_metadata_url :: string where
  "operation_metadata_url = ''type.googleapis.com/build.bazel.remote.execution.v2.ExecuteOperationMetadata''"

definition from_any :: "string \<Rightarrow> ('w \<Rightarrow> 'a result) \<Rightarrow> 'w p_any \<Rightarrow> 'a result" where
  "from_any url decode a =
     (if type_url a \<noteq> url then Err (make_err InvalidArgument ''Incorrect type when decoding Any.'')
      else decode (any_value a))"

definition to_any :: "string \<Rightarrow> 'w \<Rightarrow> 'w p_any" where
  "to_any url value = \<lparr>type_url = url, any_value = value\<rparr>"

definition try_from_operation ::
  "'w ext \<Rightarrow> 'w p_operation \<Rightarrow> operation_id \<Rightarrow> action_state result option" where
  "try_from_operation X op cid =
     (case try_bind (opt_err_tip ''No metadata in upstream operation'' (opn_metadata op)) (\<lambda>a.
             err_tip ''Could not decode metadata in upstream operation''
               (from_any operation_metadata_url (decode_operation_metadata X) a)) of
        Inl e \<Rightarrow> Some (Err e)
      | Inr md \<Rightarrow>
          (case (if md_stage md = 0 then Some (Ok Stage_Unknown)
                 else if md_stage md = 1 then Some (Ok CacheCheck)
                 else if md_stage md = 2 then Some (Ok Queued)
                 else if md_stage md = 3 then Some (Ok Executing)
                 else if md_stage md = 4 then
                   (case opt_err_tip ''No result data for completed upstream action'' (opn_result op) of
                      Inl e \<Rightarrow> Some (Err e)
                    | Inr (LR_Error st) \<Rightarrow>
                        Some (Ok (Completed (action_result_default\<lparr>result_error := Some (error_of_status st)\<rparr>)))
                    | Inr (LR_Response a) \<Rightarrow>
                        (case err_tip ''Could not decode result structure for completed upstream action''
                                (from_any execute_response_url (decode_execute_response X) a) of
                           Inl e \<Rightarrow> Some (Err e)
                         | Inr er \<Rightarrow> stage_of_execute_response X er))
                 else Some (err_tip ''Could not convert to execution_stage::Value''
                              (Err (make_err Internal ''unknown enumeration value'')))) of
             None \<Rightarrow> None
           | Some r \<Rightarrow>
               Some (try_bind r (\<lambda>st.
                 try_bind (opt_err_tip ''No action_digest in upstream operation'' (md_action_digest md)) (\<lambda>pd.
                 try_bind (err_tip ''Could not convert action_digest into DigestInfo''
                             (digest_from_proto (hex_decode X) pd)) (\<lambda>d.
                   Ok \<lparr>stage = st, client_operation_id = cid, action_digest = d\<rparr>))))))"

definition as_operation :: "'w ext \<Rightarrow> action_state \<Rightarrow> operation_id \<Rightarrow> 'w p_operation option" where
  "as_operation X st cid =
     (let md = \<lparr>md_stage = stage_value (stage st),
                md_action_digest = Some (digest_to_proto (hex_encode X) (action_digest st))\<rparr>;
          mk = (\<lambda>result.
                 \<lparr>opn_name = operation_id_into_string X cid,
                  opn_metadata = Some (to_any operation_metadata_url (encode_operation_metadata X md)),
                  opn_done = (result \<noteq> None), opn_result = result\<rparr>)
      in if has_action_result (stage st)
         then map_option (\<lambda>er. mk (Some (LR_Response (to_any execute_response_url (encode_execute_response X er)))))
                (execute_response_of_stage X (stage st))
         else Some (mk None))"

section \<open>What survives a round trip\<close>

definition digest_ok :: "digest_info \<Rightarrow> bool" where
  "digest_ok d \<longleftrightarrow> length (packed_hash d) = 32 \<and> size_bytes d \<le> i64_max"

fun is_path :: "name_or_path \<Rightarrow> bool" where
  "is_path (Path p) = True"
| "is_path (Name n) = False"

definition error_ok :: "error option \<Rightarrow> bool" where
  "error_ok e = (case e of None \<Rightarrow> True | Some e \<Rightarrow> code e \<noteq> Code_Ok \<and> length (messages e) = 1)"

definition result_ok :: "action_result \<Rightarrow> bool" where
  "result_ok r \<longleftrightarrow>
     list_all (\<lambda>f. is_path (fi_name_or_path f) \<and> digest_ok (fi_digest f)) (output_files r)
     \<and> list_all (\<lambda>d. digest_ok (di_tree_digest d)) (output_folders r)
     \<and> list_all (\<lambda>l. is_path (si_name_or_path l)) (output_directory_symlinks r)
     \<and> list_all (\<lambda>l. is_path (si_name_or_path l)) (output_file_symlinks r)
     \<and> digest_ok (stdout_digest r) \<and> digest_ok (stderr_digest r)
     \<and> list_all (\<lambda>p. digest_ok (snd p)) (server_logs r)
     \<and> error_ok (result_error r)"

text \<open>A result from the cache is the proto of such a result.\<close>

definition stage_ok :: "'w ext \<Rightarrow> action_stage \<Rightarrow> bool" where
  "stage_ok X st =
     (case st of
        Completed r \<Rightarrow> result_ok r
      | CompletedFromCache pr \<Rightarrow> (\<exists>r. result_ok r \<and> proto_action_result_of X r = Some pr)
      | _ \<Rightarrow> True)"

lemma code_as_i32_zero [simp]: "code_as_i32 c = 0 \<longleftrightarrow> c = Code_Ok"
  by (cases c) simp_all

lemma error_of_status_of_error:
  "length (messages e) = 1 \<Longrightarrow> error_of_status (status_of_error e) = e"
  by (cases "messages e") (auto simp: error_of_status_def status_of_error_def message_string_def)

lemma try_map_those:
  assumes "those (map g xs) = Some ys" and "\<And>x y. x \<in> set xs \<Longrightarrow> g x = Some y \<Longrightarrow> f y = Ok x"
  shows "try_map f ys = Ok xs"
  using assms
proof (induction xs arbitrary: ys)
  case Nil
  then show ?case by simp
next
  case (Cons x xs)
  then obtain y zs where y: "g x = Some y" and zs: "those (map g xs) = Some zs" and ys: "ys = y # zs"
    by (auto split: option.splits)
  have "f y = Ok x" using y by (intro Cons.prems(2)) simp_all
  moreover have "try_map f zs = Ok xs" using zs by (rule Cons.IH) (simp add: Cons.prems(2))
  ultimately show ?case by (simp add: ys)
qed

lemma try_map_map:
  assumes "\<And>x. x \<in> set xs \<Longrightarrow> f (g x) = Ok x"
  shows "try_map f (map g xs) = Ok xs"
  using assms by (induction xs) auto

lemma those_map_Some: "(\<And>x. x \<in> set xs \<Longrightarrow> g x \<noteq> None) \<Longrightarrow> those (map g xs) \<noteq> None"
  by (induction xs) (force split: option.splits)+

locale ext_laws =
  fixes X :: "'w ext"
  assumes hex: "hex_codec (hex_encode X) (hex_decode X)"
    and uuid_roundtrip: "uuid_parse X (uuid_to_string X u) = Some u"
    and time_roundtrip: "time_of_timestamp X (timestamp_of_time X t) = Ok t"
    and response_roundtrip: "decode_execute_response X (encode_execute_response X er) = Ok er"
    and metadata_roundtrip: "decode_operation_metadata X (encode_operation_metadata X md) = Ok md"
begin

lemma digest_roundtrip:
  "digest_ok d \<Longrightarrow> digest_from_proto (hex_decode X) (digest_to_proto (hex_encode X) d) = Ok d"
  using hex_codec.from_to_proto [OF hex] by (simp add: digest_ok_def)

lemma worker_id_roundtrip: "worker_id_of_string X (worker_id_to_string X w) = Ok w"
  by (simp add: worker_id_of_string_def worker_id_to_string_def uuid_roundtrip split: worker_id.split)

lemma file_roundtrip:
  "output_file_of X f = Some pf \<Longrightarrow> digest_ok (fi_digest f) \<Longrightarrow> file_info_of_output_file X pf = Ok f"
  by (cases f) (auto simp: output_file_of_def file_info_of_output_file_def digest_roundtrip
      split: name_or_path.splits)

lemma symlink_roundtrip: "output_symlink_of l = Some pl \<Longrightarrow> symlink_info_of_output pl = Ok l"
  by (cases l) (auto simp: output_symlink_of_def symlink_info_of_output_def split: name_or_path.splits)

lemma directory_roundtrip:
  "digest_ok (di_tree_digest d) \<Longrightarrow> directory_info_of_output X (output_directory_of X d) = Ok d"
  by (cases d) (simp add: directory_info_of_output_def output_directory_of_def digest_roundtrip)

lemma execution_metadata_roundtrip:
  "execution_metadata_of X (executed_action_metadata_of X m) = Ok m"
  by (cases m) (simp add: execution_metadata_of_def executed_action_metadata_of_def required_time_def
      time_roundtrip)

lemma logs_roundtrip:
  assumes "list_all (\<lambda>p. digest_ok (snd p)) logs"
  shows "try_map_values (\<lambda>l. required_digest X tip (lf_digest l))
      (map (\<lambda>p. (fst p, \<lparr>lf_digest = Some (digest_to_proto (hex_encode X) (snd p)),
                           lf_human_readable = False\<rparr>)) logs) = Ok logs"
  unfolding try_map_values_def using assms
  by (intro try_map_map) (auto simp: list_all_iff required_digest_def digest_roundtrip)

lemma proto_defined: "result_ok r \<Longrightarrow> \<exists>pr. proto_action_result_of X r = Some pr"
proof -
  assume ok: "result_ok r"
  have link: "output_symlink_of l \<noteq> None" if "is_path (si_name_or_path l)" for l
    using that by (auto simp: output_symlink_of_def split: name_or_path.split)
  have "those (map (output_file_of X) (output_files r)) \<noteq> None"
    using ok by (intro those_map_Some)
      (auto simp: result_ok_def list_all_iff output_file_of_def split: name_or_path.split)
  moreover have "those (map output_symlink_of (output_file_symlinks r)) \<noteq> None"
    and "those (map output_symlink_of (output_directory_symlinks r)) \<noteq> None"
    and "those (map output_symlink_of (output_file_symlinks r @ output_directory_symlinks r)) \<noteq> None"
    using ok link by (intro those_map_Some; auto simp: result_ok_def list_all_iff)+
  ultimately show ?thesis
    unfolding proto_action_result_of_def by (auto simp del: map_append)
qed

lemma response_of_result:
  assumes ok: "result_ok r" and pr: "proto_action_result_of X r = Some pr"
    and er: "er_result er = Some pr"
      "er_server_logs er = map (\<lambda>p. (fst p, \<lparr>lf_digest = Some (digest_to_proto (hex_encode X) (snd p)),
          lf_human_readable = False\<rparr>)) logs" "list_all (\<lambda>p. digest_ok (snd p)) logs"
  shows "stage_of_execute_response X er =
    (let r' = r\<lparr>server_logs := logs,
               result_error := (case er_status er of
                  None \<Rightarrow> None
                | Some st \<Rightarrow> if status_code st = 0 then None else Some (error_of_status st)),
               message := er_message er\<rparr>
     in if er_cached_result er then Some (Ok (CompletedFromCache pr)) else Some (Ok (Completed r')))"
proof -
  obtain files file_links links dir_links where parts:
      "those (map (output_file_of X) (output_files r)) = Some files"
      "those (map output_symlink_of (output_file_symlinks r)) = Some file_links"
      "those (map output_symlink_of (output_directory_symlinks r)) = Some dir_links"
    and pr_eq: "pr = \<lparr>ar_output_files = files, ar_output_file_symlinks = file_links,
                ar_output_symlinks = links,
                ar_output_directories = map (output_directory_of X) (output_folders r),
                ar_output_directory_symlinks = dir_links,
                ar_exit_code = exit_code r, ar_stdout_raw = [],
                ar_stdout_digest = Some (digest_to_proto (hex_encode X) (stdout_digest r)),
                ar_stderr_raw = [],
                ar_stderr_digest = Some (digest_to_proto (hex_encode X) (stderr_digest r)),
                ar_execution_metadata =
                  Some (executed_action_metadata_of X (result_execution_metadata r))\<rparr>"
    using pr unfolding proto_action_result_of_def by (auto simp del: map_append split: option.splits)
  have "try_map (file_info_of_output_file X) files = Ok (output_files r)"
    using ok by (intro try_map_those [OF parts(1)]) (auto simp: result_ok_def list_all_iff file_roundtrip)
  moreover have "try_map symlink_info_of_output file_links = Ok (output_file_symlinks r)"
    by (rule try_map_those [OF parts(2)]) (rule symlink_roundtrip)
  moreover have "try_map symlink_info_of_output dir_links = Ok (output_directory_symlinks r)"
    by (rule try_map_those [OF parts(3)]) (rule symlink_roundtrip)
  moreover have "try_map (directory_info_of_output X) (map (output_directory_of X) (output_folders r))
      = Ok (output_folders r)"
    using ok by (intro try_map_map) (auto simp: result_ok_def list_all_iff directory_roundtrip)
  moreover have "required_digest X tip (Some (digest_to_proto (hex_encode X) (stdout_digest r))) = Ok (stdout_digest r)"
    and "required_digest X tip (Some (digest_to_proto (hex_encode X) (stderr_digest r))) = Ok (stderr_digest r)"
    for tip using ok by (simp_all add: required_digest_def digest_roundtrip result_ok_def)
  moreover have "proto_action_result_of X (r\<lparr>server_logs := l, result_error := e, message := m\<rparr>) = Some pr" for l e m
    unfolding pr [symmetric] by (simp add: proto_action_result_of_def split: option.split)
  ultimately show ?thesis
    using er pr
    by (cases r) (simp add: stage_of_execute_response_def pr_eq execution_metadata_roundtrip logs_roundtrip Let_def)
qed

lemma stage_roundtrip:
  assumes "stage_ok X st" and "has_action_result st"
  shows "\<exists>er. execute_response_of_stage X st = Some er \<and> stage_of_execute_response X er = Some (Ok st)"
proof (cases st)
  case (Completed r)
  with assms have ok: "result_ok r" by (simp add: stage_ok_def)
  then obtain pr where pr: "proto_action_result_of X r = Some pr" using proto_defined by blast
  define er where "er = \<lparr>er_result = Some pr, er_cached_result = False,
      er_status = Some (case result_error r of None \<Rightarrow> \<lparr>status_code = 0, status_message = []\<rparr>
                                             | Some e \<Rightarrow> status_of_error e),
      er_server_logs = map (\<lambda>p. (fst p, \<lparr>lf_digest = Some (digest_to_proto (hex_encode X) (snd p)),
                                          lf_human_readable = False\<rparr>)) (server_logs r),
      er_message = message r\<rparr>"
  have "execute_response_of_stage X st = Some er"
    by (simp add: Completed execute_response_of_stage_def to_execute_response_def pr er_def)
  moreover have err: "(case er_status er of
        None \<Rightarrow> None
      | Some st \<Rightarrow> if status_code st = 0 then None else Some (error_of_status st)) = result_error r"
    using ok by (cases "result_error r")
      (simp_all add: er_def result_ok_def error_ok_def error_of_status_of_error,
       simp add: status_of_error_def)
  moreover have "stage_of_execute_response X er = Some (Ok st)"
    using response_of_result [OF ok pr, of er "server_logs r"] ok
    unfolding err by (simp add: er_def Completed result_ok_def)
  ultimately show ?thesis by blast
next
  case (CompletedFromCache pr)
  with assms obtain r where ok: "result_ok r" and pr: "proto_action_result_of X r = Some pr"
    by (auto simp: stage_ok_def)
  then show ?thesis
    using response_of_result [OF ok pr, of _ "[]"]
    by (auto simp: CompletedFromCache execute_response_of_stage_def)
qed (use assms in simp_all)

lemma operation_roundtrip_any:
  assumes "stage_ok X (stage st)" and "digest_ok (action_digest st)"
  shows "\<exists>op. as_operation X st cid = Some op \<and> opn_done op = has_action_result (stage st)
    \<and> try_from_operation X op cid' = Some (Ok (st\<lparr>client_operation_id := cid'\<rparr>))"
proof (cases "has_action_result (stage st)")
  case True
  then obtain er where er: "execute_response_of_stage X (stage st) = Some er"
      "stage_of_execute_response X er = Some (Ok (stage st))"
    using stage_roundtrip assms(1) by blast
  moreover have "stage_value (stage st) = 4" using True by (cases "stage st") auto
  ultimately show ?thesis
    using True assms(2)
    by (simp add: as_operation_def try_from_operation_def from_any_def to_any_def metadata_roundtrip
        response_roundtrip digest_roundtrip)
next
  case False
  then show ?thesis
    using assms(2)
    by (cases "stage st") (auto simp: as_operation_def try_from_operation_def from_any_def to_any_def
        metadata_roundtrip digest_roundtrip Let_def)
qed

end

section \<open>A reference instance\<close>

text \<open>Messages stand for their own encoding, and a uuid is printed in decimal.\<close>

datatype wire = W_Response p_execute_response | W_Metadata p_operation_metadata

definition ref_ext :: "wire ext" where
  "ref_ext =
     \<lparr>hex_encode = hex_enc, hex_decode = hex_dec,
      uuid_to_string = (\<lambda>u. nat_to_string (unat u)),
      uuid_parse = (\<lambda>s. map_option of_nat (parse_unsigned (2 ^ 128) s)),
      timestamp_of_time = (\<lambda>t. \<lparr>ts_seconds = t div 1000000000, ts_nanos = t mod 1000000000\<rparr>),
      time_of_timestamp = (\<lambda>ts. Ok (ts_seconds ts * 1000000000 + ts_nanos ts)),
      duration_of_nanos = (\<lambda>n. Some \<lparr>dur_seconds = int n div 1000000000, dur_nanos = int n mod 1000000000\<rparr>),
      nanos_of_duration = (\<lambda>d. let n = dur_seconds d * 1000000000 + dur_nanos d
                               in if 0 \<le> n then Some (nat n) else None),
      encode_execute_response = W_Response,
      decode_execute_response = (\<lambda>w. case w of W_Response er \<Rightarrow> Ok er
                                             | W_Metadata _ \<Rightarrow> Err (make_err Internal ''decode'')),
      encode_operation_metadata = W_Metadata,
      decode_operation_metadata = (\<lambda>w. case w of W_Metadata md \<Rightarrow> Ok md
                                               | W_Response _ \<Rightarrow> Err (make_err Internal ''decode''))\<rparr>"

interpretation re: ext_laws ref_ext
proof (rule ext_laws.intro)
  show "hex_codec (hex_encode ref_ext) (hex_decode ref_ext)"
    by (simp add: ref_ext_def hx.hex_codec_axioms)
  show "uuid_parse ref_ext (uuid_to_string ref_ext u) = Some u" for u
    using unsigned_less [of u, where ?'a = nat] by (simp add: ref_ext_def parse_unsigned_nat_to_string)
qed (simp_all add: ref_ext_def)

section \<open>Properties\<close>


definition failed_state :: action_state where
  "failed_state =
     \<lparr>stage = Completed (action_result_default\<lparr>result_error := Some (make_err Aborted ''lost worker'')\<rparr>),
      client_operation_id = Op_String ''client'', action_digest = zero_digest\<rparr>"


end
