(* ===== verification/Platform_Properties.thy ===== *)
theory Platform_Properties
  imports Rust_Std NL_Error
begin

text \<open>
  Platform properties (nativelink-util/src/platform_properties.rs) and the manager that gives the
  string properties of an action their types (nativelink-scheduler/src/platform_property_manager.rs).
  The \<open>HashMap\<close> of properties is iterated over, so it is an association list with distinct keys.
\<close>

section \<open>Definitions\<close>

datatype platform_property_value =
    Exact string
  | Minimum u64
  | Priority string
  | Unknown_value string

type_synonym platform_properties = "(string \<times> platform_property_value) list"

datatype property_type = Prop_minimum | Prop_exact | Prop_priority

fun value_is_satisfied_by :: "platform_property_value \<Rightarrow> platform_property_value \<Rightarrow> bool" where
  "value_is_satisfied_by v worker_value =
     (if v = worker_value then True
      else (case v of
              Minimum n \<Rightarrow> (case worker_value of Minimum worker_n \<Rightarrow> n \<le> worker_n | _ \<Rightarrow> False)
            | Priority _ \<Rightarrow> True
            | Exact _ \<Rightarrow> False
            | Unknown_value _ \<Rightarrow> False))"

fun is_satisfied_by :: "platform_properties \<Rightarrow> platform_properties \<Rightarrow> bool" where
  "is_satisfied_by [] worker_props = True"
| "is_satisfied_by ((property, check_value) # ps) worker_props =
     (case map_of worker_props property of
        Some worker_value \<Rightarrow>
          if \<not> value_is_satisfied_by check_value worker_value then False
          else is_satisfied_by ps worker_props
      | None \<Rightarrow> False)"

definition property_as_str :: "platform_property_value \<Rightarrow> string" where
  "property_as_str v =
     (case v of Exact s \<Rightarrow> s | Priority s \<Rightarrow> s | Unknown_value s \<Rightarrow> s | Minimum n \<Rightarrow> u64_to_string n)"

definition properties_of_proto_platform :: "(string \<times> string) list \<Rightarrow> platform_properties" where
  "properties_of_proto_platform ps =
     foldl (\<lambda>m p. AList.update (fst p) (Unknown_value (snd p)) m) [] ps"

definition make_prop_value ::
  "(string \<rightharpoonup> property_type) \<Rightarrow> string \<Rightarrow> string \<Rightarrow> platform_property_value result" where
  "make_prop_value known_properties key value =
     (case known_properties key of
        Some Prop_minimum \<Rightarrow>
          (case parse_u64 value of
             Some n \<Rightarrow> Ok (Minimum n)
           | None \<Rightarrow> Err (error_append (make_err InvalidArgument ''invalid digit found in string'')
                            ''Cannot convert to platform property to u64''))
      | Some Prop_exact \<Rightarrow> Ok (Exact value)
      | Some Prop_priority \<Rightarrow> Ok (Priority value)
      | None \<Rightarrow> Err (make_input_err ''Unknown platform property''))"

fun make_properties_loop ::
  "(string \<rightharpoonup> property_type) \<Rightarrow> (string \<times> string) list \<Rightarrow> platform_properties
     \<Rightarrow> platform_properties result" where
  "make_properties_loop known [] acc = Ok acc"
| "make_properties_loop known ((key, value) # ps) acc =
     try_bind (make_prop_value known key value) (\<lambda>v.
       make_properties_loop known ps (AList.update key v acc))"

definition make_platform_properties ::
  "(string \<rightharpoonup> property_type) \<Rightarrow> (string \<times> string) list \<Rightarrow> platform_properties result" where
  "make_platform_properties known props = make_properties_loop known props []"

section \<open>What the definitions compute\<close>

definition wf_props :: "platform_properties \<Rightarrow> bool" where
  "wf_props ps \<longleftrightarrow> distinct (map fst ps)"

lemma is_satisfied_by_iff:
  "is_satisfied_by ps worker_props \<longleftrightarrow>
     (\<forall>(k, v) \<in> set ps. \<exists>w. map_of worker_props k = Some w \<and> value_is_satisfied_by v w)"
proof (induction ps)
  case Nil
  then show ?case by simp
next
  case (Cons p ps)
  then show ?case
    by (cases p; cases "map_of worker_props (fst p)") (simp_all del: value_is_satisfied_by.simps)
qed

lemma value_satisfied_Minimum [simp]:
  "value_is_satisfied_by (Minimum n) w \<longleftrightarrow> (\<exists>m. w = Minimum m \<and> n \<le> m)"
  by (cases w) auto

declare value_is_satisfied_by.simps [simp del]

lemma value_satisfied_same [simp]: "value_is_satisfied_by v v"
  by (simp add: value_is_satisfied_by.simps)

text \<open>What a configured type says of a value and of a worker's value for it.\<close>

definition convertible :: "(string \<rightharpoonup> property_type) \<Rightarrow> string \<times> string \<Rightarrow> bool" where
  "convertible known p =
     (case known (fst p) of
        None \<Rightarrow> False
      | Some Prop_minimum \<Rightarrow> parse_u64 (snd p) \<noteq> None
      | Some _ \<Rightarrow> True)"

definition matches :: "(string \<rightharpoonup> property_type) \<Rightarrow> string \<times> string \<Rightarrow> platform_property_value \<Rightarrow> bool" where
  "matches known p w =
     (case known (fst p) of
        None \<Rightarrow> False
      | Some Prop_minimum \<Rightarrow> (\<exists>n m. parse_u64 (snd p) = Some n \<and> w = Minimum m \<and> n \<le> m)
      | Some Prop_exact \<Rightarrow> w = Exact (snd p)
      | Some Prop_priority \<Rightarrow> True)"

lemma make_prop_value_ok_iff: "is_ok (make_prop_value known k s) \<longleftrightarrow> convertible known (k, s)"
  by (auto simp: make_prop_value_def convertible_def split: option.splits property_type.splits)

lemma make_prop_value_matches:
  "make_prop_value known k s = Ok v \<Longrightarrow> value_is_satisfied_by v w \<longleftrightarrow> matches known (k, s) w"
  by (cases w) (auto simp: make_prop_value_def matches_def value_is_satisfied_by.simps split: option.splits property_type.splits)

lemma make_properties_loop_ok_iff:
  "is_ok (make_properties_loop known ps acc) \<longleftrightarrow> list_all (convertible known) ps"
proof (induction ps arbitrary: acc)
  case Nil
  then show ?case by simp
next
  case (Cons p ps)
  obtain k s where p: "p = (k, s)" by (cases p)
  show ?case
    using Cons.IH make_prop_value_ok_iff [of known k s]
    by (cases "make_prop_value known k s") (simp_all add: p)
qed

lemma update_fresh: "k \<notin> fst ` set xs \<Longrightarrow> AList.update k v xs = xs @ [(k, v)]"
  by (induction xs) auto

lemma make_properties_loop_result:
  assumes "make_properties_loop known ps acc = Ok r" and "distinct (map fst ps @ map fst acc)"
  shows "mset r = mset acc + image_mset (\<lambda>p. (fst p, projr (make_prop_value known (fst p) (snd p)))) (mset ps)"
  using assms
proof (induction ps arbitrary: acc)
  case Nil
  then show ?case by simp
next
  case (Cons p ps)
  obtain k s where p: "p = (k, s)" by (cases p)
  with Cons.prems obtain v where v: "make_prop_value known k s = Ok v"
    and rest: "make_properties_loop known ps (AList.update k v acc) = Ok r"
    by (auto simp: try_bind_Ok_iff)
  have "k \<notin> fst ` set acc" using Cons.prems p by auto
  then have up: "AList.update k v acc = acc @ [(k, v)]" by (rule update_fresh)
  have "distinct (map fst ps @ map fst (acc @ [(k, v)]))" using Cons.prems p by auto
  from Cons.IH [OF rest [unfolded up] this] show ?case by (simp add: p v)
qed

section \<open>Properties\<close>

text \<open>
  C29. Typing and matching of properties. For an action's string properties, the manager succeeds
  exactly when every key is configured and every value of a minimum property is a u64; then a
  worker satisfies the result exactly when it has every key of the action, with the same value
  where the key is exact and with at least the amount where it is a minimum.
\<close>

theorem make_platform_properties_matching:
  assumes "distinct (map fst props)"
  shows "(is_ok (make_platform_properties known props) \<longleftrightarrow> list_all (convertible known) props)
    \<and> (\<forall>ps. make_platform_properties known props = Ok ps \<longrightarrow>
         (is_satisfied_by ps worker_props \<longleftrightarrow>
           list_all (\<lambda>p. \<exists>w. map_of worker_props (fst p) = Some w \<and> matches known p w) props))"
proof -
  have "is_satisfied_by ps worker_props \<longleftrightarrow>
      list_all (\<lambda>p. \<exists>w. map_of worker_props (fst p) = Some w \<and> matches known p w) props"
    if ok: "make_properties_loop known props [] = Ok ps" for ps
  proof -
    have conv: "\<exists>v. make_prop_value known (fst p) (snd p) = Ok v" if "p \<in> set props" for p
      using make_properties_loop_ok_iff [of known props "[]"] ok that
        make_prop_value_ok_iff [of known "fst p" "snd p"]
      by (auto simp: list_all_iff is_ok_iff)
    have "set ps = (\<lambda>p. (fst p, projr (make_prop_value known (fst p) (snd p)))) ` set props"
      using arg_cong [OF make_properties_loop_result [OF ok], of set_mset] assms by simp
    then have "is_satisfied_by ps worker_props \<longleftrightarrow>
        (\<forall>p \<in> set props. \<exists>w. map_of worker_props (fst p) = Some w \<and>
           value_is_satisfied_by (projr (make_prop_value known (fst p) (snd p))) w)"
      by (simp add: is_satisfied_by_iff)
    also have "\<dots> \<longleftrightarrow> (\<forall>p \<in> set props. \<exists>w. map_of worker_props (fst p) = Some w \<and> matches known p w)"
    proof (intro ball_cong refl arg_cong [where f = Ex] ext conj_cong)
      fix p w
      assume "p \<in> set props"
      then obtain v where "make_prop_value known (fst p) (snd p) = Ok v" using conv by blast
      then show "value_is_satisfied_by (projr (make_prop_value known (fst p) (snd p))) w = matches known p w"
        using make_prop_value_matches [of known "fst p" "snd p" v w] by simp
    qed
    finally show ?thesis by (simp add: list_all_iff)
  qed
  then show ?thesis
    by (simp add: make_platform_properties_def make_properties_loop_ok_iff)
qed

definition sample_known :: "string \<rightharpoonup> property_type" where
  "sample_known = [''cpu'' \<mapsto> Prop_minimum, ''os'' \<mapsto> Prop_exact]"

theorem make_platform_properties_matching_witness:
  "make_platform_properties sample_known [(''cpu'', ''4''), (''os'', ''linux'')]
     = Ok [(''cpu'', Minimum 4), (''os'', Exact ''linux'')]
   \<and> is_satisfied_by [(''cpu'', Minimum 4), (''os'', Exact ''linux'')]
       [(''os'', Exact ''linux''), (''cpu'', Minimum 8)]"
proof -
  have num: "parse_u64 ''4'' = Some 4"
    by (simp add: parse_u64_def parse_unsigned_def char_digit_def Let_def)
  then have ok: "make_platform_properties sample_known [(''cpu'', ''4''), (''os'', ''linux'')]
      = Ok [(''cpu'', Minimum 4), (''os'', Exact ''linux'')]"
    by (simp add: make_platform_properties_def make_prop_value_def sample_known_def)
  from num have "list_all (\<lambda>p. \<exists>w. map_of [(''os'', Exact ''linux''), (''cpu'', Minimum 8)] (fst p) = Some w
        \<and> matches sample_known p w) [(''cpu'', ''4''), (''os'', ''linux'')]"
    by (simp add: matches_def sample_known_def)
  with ok make_platform_properties_matching [of "[(''cpu'', ''4''), (''os'', ''linux'')]" sample_known
      "[(''os'', Exact ''linux''), (''cpu'', Minimum 8)]"]
  show ?thesis by simp
qed

end
