(* ===== verification/Sched_Worker.thy ===== *)
theory Sched_Worker
  imports Platform_Properties Action_Messages
begin

text \<open>
  The scheduler's view of one worker (nativelink-scheduler/src/worker.rs): the resources it has
  left, the actions it runs and the channel to it. The channel is a log of the messages sent, with
  a flag for whether the receiver still exists. Arithmetic on properties is u64 and wraps, as the
  release build does. \<open>None\<close> is the panic of \<open>get_mut(property).unwrap()\<close>. The metrics of the
  worker are left out.
\<close>

section \<open>State\<close>

record action_info_with_props =
  ap_inner :: action_info
  ap_platform_properties :: platform_properties

record start_execute =
  se_execute_request :: p_execute_request
  se_operation_id :: string
  se_queued_timestamp :: p_timestamp

datatype worker_message =
    ConnectionResult string
  | KeepAlive
  | StartAction start_execute
  | Disconnect_msg

datatype worker_update = RunAction operation_id action_info_with_props | Disconnect

record sender =
  tx_open :: bool
  tx_sent :: "worker_message list"

record worker =
  w_id :: worker_id
  w_platform_properties :: platform_properties
  w_tx :: sender
  running_action_infos :: "(operation_id \<times> action_info_with_props) list"
  last_update_timestamp :: u64
  is_paused :: bool
  is_draining :: bool

section \<open>Operations\<close>

definition send_msg_to_worker :: "worker_message \<Rightarrow> sender \<Rightarrow> unit result \<times> sender" where
  "send_msg_to_worker msg tx =
     (if tx_open tx then (Ok (), tx\<lparr>tx_sent := tx_sent tx @ [msg]\<rparr>)
      else (Err (make_err Internal ''Worker disconnected''), tx))"

fun reduce_platform_properties ::
  "platform_properties \<Rightarrow> platform_properties \<Rightarrow> platform_properties option" where
  "reduce_platform_properties parent [] = Some parent"
| "reduce_platform_properties parent ((property, v) # ps) =
     (case v of
        Minimum n \<Rightarrow>
          (case map_of parent property of
             None \<Rightarrow> None
           | Some (Minimum worker_n) \<Rightarrow>
               reduce_platform_properties (AList.update property (Minimum (worker_n - n)) parent) ps
           | Some _ \<Rightarrow> reduce_platform_properties parent ps)
      | _ \<Rightarrow> reduce_platform_properties parent ps)"

fun restore_platform_properties ::
  "platform_properties \<Rightarrow> platform_properties \<Rightarrow> platform_properties option" where
  "restore_platform_properties parent [] = Some parent"
| "restore_platform_properties parent ((property, v) # ps) =
     (case v of
        Minimum n \<Rightarrow>
          (case map_of parent property of
             None \<Rightarrow> None
           | Some (Minimum worker_n) \<Rightarrow>
               restore_platform_properties (AList.update property (Minimum (worker_n + n)) parent) ps
           | Some _ \<Rightarrow> restore_platform_properties parent ps)
      | _ \<Rightarrow> restore_platform_properties parent ps)"

definition worker_new :: "worker_id \<Rightarrow> platform_properties \<Rightarrow> sender \<Rightarrow> u64 \<Rightarrow> worker" where
  "worker_new wid props tx timestamp =
     \<lparr>w_id = wid, w_platform_properties = props, w_tx = tx, running_action_infos = [],
      last_update_timestamp = timestamp, is_paused = False, is_draining = False\<rparr>"

definition send_initial_connection_result :: "'w ext \<Rightarrow> worker \<Rightarrow> unit result \<times> worker" where
  "send_initial_connection_result X w =
     (let (r, tx) = send_msg_to_worker (ConnectionResult (worker_id_to_string X (w_id w))) (w_tx w)
      in (err_tip ''Failed to send ConnectionResult to worker'' r, w\<lparr>w_tx := tx\<rparr>))"

definition keep_alive :: "worker \<Rightarrow> unit result \<times> worker" where
  "keep_alive w =
     (let (r, tx) = send_msg_to_worker KeepAlive (w_tx w)
      in (err_tip ''Failed to send KeepAlive to worker'' r, w\<lparr>w_tx := tx\<rparr>))"

definition run_action ::
  "'w ext \<Rightarrow> operation_id \<Rightarrow> action_info_with_props \<Rightarrow> worker \<Rightarrow> (unit result \<times> worker) option" where
  "run_action X oid info w =
     (let running = AList.update oid info (running_action_infos w)
      in case reduce_platform_properties (w_platform_properties w) (ap_platform_properties info) of
           None \<Rightarrow> None
         | Some props \<Rightarrow>
             let (r, tx) = send_msg_to_worker
                   (StartAction \<lparr>se_execute_request = execute_request_of X (ap_inner info),
                                 se_operation_id = operation_id_into_string X oid,
                                 se_queued_timestamp = timestamp_of_time X (insert_timestamp (ap_inner info))\<rparr>)
                   (w_tx w)
             in Some (r, w\<lparr>running_action_infos := running, w_platform_properties := props, w_tx := tx\<rparr>))"

definition notify_update ::
  "'w ext \<Rightarrow> worker_update \<Rightarrow> worker \<Rightarrow> (unit result \<times> worker) option" where
  "notify_update X u w =
     (case u of
        RunAction oid info \<Rightarrow> run_action X oid info w
      | Disconnect \<Rightarrow>
          let (r, tx) = send_msg_to_worker Disconnect_msg (w_tx w) in Some (r, w\<lparr>w_tx := tx\<rparr>))"

definition complete_action :: "operation_id \<Rightarrow> worker \<Rightarrow> (unit result \<times> worker) option" where
  "complete_action oid w =
     (case map_of (running_action_infos w) oid of
        None \<Rightarrow> Some (opt_err_tip ''Worker tried to complete operation that was not running'' None, w)
      | Some info \<Rightarrow>
          (case restore_platform_properties (w_platform_properties w) (ap_platform_properties info) of
             None \<Rightarrow> None
           | Some props \<Rightarrow>
               Some (Ok (), w\<lparr>running_action_infos := AList.delete oid (running_action_infos w),
                              w_platform_properties := props, is_paused := False\<rparr>)))"

definition has_actions :: "worker \<Rightarrow> bool" where
  "has_actions w \<longleftrightarrow> running_action_infos w \<noteq> []"

definition can_accept_work :: "worker \<Rightarrow> bool" where
  "can_accept_work w \<longleftrightarrow> \<not> is_paused w \<and> \<not> is_draining w"

section \<open>Resources\<close>

text \<open>What an action takes of a property, and what a worker has of it.\<close>

definition amount :: "platform_properties \<Rightarrow> string \<Rightarrow> nat" where
  "amount ps p = (case map_of ps p of Some (Minimum n) \<Rightarrow> unat n | _ \<Rightarrow> 0)"

definition running_total :: "(operation_id \<times> action_info_with_props) list \<Rightarrow> string \<Rightarrow> nat" where
  "running_total running p =
     sum_list (map (\<lambda>r. amount (ap_platform_properties (snd r)) p) running)"

definition take_amount :: "(u64 \<Rightarrow> u64 \<Rightarrow> u64) \<Rightarrow> platform_properties \<Rightarrow> platform_properties \<Rightarrow> string \<Rightarrow> platform_property_value option" where
  "take_amount f parent ps p =
     (case map_of parent p of
        Some (Minimum m) \<Rightarrow>
          (case map_of ps p of Some (Minimum n) \<Rightarrow> Some (Minimum (f m n)) | _ \<Rightarrow> Some (Minimum m))
      | x \<Rightarrow> x)"

text \<open>Every minimum the action asks for exists on the worker.\<close>

definition covers :: "platform_properties \<Rightarrow> platform_properties \<Rightarrow> bool" where
  "covers parent ps \<longleftrightarrow> (\<forall>p n. map_of ps p = Some (Minimum n) \<longrightarrow> map_of parent p \<noteq> None)"

text \<open>Both loops change the amounts one property at a time.\<close>

fun adjust ::
  "(u64 \<Rightarrow> u64 \<Rightarrow> u64) \<Rightarrow> platform_properties \<Rightarrow> platform_properties \<Rightarrow> platform_properties option" where
  "adjust f parent [] = Some parent"
| "adjust f parent ((p, v) # ps) =
     (case (v, map_of parent p) of
        (Minimum n, None) \<Rightarrow> None
      | (Minimum n, Some (Minimum m)) \<Rightarrow> adjust f (AList.update p (Minimum (f m n)) parent) ps
      | _ \<Rightarrow> adjust f parent ps)"

lemma reduce_adjust: "reduce_platform_properties parent ps = adjust (-) parent ps"
  by (induction parent ps rule: reduce_platform_properties.induct)
    (auto split: platform_property_value.split option.split)

lemma restore_adjust: "restore_platform_properties parent ps = adjust (+) parent ps"
  by (induction parent ps rule: restore_platform_properties.induct)
    (auto split: platform_property_value.split option.split)

lemma adjust_spec:
  assumes "distinct (map fst ps)" and "covers parent ps"
  shows "\<exists>r. adjust f parent ps = Some r \<and> map_of r = take_amount f parent ps"
  using assms
proof (induction ps arbitrary: parent)
  case Nil
  then show ?case
    by (auto simp: take_amount_def fun_eq_iff split: option.split platform_property_value.split)
next
  case (Cons q ps)
  obtain p v where q: "q = (p, v)" by (cases q)
  have none: "map_of ps p = None" using Cons.prems(1) q by (simp add: map_of_eq_None_iff)
  have cov: "covers parent ps"
    unfolding covers_def using Cons.prems(2) none q by (metis covers_def fun_upd_other map_of.simps(2) option.distinct(1) fst_conv)
  have present: "v = Minimum n \<Longrightarrow> map_of parent p \<noteq> None" for n
    using Cons.prems(2) q by (auto simp: covers_def split: if_splits)
  have dist: "distinct (map fst ps)" using Cons.prems(1) by simp
  show ?case
  proof (cases "\<exists>n m. v = Minimum n \<and> map_of parent p = Some (Minimum m)")
    case True
    then obtain n m where v: "v = Minimum n" and m: "map_of parent p = Some (Minimum m)" by blast
    let ?parent = "AList.update p (Minimum (f m n)) parent"
    have "covers ?parent ps" using cov by (auto simp: covers_def map_of_update)
    moreover have "take_amount f ?parent ps = take_amount f parent (q # ps)"
      using none v m q by (auto simp: take_amount_def fun_eq_iff map_of_update
          split: option.split platform_property_value.split)
    ultimately show ?thesis using Cons.IH [OF dist, of ?parent] v m q by simp
  next
    case False
    then have "take_amount f parent (q # ps) = take_amount f parent ps"
      using none q by (auto simp: take_amount_def fun_eq_iff split: option.split platform_property_value.split)
    moreover have "adjust f parent (q # ps) = adjust f parent ps"
      using False present q by (auto split: option.split platform_property_value.split)
    ultimately show ?thesis using Cons.IH [OF dist cov] by simp
  qed
qed

lemma satisfied_covers:
  assumes "wf_props ps" and "is_satisfied_by ps parent"
  shows "covers parent ps"
    and "map_of ps p = Some (Minimum n) \<Longrightarrow> \<exists>m. map_of parent p = Some (Minimum m) \<and> n \<le> m"
proof -
  show *: "\<exists>m. map_of parent p = Some (Minimum m) \<and> n \<le> m" if "map_of ps p = Some (Minimum n)" for p n
    using assms(2) map_of_SomeD [OF that] unfolding is_satisfied_by_iff by fastforce
  then show "covers parent ps" by (fastforce simp: covers_def)
qed

section \<open>Resource accounting\<close>

text \<open>
  With \<open>tot\<close> the properties the worker registered with: every property is what it was, except that
  what is left of a minimum and what the running actions took of it add up to the registered amount.
\<close>

definition resources_ok :: "platform_properties \<Rightarrow> worker \<Rightarrow> bool" where
  "resources_ok tot w \<longleftrightarrow>
     distinct (map fst (running_action_infos w))
     \<and> (\<forall>r \<in> set (running_action_infos w). wf_props (ap_platform_properties (snd r))
          \<and> covers tot (ap_platform_properties (snd r)))
     \<and> (\<forall>p. case map_of tot p of
              Some (Minimum m) \<Rightarrow>
                (\<exists>n. map_of (w_platform_properties w) p = Some (Minimum n)
                     \<and> unat n + running_total (running_action_infos w) p = unat m)
            | x \<Rightarrow> map_of (w_platform_properties w) p = x)"

lemma resources_new: "resources_ok tot (worker_new wid tot tx t)"
  by (auto simp: resources_ok_def worker_new_def running_total_def split: option.split platform_property_value.split)

lemma running_total_Cons [simp]:
  "running_total (r # running) p = amount (ap_platform_properties (snd r)) p + running_total running p"
  by (simp add: running_total_def)

lemma running_total_append [simp]:
  "running_total (xs @ ys) p = running_total xs p + running_total ys p"
  by (simp add: running_total_def)

lemma running_total_delete:
  assumes "distinct (map fst running)" and "map_of running oid = Some info"
  shows "running_total running p = amount (ap_platform_properties info) p + running_total (AList.delete oid running) p"
proof -
  have m: "mset running = add_mset (oid, info) (mset (AList.delete oid running))"
    using mset_filter_remove_key [OF assms] by (simp add: delete_filter)
  have "running_total xs p = (\<Sum>r\<in>#mset xs. amount (ap_platform_properties (snd r)) p)" for xs
    by (simp add: running_total_def flip: sum_mset_sum_list mset_map)
  then show ?thesis by (simp add: m)
qed

lemma resources_cong:
  assumes "running_action_infos w' = running_action_infos w"
    and "w_platform_properties w' = w_platform_properties w"
  shows "resources_ok tot w' \<longleftrightarrow> resources_ok tot w"
  unfolding resources_ok_def assms ..

lemma resources_lookup:
  assumes "resources_ok tot w"
  shows "case map_of tot p of
      Some (Minimum m) \<Rightarrow> (\<exists>n. map_of (w_platform_properties w) p = Some (Minimum n)
          \<and> unat n + running_total (running_action_infos w) p = unat m)
    | x \<Rightarrow> map_of (w_platform_properties w) p = x"
  using assms unfolding resources_ok_def by blast

lemma covers_tot:
  assumes "resources_ok tot w"
  shows "covers (w_platform_properties w) ps \<longleftrightarrow> covers tot ps"
proof -
  have "map_of (w_platform_properties w) p = None \<longleftrightarrow> map_of tot p = None" for p
    using resources_lookup [OF assms, of p] by (auto split: option.splits platform_property_value.splits)
  then show ?thesis by (simp add: covers_def)
qed

lemma send_msg_cases:
  "\<exists>r tx'. send_msg_to_worker m tx = (r, tx') \<and> (r = Ok () \<longleftrightarrow> tx_open tx)"
  by (auto simp: send_msg_to_worker_def)

lemma run_action_resources:
  assumes ok: "resources_ok tot w" and wf: "wf_props (ap_platform_properties info)"
    and sat: "is_satisfied_by (ap_platform_properties info) (w_platform_properties w)"
    and fresh: "map_of (running_action_infos w) oid = None"
  shows "\<exists>r w'. run_action X oid info w = Some (r, w') \<and> resources_ok tot w'
    \<and> running_action_infos w' = running_action_infos w @ [(oid, info)]"
proof -
  let ?ps = "ap_platform_properties info" and ?run = "running_action_infos w @ [(oid, info)]"
  note cov = satisfied_covers [OF wf sat]
  obtain props where props: "reduce_platform_properties (w_platform_properties w) ?ps = Some props"
      "map_of props = take_amount (-) (w_platform_properties w) ?ps"
    using adjust_spec [OF _ cov(1), of "(-)"] wf by (auto simp: reduce_adjust wf_props_def)
  have new: "\<exists>n. map_of props p = Some (Minimum n) \<and> unat n + running_total ?run p = unat m"
    if m: "map_of tot p = Some (Minimum m)" for p m
  proof -
    from resources_lookup [OF ok, of p] m obtain n where
      n: "map_of (w_platform_properties w) p = Some (Minimum n)"
        "unat n + running_total (running_action_infos w) p = unat m" by auto
    show ?thesis
    proof (cases "\<exists>k. map_of ?ps p = Some (Minimum k)")
      case True
      then obtain k where k: "map_of ?ps p = Some (Minimum k)" by blast
      with cov(2) n have "k \<le> n" by fastforce
      then have "unat (n - k) = unat n - unat k" "unat k \<le> unat n"
        by (simp_all add: unat_sub word_le_nat_alt)
      with n k show ?thesis
        by (simp add: props(2) take_amount_def amount_def running_total_def)
    next
      case False
      with n show ?thesis
        by (auto simp: props(2) take_amount_def amount_def running_total_def
            split: option.splits platform_property_value.splits)
    qed
  qed
  have old: "map_of props p = map_of tot p" if "\<forall>m. map_of tot p \<noteq> Some (Minimum m)" for p
    using that resources_lookup [OF ok, of p]
    by (auto simp: props(2) take_amount_def split: option.splits platform_property_value.splits)
  have upd: "AList.update oid info (running_action_infos w) = ?run"
    using fresh by (simp add: update_fresh map_of_eq_None_iff)
  obtain r w' where run: "run_action X oid info w = Some (r, w')"
    and w': "running_action_infos w' = ?run" "w_platform_properties w' = props"
    using that by (simp add: run_action_def props(1) upd Let_def split_beta)
  have "resources_ok tot w'"
    unfolding resources_ok_def w'
  proof (intro conjI allI)
    show "distinct (map fst ?run)"
      using ok fresh by (auto simp: resources_ok_def map_of_eq_None_iff)
    show "\<forall>r\<in>set ?run. wf_props (ap_platform_properties (snd r)) \<and> covers tot (ap_platform_properties (snd r))"
      using ok wf cov(1) covers_tot [OF ok] by (auto simp: resources_ok_def)
    show "case map_of tot p of
        Some (Minimum m) \<Rightarrow> \<exists>n. map_of props p = Some (Minimum n) \<and> unat n + running_total ?run p = unat m
      | x \<Rightarrow> map_of props p = x" for p
      using new [of p] old [of p] by (auto split: option.split platform_property_value.split)
  qed
  with run w' show ?thesis by blast
qed

lemma complete_action_resources:
  assumes ok: "resources_ok tot w" and run: "map_of (running_action_infos w) oid = Some info"
  shows "\<exists>w'. complete_action oid w = Some (Ok (), w') \<and> resources_ok tot w'
    \<and> running_action_infos w' = AList.delete oid (running_action_infos w) \<and> \<not> is_paused w'"
proof -
  let ?ps = "ap_platform_properties info" and ?rest = "AList.delete oid (running_action_infos w)"
  have dist: "distinct (map fst (running_action_infos w))" using ok by (simp add: resources_ok_def)
  have wf: "wf_props ?ps" and cov: "covers tot ?ps"
    using ok map_of_SomeD [OF run] by (auto simp: resources_ok_def)
  obtain props where props: "restore_platform_properties (w_platform_properties w) ?ps = Some props"
      "map_of props = take_amount (+) (w_platform_properties w) ?ps"
    using adjust_spec [of ?ps "w_platform_properties w" "(+)"] wf cov covers_tot [OF ok]
    by (auto simp: restore_adjust wf_props_def)
  have new: "\<exists>n. map_of props p = Some (Minimum n) \<and> unat n + running_total ?rest p = unat m"
    if m: "map_of tot p = Some (Minimum m)" for p m
  proof -
    from resources_lookup [OF ok, of p] m obtain n where
      n: "map_of (w_platform_properties w) p = Some (Minimum n)"
        "unat n + running_total (running_action_infos w) p = unat m" by auto
    note del = running_total_delete [OF dist run, of p]
    show ?thesis
    proof (cases "\<exists>k. map_of ?ps p = Some (Minimum k)")
      case True
      then obtain k where k: "map_of ?ps p = Some (Minimum k)" by blast
      then have "unat n + unat k \<le> unat m" using n del by (simp add: amount_def)
      then have "unat (n + k) = unat n + unat k"
        using unsigned_less [of m, where ?'a = nat] by (intro iffD1 [OF unat_add_lem]) simp
      with n k del show ?thesis
        by (simp add: props(2) take_amount_def amount_def)
    next
      case False
      then have "map_of props p = Some (Minimum n)" "amount ?ps p = 0"
        using n by (auto simp: props(2) take_amount_def amount_def split: option.split platform_property_value.split)
      with n del show ?thesis by simp
    qed
  qed
  have old: "map_of props p = map_of tot p" if "\<forall>m. map_of tot p \<noteq> Some (Minimum m)" for p
    using that resources_lookup [OF ok, of p]
    by (auto simp: props(2) take_amount_def split: option.splits platform_property_value.splits)
  obtain w' where com: "complete_action oid w = Some (Ok (), w')" "\<not> is_paused w'"
    and w': "running_action_infos w' = ?rest" "w_platform_properties w' = props"
    using that by (simp add: complete_action_def props(1) run)
  have "resources_ok tot w'"
    unfolding resources_ok_def w'
  proof (intro conjI allI)
    show "distinct (map fst ?rest)" using dist by (rule distinct_keys_delete)
    show "\<forall>r\<in>set ?rest. wf_props (ap_platform_properties (snd r)) \<and> covers tot (ap_platform_properties (snd r))"
      using ok by (auto simp: resources_ok_def delete_filter)
    show "case map_of tot p of
        Some (Minimum m) \<Rightarrow> \<exists>n. map_of props p = Some (Minimum n) \<and> unat n + running_total ?rest p = unat m
      | x \<Rightarrow> map_of props p = x" for p
      using new [of p] old [of p] by (auto split: option.split platform_property_value.split)
  qed
  with com w' show ?thesis by blast
qed

section \<open>Life of a worker\<close>

text \<open>
  The calls the scheduler makes on a worker: an action is run when the worker's properties satisfy
  it and its operation is not running there yet; an operation can be completed at any time.
\<close>

inductive worker_run :: "'w ext \<Rightarrow> platform_properties \<Rightarrow> worker \<Rightarrow> bool" for X tot where
  registered: "worker_run X tot (worker_new wid tot tx t)"
| run: "worker_run X tot w \<Longrightarrow> wf_props (ap_platform_properties info)
    \<Longrightarrow> is_satisfied_by (ap_platform_properties info) (w_platform_properties w)
    \<Longrightarrow> map_of (running_action_infos w) oid = None
    \<Longrightarrow> run_action X oid info w = Some (r, w') \<Longrightarrow> worker_run X tot w'"
| complete: "worker_run X tot w \<Longrightarrow> complete_action oid w = Some (r, w') \<Longrightarrow> worker_run X tot w'"
| alive: "worker_run X tot w \<Longrightarrow> keep_alive w = (r, w') \<Longrightarrow> worker_run X tot w'"

lemma worker_run_resources: "worker_run X tot w \<Longrightarrow> resources_ok tot w"
proof (induction rule: worker_run.induct)
  case (registered wid tx t)
  show ?case by (rule resources_new)
next
  case (run w info oid r w')
  then show ?case using run_action_resources [of tot w info oid X] by force
next
  case (complete w oid r w')
  then show ?case
  proof (cases "map_of (running_action_infos w) oid")
    case None
    with complete show ?thesis by (simp add: complete_action_def)
  next
    case (Some info)
    with complete complete_action_resources [OF complete.IH Some] show ?thesis by auto
  qed
next
  case (alive w r w')
  then have "w' = w\<lparr>w_tx := snd (send_msg_to_worker KeepAlive (w_tx w))\<rparr>"
    by (simp add: keep_alive_def split_beta)
  with alive.IH show ?case using resources_cong [of w' w tot] by simp
qed

section \<open>Properties\<close>


definition idle_action :: action_info where
  "idle_action =
     \<lparr>command_digest = zero_digest, input_root_digest = zero_digest, timeout = 0,
      ai_platform_properties = [(''cpu'', ''3'')], priority = 0, load_timestamp = 0, insert_timestamp = 0,
      unique_qualifier = Cachable \<lparr>key_instance_name = [], key_digest_function = Sha256,
                                    key_digest = zero_digest\<rparr>\<rparr>"

definition cpu_action :: "u64 \<Rightarrow> action_info_with_props" where
  "cpu_action n = \<lparr>ap_inner = idle_action, ap_platform_properties = [(''cpu'', Minimum n)]\<rparr>"

definition cpu_worker :: "worker" where
  "cpu_worker = worker_new (WorkerId 1) [(''cpu'', Minimum 8)] \<lparr>tx_open = True, tx_sent = []\<rparr> 0"


text \<open>
  Running an operation twice leaks resources. If \<open>run_action\<close> is called again for an operation
  that the worker already runs, the entry is overwritten while the properties are reduced a second
  time, and the single completion gives the amount back once: the worker then runs nothing and has
  lost the amount for good.
\<close>

theorem run_action_twice_leaks:
  assumes "w = worker_new wid [(p, Minimum m)] tx t" and "ap_platform_properties info = [(p, Minimum n)]"
    and "run_action X oid info w = Some (r1, w1)" and "run_action X oid info w1 = Some (r2, w2)"
    and "complete_action oid w2 = Some (r3, w3)"
  shows "\<not> has_actions w3 \<and> map_of (w_platform_properties w3) p = Some (Minimum (m - n))"
  using assms
  by (auto simp: worker_new_def run_action_def complete_action_def has_actions_def Let_def split: prod.splits)

theorem run_action_twice_leaks_witness:
  "\<exists>r1 w1 r2 w2 r3 w3. run_action ref_ext (Op_Uuid 1) (cpu_action 3) cpu_worker = Some (r1, w1)
     \<and> run_action ref_ext (Op_Uuid 1) (cpu_action 3) w1 = Some (r2, w2)
     \<and> complete_action (Op_Uuid 1) w2 = Some (r3, w3)
     \<and> map_of (w_platform_properties w3) ''cpu'' = Some (Minimum (8 - 3))"
proof -
  obtain r1 w1 r2 w2 r3 w3 where
    "run_action ref_ext (Op_Uuid 1) (cpu_action 3) cpu_worker = Some (r1, w1)"
    "run_action ref_ext (Op_Uuid 1) (cpu_action 3) w1 = Some (r2, w2)"
    "complete_action (Op_Uuid 1) w2 = Some (r3, w3)"
    by (auto simp: run_action_def complete_action_def cpu_action_def cpu_worker_def worker_new_def
        send_msg_to_worker_def)
  with run_action_twice_leaks [OF cpu_worker_def, of "cpu_action 3" 3 ref_ext "Op_Uuid 1" r1 w1 r2 w2 r3 w3]
  show ?thesis by (auto simp: cpu_action_def)
qed

end
