(* ===== verification/Api_Worker_Scheduler.thy ===== *)
theory Api_Worker_Scheduler
  imports Sched_Worker Lru_Cache
begin

text \<open>
  \<open>ApiWorkerScheduler\<close> (nativelink-scheduler/src/api_worker_scheduler.rs): the pool of workers. The
  pool is an \<open>LruCache\<close>, so its operations are the parameter \<open>L\<close>; the \<open>WorkerStateManager\<close> it
  reports to is the parameter \<open>upd\<close> with a state of its own, \<open>'s\<close>. \<open>change_permit\<close> is the permit of
  the \<open>Notify\<close>, \<open>keep_alive_queue\<close> the contents of the keep-alive channel, and \<open>dropped_workers\<close>
  records the workers that were taken out of the pool, with the messages sent to them. An outer
  \<open>None\<close> is a panic. Every method holds the mutex for its whole body.
\<close>

section \<open>State\<close>

datatype update_operation_type =
    Update_KeepAlive
  | UpdateWithActionStage action_stage
  | UpdateWithError error

datatype allocation_strategy = Least_recently_used | Most_recently_used

type_synonym 's update_fn = "operation_id \<Rightarrow> worker_id \<Rightarrow> update_operation_type \<Rightarrow> 's \<Rightarrow> unit result \<times> 's"

record 'c api_sched =
  workers :: 'c
  change_permit :: bool
  keep_alive_queue :: "(operation_id \<times> worker_id) list"
  dropped_workers :: "worker list"

type_synonym 'c pool_ops = "(worker_id, worker, 'c) lru_ops"

section \<open>Operations\<close>

definition refresh_lifetime ::
  "'c pool_ops \<Rightarrow> worker_id \<Rightarrow> u64 \<Rightarrow> 'c api_sched \<Rightarrow> unit result \<times> 'c api_sched" where
  "refresh_lifetime L wid timestamp s =
     (case lru_peek L wid (workers s) of
        None \<Rightarrow> (Err (make_input_err ''Worker not found in worker map in refresh_lifetime()''), s)
      | Some w \<Rightarrow>
          if timestamp < last_update_timestamp w
          then (Err (make_err InvalidArgument ''Worker already had a timestamp''), s)
          else (Ok (), s\<lparr>workers := lru_write L wid (w\<lparr>last_update_timestamp := timestamp\<rparr>) (workers s),
                         keep_alive_queue := keep_alive_queue s
                           @ map (\<lambda>r. (fst r, wid)) (running_action_infos w)\<rparr>))"

definition inner_add_worker ::
  "'w ext \<Rightarrow> 'c pool_ops \<Rightarrow> worker \<Rightarrow> 'c api_sched \<Rightarrow> (unit result \<times> 'c api_sched) option" where
  "inner_add_worker X L w s =
     (let (_, c) = lru_put L (w_id w) w (workers s)
      in case lru_peek L (w_id w) c of
           None \<Rightarrow> None
         | Some w' \<Rightarrow>
             let (res, w'') = send_initial_connection_result X w'
             in Some (err_tip ''Failed to send initial connection result to worker'' res,
                      s\<lparr>workers := lru_write L (w_id w) w'' c, change_permit := True\<rparr>))"

definition inner_remove_worker ::
  "'c pool_ops \<Rightarrow> worker_id \<Rightarrow> 'c api_sched \<Rightarrow> worker option \<times> 'c api_sched" where
  "inner_remove_worker L wid s =
     (let (result, c) = lru_pop L wid (workers s)
      in (result, s\<lparr>workers := c, change_permit := True\<rparr>))"

definition set_drain_worker ::
  "'c pool_ops \<Rightarrow> worker_id \<Rightarrow> bool \<Rightarrow> 'c api_sched \<Rightarrow> unit result \<times> 'c api_sched" where
  "set_drain_worker L wid draining s =
     (case lru_get L wid (workers s) of
        (None, c) \<Rightarrow> (opt_err_tip ''Worker does not exist in the pool'' None, s\<lparr>workers := c\<rparr>)
      | (Some w, c) \<Rightarrow>
          (Ok (), s\<lparr>workers := lru_write L wid (w\<lparr>is_draining := draining\<rparr>) c, change_permit := True\<rparr>))"

definition worker_fits :: "platform_properties \<Rightarrow> worker \<Rightarrow> bool" where
  "worker_fits props w \<longleftrightarrow> can_accept_work w \<and> is_satisfied_by props (w_platform_properties w)"

definition inner_find_worker_for_action ::
  "'c pool_ops \<Rightarrow> allocation_strategy \<Rightarrow> platform_properties \<Rightarrow> 'c api_sched \<Rightarrow> worker_id option" where
  "inner_find_worker_for_action L strategy props s =
     (let workers_iter = lru_iter L (workers s);
          found = (case strategy of
                     Least_recently_used \<Rightarrow> List.find (\<lambda>p. worker_fits props (snd p)) (rev workers_iter)
                   | Most_recently_used \<Rightarrow> List.find (\<lambda>p. worker_fits props (snd p)) workers_iter)
      in map_option (\<lambda>p. w_id (snd p)) found)"

fun fail_running ::
  "'s update_fn \<Rightarrow> worker_id \<Rightarrow> error \<Rightarrow> (operation_id \<times> action_info_with_props) list
     \<Rightarrow> unit result \<Rightarrow> 's \<Rightarrow> unit result \<times> 's" where
  "fail_running upd wid err [] result st = (result, st)"
| "fail_running upd wid err ((oid, _) # rest) result st =
     (let (r, st') = upd oid wid (UpdateWithError err) st
      in fail_running upd wid err rest (result_merge result r) st')"

definition immediate_evict_worker ::
  "'w ext \<Rightarrow> 'c pool_ops \<Rightarrow> 's update_fn \<Rightarrow> worker_id \<Rightarrow> error \<Rightarrow> 'c api_sched \<Rightarrow> 's
     \<Rightarrow> (unit result \<times> 'c api_sched \<times> 's) option" where
  "immediate_evict_worker X L upd wid err s st =
     (case inner_remove_worker L wid s of
        (None, s1) \<Rightarrow> Some (Ok (), s1\<lparr>change_permit := True\<rparr>, st)
      | (Some w, s1) \<Rightarrow>
          (case notify_update X Disconnect w of
             None \<Rightarrow> None
           | Some (_, w') \<Rightarrow>
               let (result, st') = fail_running upd wid err (running_action_infos w') (Ok ()) st
               in Some (result, s1\<lparr>change_permit := True,
                                   dropped_workers := dropped_workers s1 @ [w'\<lparr>running_action_infos := []\<rparr>]\<rparr>,
                        st')))"

definition update_action ::
  "'w ext \<Rightarrow> 'c pool_ops \<Rightarrow> 's update_fn \<Rightarrow> worker_id \<Rightarrow> operation_id \<Rightarrow> update_operation_type
     \<Rightarrow> 'c api_sched \<Rightarrow> 's \<Rightarrow> (unit result \<times> 'c api_sched \<times> 's) option" where
  "update_action X L upd wid oid update s st =
     (case lru_get L wid (workers s) of
        (None, c) \<Rightarrow>
          Some (opt_err_tip ''Worker does not exist in SimpleScheduler::update_action'' None, s\<lparr>workers := c\<rparr>, st)
      | (Some w, c) \<Rightarrow>
          let s1 = s\<lparr>workers := c\<rparr>
          in if map_of (running_action_infos w) oid = None
             then let err = make_err Internal ''Operation should not be running on worker in SimpleScheduler::update_action''
                  in map_option (\<lambda>(r, s2, st2). (result_merge (Err err :: unit result) r, s2, st2))
                       (immediate_evict_worker X L upd wid err s1 st)
             else let (finished, due_to_backpressure) =
                    (case update of
                       UpdateWithActionStage action_stage \<Rightarrow> (is_finished action_stage, False)
                     | Update_KeepAlive \<Rightarrow> (False, False)
                     | UpdateWithError err \<Rightarrow> (True, code err = ResourceExhausted))
                  in case upd oid wid update st of
                       (Inl err, st') \<Rightarrow>
                         Some (err_tip ''in update_operation on SimpleScheduler::update_action'' (Err err), s1, st')
                     | (Inr _, st') \<Rightarrow>
                         if \<not> finished then Some (Ok (), s1, st')
                         else (case complete_action oid w of
                                 None \<Rightarrow> None
                               | Some (complete_res, w1) \<Rightarrow>
                                   let was_paused = (\<not> can_accept_work w);
                                       w2 = (if (was_paused \<or> due_to_backpressure) \<and> has_actions w1
                                             then w1\<lparr>is_paused := True\<rparr> else w1)
                                   in Some (complete_res,
                                            s1\<lparr>workers := lru_write L wid w2 (workers s1), change_permit := True\<rparr>,
                                            st')))"

definition worker_notify_run_action ::
  "'w ext \<Rightarrow> 'c pool_ops \<Rightarrow> 's update_fn \<Rightarrow> worker_id \<Rightarrow> operation_id \<Rightarrow> action_info_with_props
     \<Rightarrow> 'c api_sched \<Rightarrow> 's \<Rightarrow> (unit result \<times> 'c api_sched \<times> 's) option" where
  "worker_notify_run_action X L upd wid oid info s st =
     (case lru_get L wid (workers s) of
        (None, c) \<Rightarrow> Some (Ok (), s\<lparr>workers := c\<rparr>, st)
      | (Some w, c) \<Rightarrow>
          (case notify_update X (RunAction oid info) w of
             None \<Rightarrow> None
           | Some (r, w') \<Rightarrow>
               let s1 = s\<lparr>workers := lru_write L wid w' c\<rparr>
               in if \<not> is_ok r
                  then let err = make_err Internal ''Worker command failed, removing worker''
                       in map_option (\<lambda>(r2, s2, st2). (result_merge (Err err :: unit result) r2, s2, st2))
                            (immediate_evict_worker X L upd wid err s1 st)
                  else Some (Ok (), s1, st)))"

definition add_worker ::
  "'w ext \<Rightarrow> 'c pool_ops \<Rightarrow> 's update_fn \<Rightarrow> worker \<Rightarrow> 'c api_sched \<Rightarrow> 's
     \<Rightarrow> (unit result \<times> 'c api_sched \<times> 's) option" where
  "add_worker X L upd w s st =
     (case inner_add_worker X L w s of
        None \<Rightarrow> None
      | Some (result, s1) \<Rightarrow>
          (case err_tip ''Error while adding worker, removing from pool'' result of
             Inl err \<Rightarrow>
               map_option (\<lambda>(r, s2, st2). (result_merge (Err err :: unit result) r, s2, st2))
                 (immediate_evict_worker X L upd (w_id w) err s1 st)
           | Inr _ \<Rightarrow> Some (Ok (), s1, st)))"

definition worker_keep_alive_received ::
  "'c pool_ops \<Rightarrow> worker_id \<Rightarrow> u64 \<Rightarrow> 'c api_sched \<Rightarrow> unit result \<times> 'c api_sched" where
  "worker_keep_alive_received L wid timestamp s =
     (let (r, s') = refresh_lifetime L wid timestamp s
      in (err_tip ''Error refreshing lifetime in worker_keep_alive_received()'' r, s'))"

definition remove_worker ::
  "'w ext \<Rightarrow> 'c pool_ops \<Rightarrow> 's update_fn \<Rightarrow> worker_id \<Rightarrow> 'c api_sched \<Rightarrow> 's
     \<Rightarrow> (unit result \<times> 'c api_sched \<times> 's) option" where
  "remove_worker X L upd wid s st =
     immediate_evict_worker X L upd wid (make_err Internal ''Received request to remove worker'') s st"

fun evict_all ::
  "'w ext \<Rightarrow> 'c pool_ops \<Rightarrow> 's update_fn \<Rightarrow> worker_id list \<Rightarrow> unit result \<Rightarrow> 'c api_sched \<Rightarrow> 's
     \<Rightarrow> (unit result \<times> 'c api_sched \<times> 's) option" where
  "evict_all X L upd [] result s st = Some (result, s, st)"
| "evict_all X L upd (wid # wids) result s st =
     (case immediate_evict_worker X L upd wid
             (make_err Internal ''Worker timed out, removing from pool'') s st of
        None \<Rightarrow> None
      | Some (r, s', st') \<Rightarrow> evict_all X L upd wids (result_merge result r) s' st')"

definition timedout_workers :: "'c pool_ops \<Rightarrow> u64 \<Rightarrow> u64 \<Rightarrow> 'c api_sched \<Rightarrow> worker_id list" where
  "timedout_workers L worker_timeout_s now_timestamp s =
     map fst (takeWhile (\<lambda>p. last_update_timestamp (snd p) \<le> now_timestamp - worker_timeout_s)
                (rev (lru_iter L (workers s))))"

definition remove_timedout_workers ::
  "'w ext \<Rightarrow> 'c pool_ops \<Rightarrow> 's update_fn \<Rightarrow> u64 \<Rightarrow> u64 \<Rightarrow> 'c api_sched \<Rightarrow> 's
     \<Rightarrow> (unit result \<times> 'c api_sched \<times> 's) option" where
  "remove_timedout_workers X L upd worker_timeout_s now_timestamp s st =
     evict_all X L upd (timedout_workers L worker_timeout_s now_timestamp s) (Ok ()) s st"

text \<open>One batch of the task that forwards the keep-alive channel; errors are only logged.\<close>

fun forward_keep_alives :: "'s update_fn \<Rightarrow> (operation_id \<times> worker_id) list \<Rightarrow> 's \<Rightarrow> 's" where
  "forward_keep_alives upd [] st = st"
| "forward_keep_alives upd ((oid, wid) # msgs) st =
     forward_keep_alives upd msgs (snd (upd oid wid Update_KeepAlive st))"

definition keep_alive_batch :: "'s update_fn \<Rightarrow> 'c api_sched \<Rightarrow> 's \<Rightarrow> 'c api_sched \<times> 's" where
  "keep_alive_batch upd s st =
     (s\<lparr>keep_alive_queue := drop 256 (keep_alive_queue s)\<rparr>,
      forward_keep_alives upd (take 256 (keep_alive_queue s)) st)"

definition api_sched_new :: "'c pool_ops \<Rightarrow> 'c api_sched" where
  "api_sched_new L =
     \<lparr>workers = lru_unbounded L, change_permit = False, keep_alive_queue = [], dropped_workers = []\<rparr>"

section \<open>The pool\<close>

definition pool :: "'c pool_ops \<Rightarrow> 'c api_sched \<Rightarrow> (worker_id \<times> worker) list" where
  "pool L s = lru_iter L (workers s)"

definition ids_ok :: "'c pool_ops \<Rightarrow> 'c api_sched \<Rightarrow> bool" where
  "ids_ok L s \<longleftrightarrow> (\<forall>p \<in> set (pool L s). w_id (snd p) = fst p)"

lemma find_first:
  "List.find P xs = Some x \<Longrightarrow> \<exists>us vs. xs = us @ x # vs \<and> P x \<and> (\<forall>u \<in> set us. \<not> P u)"
proof (induction xs)
  case Nil
  then show ?case by simp
next
  case (Cons y ys)
  show ?case
  proof (cases "P y")
    case True
    with Cons.prems have "y # ys = [] @ x # ys \<and> P x" by simp
    then show ?thesis by (metis empty_iff empty_set)
  next
    case False
    with Cons.prems Cons.IH obtain us vs where "ys = us @ x # vs" "P x" "\<forall>u\<in>set us. \<not> P u" by auto
    with False have "y # ys = (y # us) @ x # vs \<and> P x \<and> (\<forall>u\<in>set (y # us). \<not> P u)" by simp
    then show ?thesis by blast
  qed
qed

lemma fail_running_state:
  "snd (fail_running upd wid err running result st)
     = foldl (\<lambda>st oid. snd (upd oid wid (UpdateWithError err) st)) st (map fst running)"
  by (induction running arbitrary: result st) (auto simp: split_beta Let_def)

lemma evict_pool:
  assumes "lru_cache L"
  shows "\<exists>r s' st'. immediate_evict_worker X L upd wid err s st = Some (r, s', st')
    \<and> pool L s' = drop_key wid (pool L s) \<and> change_permit s'
    \<and> st' = (case map_of (pool L s) wid of
               None \<Rightarrow> st
             | Some w \<Rightarrow> foldl (\<lambda>st oid. snd (upd oid wid (UpdateWithError err) st)) st
                          (map fst (running_action_infos w)))
    \<and> keep_alive_queue s' = keep_alive_queue s"
proof -
  obtain r c where pop: "lru_pop L wid (workers s) = (r, c)" by (cases "lru_pop L wid (workers s)")
  have r: "r = map_of (pool L s) wid" and c: "lru_iter L c = drop_key wid (pool L s)"
    using lru_cache.pop_value [OF assms, of wid "workers s"] lru_cache.pop_iter [OF assms, of wid "workers s"] pop
    by (simp_all add: pool_def)
  show ?thesis
  proof (cases r)
    case None
    with pop r c show ?thesis
      by (simp add: immediate_evict_worker_def inner_remove_worker_def pool_def)
  next
    case (Some w)
    have "running_action_infos (w\<lparr>w_tx := tx\<rparr>) = running_action_infos w" for tx by simp
    with Some pop r c show ?thesis
      by (auto simp: immediate_evict_worker_def inner_remove_worker_def notify_update_def pool_def
          Let_def split_beta fail_running_state)
  qed
qed

lemma ids_ok_drop: "ids_ok L s \<Longrightarrow> pool L s' = drop_key wid (pool L s) \<Longrightarrow> ids_ok L s'"
  by (auto simp: ids_ok_def drop_key_def)

lemma evict_all_pool:
  assumes "lru_cache L"
  shows "\<exists>r s' st'. evict_all X L upd wids result s st = Some (r, s', st')
    \<and> pool L s' = filter (\<lambda>p. fst p \<notin> set wids) (pool L s)"
proof (induction wids arbitrary: result s st)
  case Nil
  then show ?case by simp
next
  case (Cons wid wids)
  obtain r s1 st1 where ev: "immediate_evict_worker X L upd wid
      (make_err Internal ''Worker timed out, removing from pool'') s st = Some (r, s1, st1)"
    and pl: "pool L s1 = drop_key wid (pool L s)"
    using evict_pool [OF assms, of X upd wid "make_err Internal ''Worker timed out, removing from pool''" s st]
    by blast
  obtain r2 s2 st2 where ev2: "evict_all X L upd wids (result_merge result r) s1 st1 = Some (r2, s2, st2)"
    and pl2: "pool L s2 = filter (\<lambda>p. fst p \<notin> set wids) (pool L s1)"
    using Cons.IH by blast
  have "pool L s2 = filter (\<lambda>p. fst p \<notin> set (wid # wids)) (pool L s)"
    unfolding pl2 pl drop_key_def filter_filter by (rule filter_cong) auto
  with ev ev2 show ?case by simp
qed

lemma takeWhile_sorted:
  "sorted_wrt (\<lambda>x y. f x \<le> f y) xs \<Longrightarrow> takeWhile (\<lambda>x. f x \<le> (t :: 'a :: linorder)) xs = filter (\<lambda>x. f x \<le> t) xs"
proof (induction xs)
  case Nil
  then show ?case by simp
next
  case (Cons x xs)
  then show ?case by (auto intro!: filter_False [symmetric] dest: order_trans)
qed

text \<open>What an update says about the operation.\<close>

fun update_finishes :: "update_operation_type \<Rightarrow> bool" where
  "update_finishes Update_KeepAlive = False"
| "update_finishes (UpdateWithActionStage st) = is_finished st"
| "update_finishes (UpdateWithError e) = True"

fun update_backpressure :: "update_operation_type \<Rightarrow> bool" where
  "update_backpressure (UpdateWithError e) = (code e = ResourceExhausted)"
| "update_backpressure _ = False"

section \<open>Properties\<close>

lemma find_worker_fits:
  assumes "ids_ok L s"
  shows "case inner_find_worker_for_action L strategy props s of
      None \<Rightarrow> \<not> (\<exists>p \<in> set (pool L s). worker_fits props (snd p))
    | Some wid \<Rightarrow>
        (\<exists>newer w older. pool L s = newer @ (wid, w) # older \<and> worker_fits props w
           \<and> \<not> (\<exists>p \<in> set (case strategy of Least_recently_used \<Rightarrow> older | Most_recently_used \<Rightarrow> newer).
                  worker_fits props (snd p)))"
proof -
  let ?P = "\<lambda>p. worker_fits props (snd p)"
  have id: "w_id (snd p) = fst p" if "p \<in> set (pool L s)" for p
    using assms that by (simp add: ids_ok_def)
  show ?thesis
  proof (cases strategy)
    case Least_recently_used
    show ?thesis
    proof (cases "List.find ?P (rev (pool L s))")
      case None
      then have "\<not> (\<exists>p \<in> set (pool L s). ?P p)" by (auto simp: find_None_iff)
      with None Least_recently_used show ?thesis
        by (simp add: inner_find_worker_for_action_def flip: pool_def)
    next
      case (Some p)
      from find_first [OF this] obtain us vs where rv: "rev (pool L s) = us @ p # vs" and p: "?P p" "\<forall>u\<in>set us. \<not> ?P u"
        by blast
      have pl: "pool L s = rev vs @ p # rev us" using arg_cong [OF rv, of rev] by simp
      then have "w_id (snd p) = fst p" using id [of p] by simp
      with Some Least_recently_used have eq: "inner_find_worker_for_action L strategy props s = Some (fst p)"
        by (simp add: inner_find_worker_for_action_def flip: pool_def)
      show ?thesis
        unfolding eq option.case
        by (rule exI [of _ "rev vs"], rule exI [of _ "snd p"], rule exI [of _ "rev us"])
          (use pl p Least_recently_used in simp)
    qed
  next
    case Most_recently_used
    show ?thesis
    proof (cases "List.find ?P (pool L s)")
      case None
      then have "\<not> (\<exists>p \<in> set (pool L s). ?P p)" by (auto simp: find_None_iff)
      with None Most_recently_used show ?thesis
        by (simp add: inner_find_worker_for_action_def flip: pool_def)
    next
      case (Some p)
      from find_first [OF this] obtain us vs where pl: "pool L s = us @ p # vs" and p: "?P p" "\<forall>u\<in>set us. \<not> ?P u"
        by blast
      then have "w_id (snd p) = fst p" using id [of p] by simp
      with Some Most_recently_used have eq: "inner_find_worker_for_action L strategy props s = Some (fst p)"
        by (simp add: inner_find_worker_for_action_def flip: pool_def)
      show ?thesis
        unfolding eq option.case
        by (rule exI [of _ "us"], rule exI [of _ "snd p"], rule exI [of _ "vs"])
          (use pl p Most_recently_used in simp)
    qed
  qed
qed

text \<open>A worker that may be chosen: it takes work, and each property is equal, large enough, or only a wish.\<close>

definition worker_suits :: "platform_properties \<Rightarrow> worker \<Rightarrow> bool" where
  "worker_suits props w \<longleftrightarrow> \<not> is_paused w \<and> \<not> is_draining w \<and>
     (\<forall>(k, v) \<in> set props. \<exists>v'. map_of (w_platform_properties w) k = Some v' \<and>
        (v = v' \<or> (\<exists>n m. v = Minimum n \<and> v' = Minimum m \<and> n \<le> m) \<or> (\<exists>p. v = Priority p)))"

lemma worker_fits_suits: "worker_fits props w = worker_suits props w"
proof -
  have "value_is_satisfied_by v v' \<longleftrightarrow> v = v' \<or> (\<exists>n m. v = Minimum n \<and> v' = Minimum m \<and> n \<le> m) \<or> (\<exists>p. v = Priority p)" for v v'
    by (cases v; cases v') (auto simp: value_is_satisfied_by.simps)
  then show ?thesis by (simp add: worker_fits_def can_accept_work_def is_satisfied_by_iff worker_suits_def)
qed

text \<open>
  C19. Worker selection. \<open>find_worker_for_action\<close> returns nothing exactly when no worker that accepts
  work has the properties; otherwise it returns a worker that accepts work and satisfies them, and
  no other such worker was used less recently (more recently, for the other strategy).
\<close>

theorem find_worker_for_action_correct:
  assumes "ids_ok L s"
  shows "case inner_find_worker_for_action L strategy props s of
      None \<Rightarrow> \<not> (\<exists>p \<in> set (pool L s). worker_suits props (snd p))
    | Some wid \<Rightarrow>
        (\<exists>newer w older. pool L s = newer @ (wid, w) # older \<and> worker_suits props w
           \<and> \<not> (\<exists>p \<in> set (case strategy of Least_recently_used \<Rightarrow> older | Most_recently_used \<Rightarrow> newer).
                  worker_suits props (snd p)))"
  using find_worker_fits [OF assms, of props strategy] by (simp only: worker_fits_suits)

definition sample_pool :: "(worker_id \<times> worker) list api_sched" where
  "sample_pool =
     \<lparr>workers = [(WorkerId 2, worker_new (WorkerId 2) [(''cpu'', Minimum 2)] \<lparr>tx_open = True, tx_sent = []\<rparr> 40),
                 (WorkerId 1, cpu_worker\<lparr>running_action_infos := [(Op_Uuid 7, cpu_action 3)]\<rparr>)],
      change_permit = False, keep_alive_queue = [], dropped_workers = []\<rparr>"

text \<open>A state manager that accepts everything and records the calls.\<close>

definition log_upd :: "(operation_id \<times> worker_id \<times> update_operation_type) list update_fn" where
  "log_upd oid wid u st = (Ok (), st @ [(oid, wid, u)])"

lemma sample_pool_eq:
  "pool list_lru sample_pool =
     [(WorkerId 2, worker_new (WorkerId 2) [(''cpu'', Minimum 2)] \<lparr>tx_open = True, tx_sent = []\<rparr> 40),
      (WorkerId 1, cpu_worker\<lparr>running_action_infos := [(Op_Uuid 7, cpu_action 3)]\<rparr>)]"
  by (simp add: pool_def sample_pool_def list_lru_def)

theorem find_worker_for_action_correct_witness:
  "inner_find_worker_for_action list_lru Least_recently_used [(''cpu'', Minimum 4)] sample_pool = Some (WorkerId 1)
   \<and> (\<exists>newer w older. pool list_lru sample_pool = newer @ (WorkerId 1, w) # older
        \<and> worker_suits [(''cpu'', Minimum 4)] w)"
proof -
  have found: "inner_find_worker_for_action list_lru Least_recently_used [(''cpu'', Minimum 4)] sample_pool
      = Some (WorkerId 1)"
    by (simp add: inner_find_worker_for_action_def sample_pool_eq worker_fits_def can_accept_work_def
        worker_new_def cpu_worker_def flip: pool_def)
  have "ids_ok list_lru sample_pool"
    by (simp add: ids_ok_def sample_pool_eq worker_new_def cpu_worker_def)
  from find_worker_for_action_correct [OF this, of "[(''cpu'', Minimum 4)]" Least_recently_used] found
  show ?thesis by auto
qed

text \<open>
  C20. Evicting a worker reports all of its operations. Whatever the state manager answers,
  \<open>immediate_evict_worker\<close> takes exactly that worker out of the pool and sends the state manager one
  error update for each operation the worker was running, under that worker's id, and no other update;
  the matching engine is notified.
\<close>

theorem immediate_evict_worker_reports_all:
  assumes "lru_cache L"
  shows "\<exists>r s' st'. immediate_evict_worker X L upd wid err s st = Some (r, s', st')
    \<and> pool L s' = drop_key wid (pool L s) \<and> change_permit s'
    \<and> st' = (case map_of (pool L s) wid of
               None \<Rightarrow> st
             | Some w \<Rightarrow> foldl (\<lambda>st oid. snd (upd oid wid (UpdateWithError err) st)) st
                          (map fst (running_action_infos w)))"
  using evict_pool [OF assms, of X upd wid err s st] by blast

theorem immediate_evict_worker_reports_all_witness:
  "\<exists>r s'. immediate_evict_worker ref_ext list_lru log_upd (WorkerId 1) (make_err Internal ''gone'') sample_pool []
     = Some (r, s', [(Op_Uuid 7, WorkerId 1, UpdateWithError (make_err Internal ''gone''))])
     \<and> map fst (pool list_lru s') = [WorkerId 2]"
  using immediate_evict_worker_reports_all [OF ll.lru_cache_axioms, of ref_ext log_upd "WorkerId 1"
      "make_err Internal ''gone''" sample_pool "[]"]
  by (auto simp: sample_pool_eq log_upd_def drop_key_def)

text \<open>
  C30. Time-outs of an ordered pool. If the pool is ordered by the time of the last update, most
  recent first, \<open>remove_timedout_workers\<close> leaves exactly the workers that were heard of within
  the time-out.
\<close>

theorem remove_timedout_workers_ordered:
  assumes "lru_cache L"
    and "sorted_wrt (\<lambda>p q. last_update_timestamp (snd q) \<le> last_update_timestamp (snd p)) (pool L s)"
  shows "\<exists>r s' st'. remove_timedout_workers X L upd timeout_s now s st = Some (r, s', st')
    \<and> pool L s' = filter (\<lambda>p. now - timeout_s < last_update_timestamp (snd p)) (pool L s)"
proof -
  let ?old = "\<lambda>p :: worker_id \<times> worker. last_update_timestamp (snd p) \<le> now - timeout_s"
  have "sorted_wrt (\<lambda>p q. last_update_timestamp (snd p) \<le> last_update_timestamp (snd q)) (rev (pool L s))"
    using assms(2) by (simp add: sorted_wrt_rev)
  then have ids: "timedout_workers L timeout_s now s = map fst (filter ?old (rev (pool L s)))"
    by (simp add: timedout_workers_def takeWhile_sorted flip: pool_def)
  have "distinct (map fst (pool L s))"
    using lru_cache.iter_distinct [OF assms(1)] by (simp add: pool_def)
  then have "fst p \<in> set (timedout_workers L timeout_s now s) \<longleftrightarrow> ?old p" if "p \<in> set (pool L s)" for p
    using that by (auto simp: ids dest: eq_key_imp_eq_value) (metis eq_key_imp_eq_value prod.collapse snd_conv)
  then have "filter (\<lambda>p. fst p \<notin> set (timedout_workers L timeout_s now s)) (pool L s)
      = filter (\<lambda>p. now - timeout_s < last_update_timestamp (snd p)) (pool L s)"
    by (intro filter_cong) (auto simp: not_le)
  with evict_all_pool [OF assms(1), of X upd "timedout_workers L timeout_s now s" "Ok ()" s st] show ?thesis
    by (simp add: remove_timedout_workers_def)
qed

theorem remove_timedout_workers_ordered_witness:
  "\<exists>r s' st'. remove_timedout_workers ref_ext list_lru log_upd 30 50 sample_pool [] = Some (r, s', st')
     \<and> map fst (pool list_lru s') = [WorkerId 2]"
proof -
  have "sorted_wrt (\<lambda>p q. last_update_timestamp (snd q) \<le> last_update_timestamp (snd p))
      (pool list_lru sample_pool)"
    by (simp add: sample_pool_eq worker_new_def cpu_worker_def)
  from remove_timedout_workers_ordered [OF ll.lru_cache_axioms this, of ref_ext log_upd 30 50 "[]"]
  show ?thesis by (auto simp: sample_pool_eq worker_new_def cpu_worker_def)
qed

text \<open>
  C31. A keep-alive hides every other time-out. \<open>refresh_lifetime\<close> changes the time of a worker
  without moving it in the LRU order, while \<open>remove_timedout_workers\<close> stops at the first fresh worker
  from the least recently used end. So once the worker at that end has sent a keep-alive, nobody is
  removed, however long ago the other workers were heard of.
\<close>

theorem refresh_lifetime_hides_timeouts:
  assumes "lru_cache L" and "pool L s \<noteq> []" and "fst (last (pool L s)) = wid"
    and "refresh_lifetime L wid now s = (Ok (), s1)" and "0 < timeout_s" and "timeout_s \<le> now"
  shows "remove_timedout_workers X L upd timeout_s now s1 st = Some (Ok (), s1, st)
    \<and> map fst (pool L s1) = map fst (pool L s)"
proof -
  obtain w where w: "map_of (pool L s) wid = Some w"
    and s1: "workers s1 = lru_write L wid (w\<lparr>last_update_timestamp := now\<rparr>) (workers s)"
    using assms(4) lru_cache.peek_value [OF assms(1), of wid "workers s"]
    by (auto simp: refresh_lifetime_def pool_def split: option.splits if_splits)
  have pl: "pool L s1 = write_key wid (w\<lparr>last_update_timestamp := now\<rparr>) (pool L s)"
    using lru_cache.write_iter [OF assms(1)] s1 by (simp add: pool_def)
  have "last (pool L s1) = (wid, w\<lparr>last_update_timestamp := now\<rparr>)"
    using assms(2,3) by (simp add: pl write_key_def last_map)
  moreover have "pool L s1 \<noteq> []" using assms(2) by (simp add: pl write_key_def)
  ultimately have rv: "rev (pool L s1) = (wid, w\<lparr>last_update_timestamp := now\<rparr>) # rev (butlast (pool L s1))"
    by (metis append_butlast_last_id rev_eq_Cons_iff rev_rev_ident)
  have "now - timeout_s < now" using assms(5,6)
    by (simp add: word_less_nat_alt word_le_nat_alt unat_sub)
  then have "timedout_workers L timeout_s now s1 = []"
    unfolding timedout_workers_def pool_def [symmetric] rv by (simp add: not_le)
  then show ?thesis by (simp add: remove_timedout_workers_def pl)
qed

theorem refresh_lifetime_hides_timeouts_witness:
  "\<exists>s1. refresh_lifetime list_lru (WorkerId 1) 1000 sample_pool = (Ok (), s1)
     \<and> remove_timedout_workers ref_ext list_lru log_upd 30 1000 s1 [] = Some (Ok (), s1, [])
     \<and> (\<exists>w. map_of (pool list_lru s1) (WorkerId 2) = Some w \<and> last_update_timestamp w = 40)"
proof -
  define s1 where "s1 = snd (refresh_lifetime list_lru (WorkerId 1) 1000 sample_pool)"
  have r: "refresh_lifetime list_lru (WorkerId 1) 1000 sample_pool = (Ok (), s1)"
    by (simp add: s1_def refresh_lifetime_def list_lru_def sample_pool_def cpu_worker_def worker_new_def)
  have "map_of (pool list_lru s1) (WorkerId 2)
      = Some (worker_new (WorkerId 2) [(''cpu'', Minimum 2)] \<lparr>tx_open = True, tx_sent = []\<rparr> 40)"
    by (simp add: s1_def refresh_lifetime_def list_lru_def sample_pool_def cpu_worker_def worker_new_def
        pool_def write_key_def)
  with r refresh_lifetime_hides_timeouts [OF ll.lru_cache_axioms _ _ r, of 30 ref_ext log_upd "[]"] show ?thesis
    by (auto simp: sample_pool_eq worker_new_def)
qed

text \<open>
  C32. Updates of a running operation. When the state manager accepts a final update, the operation
  is taken off the worker, its resources are given back, and the worker is paused afterwards exactly
  when it did not accept work before, or reported back-pressure, and still has something to run. When
  the state manager rejects the update, final or not, the worker keeps the operation and its
  resources.
\<close>

theorem update_action_outcome:
  assumes "lru_cache L" and "map_of (pool L s) wid = Some w" and "resources_ok tot w"
    and "map_of (running_action_infos w) oid = Some info" and "upd oid wid update st = (ur, st')"
  shows "\<exists>r s' w'. update_action X L upd wid oid update s st = Some (r, s', st')
    \<and> map_of (pool L s') wid = Some w' \<and> is_ok r = is_ok ur
    \<and> (if is_ok ur \<and> update_finishes update
       then running_action_infos w' = AList.delete oid (running_action_infos w) \<and> resources_ok tot w'
            \<and> (is_paused w' \<longleftrightarrow> (\<not> can_accept_work w \<or> update_backpressure update) \<and> has_actions w')
       else w' = w)"
proof -
  obtain r c where get: "lru_get L wid (workers s) = (r, c)" by (cases "lru_get L wid (workers s)")
  have r: "r = Some w" and c: "map_of (lru_iter L c) wid = Some w"
    using lru_cache.get_value [OF assms(1), of wid "workers s"] lru_cache.get_iter [OF assms(1), of wid "workers s"]
      get assms(2) by (simp_all add: pool_def)
  obtain w1 where com: "complete_action oid w = Some (Ok (), w1)" and w1: "resources_ok tot w1"
      "running_action_infos w1 = AList.delete oid (running_action_infos w)" "\<not> is_paused w1"
    using complete_action_resources [OF assms(3,4)] by blast
  let ?w2 = "if (\<not> can_accept_work w \<or> update_backpressure update) \<and> has_actions w1
             then w1\<lparr>is_paused := True\<rparr> else w1"
  have flags: "(case update of
        UpdateWithActionStage action_stage \<Rightarrow> (is_finished action_stage, False)
      | Update_KeepAlive \<Rightarrow> (False, False)
      | UpdateWithError err \<Rightarrow> (True, code err = ResourceExhausted))
      = (update_finishes update, update_backpressure update)"
    by (cases update) auto
  have same: "map_of (pool L (s\<lparr>workers := c\<rparr>)) wid = Some w" using c by (simp add: pool_def)
  have new: "map_of (pool L (s\<lparr>workers := lru_write L wid x c, change_permit := True\<rparr>)) wid = Some x" for x
    using c by (simp add: pool_def lru_cache.write_iter [OF assms(1)] map_of_write_key)
  show ?thesis
  proof (cases "is_ok ur \<and> update_finishes update")
    case True
    then have "update_action X L upd wid oid update s st
        = Some (Ok (), s\<lparr>workers := lru_write L wid ?w2 c, change_permit := True\<rparr>, st')"
      using get r assms(4,5) com
      by (auto simp: update_action_def flags is_ok_iff Let_def)
    moreover have "running_action_infos ?w2 = AList.delete oid (running_action_infos w)" "resources_ok tot ?w2"
      "is_paused ?w2 \<longleftrightarrow> (\<not> can_accept_work w \<or> update_backpressure update) \<and> has_actions ?w2"
      using w1 resources_cong [of "w1\<lparr>is_paused := True\<rparr>" w1 tot] by (auto simp: has_actions_def)
    ultimately show ?thesis using True new [of ?w2] by (auto simp: is_ok_iff)
  next
    case False
    then have "\<exists>r. update_action X L upd wid oid update s st = Some (r, s\<lparr>workers := c\<rparr>, st') \<and> is_ok r = is_ok ur"
      using get r assms(4,5)
      by (cases ur) (auto simp: update_action_def flags Let_def)
    with same False show ?thesis by auto
  qed
qed

theorem update_action_outcome_witness:
  "\<exists>r s' w'. update_action ref_ext list_lru (\<lambda>oid wid u st. (Err (make_err Aborted ''stale''), st))
       (WorkerId 1) (Op_Uuid 7) (UpdateWithError (make_err Internal ''x'')) sample_pool ()
     = Some (r, s', ()) \<and> map_of (pool list_lru s') (WorkerId 1) = Some w'
     \<and> map_of (running_action_infos w') (Op_Uuid 7) = Some (cpu_action 3)"
proof -
  let ?w = "cpu_worker\<lparr>running_action_infos := [(Op_Uuid 7, cpu_action 3)]\<rparr>"
  have "resources_ok [(''cpu'', Minimum 11)] ?w"
    by (simp add: resources_ok_def cpu_worker_def worker_new_def cpu_action_def wf_props_def covers_def
        running_total_def amount_def)
  moreover have "map_of (pool list_lru sample_pool) (WorkerId 1) = Some ?w" by (simp add: sample_pool_eq)
  ultimately show ?thesis
    using update_action_outcome [OF ll.lru_cache_axioms, of sample_pool "WorkerId 1" ?w
        "[(''cpu'', Minimum 11)]" "Op_Uuid 7" "cpu_action 3"
        "\<lambda>oid wid u st. (Err (make_err Aborted ''stale''), st)" "UpdateWithError (make_err Internal ''x'')" "()"
        "Err (make_err Aborted ''stale'')" "()" ref_ext]
    by auto
qed

end
