(* ===== verification/Awaited_Action.thy ===== *)
theory Awaited_Action
  imports Action_Messages
begin

text \<open>
  \<open>AwaitedAction\<close> and its sort key (nativelink-scheduler/src/awaited_action_db/awaited_action.rs) and
  the sorted form the queues hold (nativelink-scheduler/src/awaited_action_db/mod.rs).
\<close>

section \<open>Sort keys\<close>

text \<open>
  The priority is shifted so that \<open>i32::MIN\<close> becomes 0, the timestamp is inverted, and the
  big-endian bytes of both are read as one u64: the priority is the high half.
\<close>

definition sort_key_new :: "i32 \<Rightarrow> u32 \<Rightarrow> u64" where
  "sort_key_new prio insert_ts =
     (let p = (word_of_int (sint prio + 2 ^ 31) :: u32);
          t = xor insert_ts (- 1)
      in of_nat (unat p * 2 ^ 32 + unat t))"

text \<open>\<open>None\<close> is the panic on a time before the epoch; the seconds are truncated to 32 bits.\<close>

definition sort_key_new_with_unique_key :: "i32 \<Rightarrow> system_time \<Rightarrow> u64 option" where
  "sort_key_new_with_unique_key prio insert_time =
     (case duration_since insert_time 0 of
        None \<Rightarrow> None
      | Some nanos \<Rightarrow> Some (sort_key_new prio (of_nat (nanos div 1000000000))))"

section \<open>AwaitedAction\<close>

record awaited_action =
  aa_version :: u64
  aa_action_info :: action_info
  aa_operation_id :: operation_id
  aa_sort_key :: u64
  aa_last_worker_updated_timestamp :: system_time
  aa_last_client_keepalive_timestamp :: system_time
  aa_worker_id :: "worker_id option"
  aa_state :: action_state
  aa_attempts :: nat

definition awaited_action_new :: "operation_id \<Rightarrow> action_info \<Rightarrow> system_time \<Rightarrow> awaited_action option" where
  "awaited_action_new oid info now =
     (case sort_key_new_with_unique_key (priority info) (insert_timestamp info) of
        None \<Rightarrow> None
      | Some key \<Rightarrow>
          Some \<lparr>aa_version = 0, aa_action_info = info, aa_operation_id = oid, aa_sort_key = key,
                aa_last_worker_updated_timestamp = now, aa_last_client_keepalive_timestamp = now,
                aa_worker_id = None,
                aa_state = \<lparr>stage = Queued, client_operation_id = oid, action_digest = action_digest_of info\<rparr>,
                aa_attempts = 0\<rparr>)"

definition increment_version :: "awaited_action \<Rightarrow> awaited_action" where
  "increment_version a = a\<lparr>aa_version := aa_version a + 1\<rparr>"

definition worker_keep_alive :: "system_time \<Rightarrow> awaited_action \<Rightarrow> awaited_action" where
  "worker_keep_alive now a = a\<lparr>aa_last_worker_updated_timestamp := now\<rparr>"

definition update_client_keep_alive :: "system_time \<Rightarrow> awaited_action \<Rightarrow> awaited_action" where
  "update_client_keep_alive now a = a\<lparr>aa_last_client_keepalive_timestamp := now\<rparr>"

definition set_client_operation_id :: "operation_id \<Rightarrow> awaited_action \<Rightarrow> awaited_action" where
  "set_client_operation_id cid a = a\<lparr>aa_state := (aa_state a)\<lparr>client_operation_id := cid\<rparr>\<rparr>"

definition set_worker_id :: "worker_id option \<Rightarrow> system_time \<Rightarrow> awaited_action \<Rightarrow> awaited_action" where
  "set_worker_id new_worker now a =
     (if aa_worker_id a \<noteq> new_worker then worker_keep_alive now (a\<lparr>aa_worker_id := new_worker\<rparr>) else a)"

definition worker_set_state :: "action_state \<Rightarrow> system_time \<Rightarrow> awaited_action \<Rightarrow> awaited_action" where
  "worker_set_state st now a = worker_keep_alive now (a\<lparr>aa_state := st\<rparr>)"

section \<open>Sorted form\<close>

datatype sorted_state = Sorted_CacheCheck | Sorted_Queued | Sorted_Executing | Sorted_Completed

fun sorted_state_of_stage :: "action_stage \<Rightarrow> sorted_state result" where
  "sorted_state_of_stage CacheCheck = Ok Sorted_CacheCheck"
| "sorted_state_of_stage Executing = Ok Sorted_Executing"
| "sorted_state_of_stage (Completed _) = Ok Sorted_Completed"
| "sorted_state_of_stage Queued = Ok Sorted_Queued"
| "sorted_state_of_stage _ = Err (make_input_err ''Invalid State'')"

datatype sorted_awaited_action = SortedAA (saa_sort_key: u64) (saa_operation_id: operation_id)

definition sorted_of :: "awaited_action \<Rightarrow> sorted_awaited_action" where
  "sorted_of a = SortedAA (aa_sort_key a) (aa_operation_id a)"

instantiation sorted_awaited_action :: linorder
begin

definition less_eq_sorted_awaited_action :: "sorted_awaited_action \<Rightarrow> sorted_awaited_action \<Rightarrow> bool" where
  "less_eq_sorted_awaited_action a b \<longleftrightarrow>
     saa_sort_key a < saa_sort_key b
     \<or> saa_sort_key a = saa_sort_key b \<and> saa_operation_id a \<le> saa_operation_id b"

definition less_sorted_awaited_action :: "sorted_awaited_action \<Rightarrow> sorted_awaited_action \<Rightarrow> bool" where
  "less_sorted_awaited_action a b \<longleftrightarrow>
     saa_sort_key a < saa_sort_key b
     \<or> saa_sort_key a = saa_sort_key b \<and> saa_operation_id a < saa_operation_id b"

instance
  by standard (auto simp: less_eq_sorted_awaited_action_def less_sorted_awaited_action_def
      sorted_awaited_action.expand)

end

section \<open>Lemmas\<close>

lemma sort_key_example: "sort_key_new 0x12345678 0x9abcdef0 = 0x923456786543210f"
  by (simp add: sort_key_new_def Let_def)

lemma pack_bound: "h < M \<Longrightarrow> l < N \<Longrightarrow> h * N + l < M * (N :: nat)"
proof -
  assume "h < M" and l: "l < N"
  then have "Suc h * N \<le> M * N" by (intro mult_le_mono1) simp
  with l show ?thesis by simp
qed

lemma pack_less:
  assumes "l1 < N" and "l2 < N"
  shows "h1 * N + l1 < h2 * N + l2 \<longleftrightarrow> h1 < h2 \<or> h1 = h2 \<and> l1 < (l2 :: nat)"
proof (cases h1 h2 rule: linorder_cases)
  case less
  with pack_bound [OF less assms(1)] show ?thesis by simp
next
  case equal
  then show ?thesis by simp
next
  case greater
  with pack_bound [OF greater assms(2)] show ?thesis by simp
qed

lemma unat_xor_max: "unat (xor t (- 1) :: u32) = 2 ^ 32 - 1 - unat t"
proof -
  have "xor t (- 1) = not t" by (rule bit_eqI) (simp add: bit_xor_iff bit_not_iff)
  also have "\<dots> = - 1 - t" by (simp add: not_eq_complement)
  finally have "unat (xor t (- 1)) = unat ((- 1 :: u32) - t)" by simp
  also have "\<dots> = unat (- 1 :: u32) - unat t" by (simp add: unat_sub)
  finally show ?thesis by (simp add: unsigned_minus_1_eq_mask mask_eq_exp_minus_1)
qed

lemma unat_shifted_priority: "int (unat (word_of_int (sint (p :: i32) + 2 ^ 31) :: u32)) = sint p + 2 ^ 31"
proof -
  have "- (2 ^ 31) \<le> sint p" and "sint p < 2 ^ 31"
    using sint_ge [of p] sint_lt [of p] by simp_all
  then have "(sint p + 2 ^ 31) mod 2 ^ 32 = sint p + 2 ^ 31"
    by (intro mod_pos_pos_trivial) simp_all
  moreover have "int (unat (word_of_int k :: u32)) = k mod 2 ^ 32" for k
    by (simp only: uint_nat [symmetric] uint_word_of_int len_of_numeral_defs) simp
  ultimately show ?thesis by (simp only:)
qed

lemma unat_of_nat_u64: "n < 2 ^ 64 \<Longrightarrow> unat (of_nat n :: u64) = n"
  by (simp add: unat_of_nat)

lemma unat_sort_key:
  "unat (sort_key_new p t)
     = unat (word_of_int (sint p + 2 ^ 31) :: u32) * 2 ^ 32 + (2 ^ 32 - 1 - unat t)"
proof -
  let ?hi = "unat (word_of_int (sint p + 2 ^ 31) :: u32)"
  have "?hi < 2 ^ 32" using unsigned_less [of "word_of_int (sint p + 2 ^ 31) :: u32", where ?'a = nat] by simp
  moreover have "(2 ^ 32 - 1 - unat t :: nat) < 2 ^ 32" by simp
  ultimately have "?hi * 2 ^ 32 + (2 ^ 32 - 1 - unat t) < 2 ^ 32 * 2 ^ 32" by (rule pack_bound)
  then show ?thesis
    unfolding sort_key_new_def Let_def unat_xor_max by (intro unat_of_nat_u64) simp
qed

section \<open>Properties\<close>

text \<open>
  C33. The sort key orders by priority, then by age. Comparing the packed 64-bit keys is comparing
  the signed priorities, and for equal priorities the earlier insertion second has the larger key.
\<close>

theorem sort_key_order:
  "sort_key_new p1 t1 < sort_key_new p2 t2 \<longleftrightarrow> sint p1 < sint p2 \<or> p1 = p2 \<and> t2 < t1"
proof -
  let ?h1 = "unat (word_of_int (sint p1 + 2 ^ 31) :: u32)" and ?h2 = "unat (word_of_int (sint p2 + 2 ^ 31) :: u32)"
  let ?l1 = "2 ^ 32 - 1 - unat t1 :: nat" and ?l2 = "2 ^ 32 - 1 - unat t2 :: nat"
  have l: "?l1 < 2 ^ 32" "?l2 < 2 ^ 32" by simp_all
  have "unat t1 < 2 ^ 32" "unat t2 < 2 ^ 32"
    using unsigned_less [of t1, where ?'a = nat] unsigned_less [of t2, where ?'a = nat] by simp_all
  then have low: "?l1 < ?l2 \<longleftrightarrow> t2 < t1" by (simp add: word_less_nat_alt) arith
  have high: "?h1 < ?h2 \<longleftrightarrow> sint p1 < sint p2" "?h1 = ?h2 \<longleftrightarrow> p1 = p2"
    using unat_shifted_priority [of p1] unat_shifted_priority [of p2]
    by (linarith, metis add_right_cancel signed_word_eqI of_nat_eq_iff)
  have "sort_key_new p1 t1 < sort_key_new p2 t2 \<longleftrightarrow> ?h1 * 2 ^ 32 + ?l1 < ?h2 * 2 ^ 32 + ?l2"
    by (simp only: word_less_nat_alt unat_sort_key)
  also have "\<dots> \<longleftrightarrow> ?h1 < ?h2 \<or> ?h1 = ?h2 \<and> ?l1 < ?l2"
    using l by (rule pack_less)
  finally show ?thesis using low high by simp
qed

end
