(* ===== verification/Memory_Action_Db.thy ===== *)
theory Memory_Action_Db
  imports Awaited_Action Evicting_Map
begin

text \<open>
  The in-memory database of the scheduler (nativelink-scheduler/src/memory_awaited_action_db.rs).
  Every public method locks the inner state once. A \<open>watch\<close> channel is its current value, so the
  sender table is a map from operation ids to awaited actions and a subscriber names the operation
  it watches and the client it watches for. The client table is an \<open>EvictingMap\<close> whose values are the
  \<open>ClientAwaitedAction\<close>s, that is the operation ids they hold; when the map lets go of one, its
  \<open>Drop\<close> sends \<open>ClientDroppedOperation\<close>, so the calls of \<open>unref\<close> of each map operation become
  events. The random uuid of a new operation is the argument \<open>new_id\<close>. Logging is left out.
\<close>

section \<open>State\<close>

datatype action_event = ClientKeepAlive operation_id | ClientDroppedOperation operation_id

record sorted_awaited_actions =
  sa_unknown :: "sorted_awaited_action set"
  sa_cache_check :: "sorted_awaited_action set"
  sa_queued :: "sorted_awaited_action set"
  sa_executing :: "sorted_awaited_action set"
  sa_completed :: "sorted_awaited_action set"

record 'c adb =
  client_operation_to_awaited_action :: "(operation_id, operation_id, 'c) em_state"
  operation_id_to_awaited_action :: "(operation_id \<times> awaited_action) list"
  action_info_hash_key_to_awaited_action :: "action_unique_key \<rightharpoonup> operation_id"
  sorted_action_info_hash_keys :: sorted_awaited_actions
  connected_clients_for_operation_id :: "operation_id \<rightharpoonup> nat"
  action_events :: "action_event list"
  tasks_change_permit :: bool

record subscriber =
  sub_operation_id :: operation_id
  sub_client_operation_id :: "operation_id option"

type_synonym 'c client_lru = "(operation_id, operation_id, 'c) em_lru"

text \<open>\<open>LenEntry\<close> for \<open>ClientAwaitedAction\<close>: no size, and the default \<open>touch\<close>.\<close>

definition client_entry :: "operation_id len_entry" where
  "client_entry = \<lparr>entry_len = (\<lambda>_. 0), entry_touch = (\<lambda>_. True)\<rparr>"

section \<open>Sorted sets\<close>

fun btree_for_state :: "action_stage \<Rightarrow> sorted_awaited_actions \<Rightarrow> sorted_awaited_action set" where
  "btree_for_state Stage_Unknown s = sa_unknown s"
| "btree_for_state CacheCheck s = sa_cache_check s"
| "btree_for_state Queued s = sa_queued s"
| "btree_for_state Executing s = sa_executing s"
| "btree_for_state (Completed _) s = sa_completed s"
| "btree_for_state (CompletedFromCache _) s = sa_completed s"

text \<open>The write through the mutable reference \<open>btree_for_state\<close> returns.\<close>

fun write_btree_for_state ::
  "action_stage \<Rightarrow> sorted_awaited_action set \<Rightarrow> sorted_awaited_actions \<Rightarrow> sorted_awaited_actions" where
  "write_btree_for_state Stage_Unknown b s = s\<lparr>sa_unknown := b\<rparr>"
| "write_btree_for_state CacheCheck b s = s\<lparr>sa_cache_check := b\<rparr>"
| "write_btree_for_state Queued b s = s\<lparr>sa_queued := b\<rparr>"
| "write_btree_for_state Executing b s = s\<lparr>sa_executing := b\<rparr>"
| "write_btree_for_state (Completed _) b s = s\<lparr>sa_completed := b\<rparr>"
| "write_btree_for_state (CompletedFromCache _) b s = s\<lparr>sa_completed := b\<rparr>"

definition insert_sort_map_for_stage ::
  "action_stage \<Rightarrow> sorted_awaited_action \<Rightarrow> sorted_awaited_actions \<Rightarrow> unit result \<times> sorted_awaited_actions" where
  "insert_sort_map_for_stage st x s =
     (let newly_inserted = (x \<notin> btree_for_state st s);
          s' = write_btree_for_state st (insert x (btree_for_state st s)) s
      in if \<not> newly_inserted
         then (Err (make_err Internal ''Tried to insert an action that was already in the sorted map. This should never happen.''), s')
         else (Ok (), s'))"

definition process_state_changes ::
  "awaited_action \<Rightarrow> awaited_action \<Rightarrow> sorted_awaited_actions \<Rightarrow> unit result \<times> sorted_awaited_actions" where
  "process_state_changes old new s =
     (let x = SortedAA (aa_sort_key old) (aa_operation_id new);
          st = stage (aa_state old);
          btree = btree_for_state st s
      in if x \<notin> btree
         then (Err (make_err Internal ''sorted_action_info_hash_keys and action_info_hash_key_to_awaited_action are out of sync''), s)
         else let s1 = write_btree_for_state st (btree - {x}) s;
                  (r, s2) = insert_sort_map_for_stage (stage (aa_state new)) x s1
              in (err_tip ''In AwaitedActionDb::update_awaited_action'' r, s2))"

section \<open>Operations\<close>

definition with_clients ::
  "((operation_id, operation_id, 'c) em_state \<Rightarrow> 'r \<times> (operation_id, operation_id, 'c) em_state)
     \<Rightarrow> 'c adb \<Rightarrow> 'r \<times> 'c adb" where
  "with_clients f db =
     (let (r, cm) = f ((client_operation_to_awaited_action db)\<lparr>unref_calls := []\<rparr>)
      in (r, db\<lparr>client_operation_to_awaited_action := cm,
                action_events := action_events db @ map ClientDroppedOperation (unref_calls cm)\<rparr>))"

definition get_awaited_action_by_id ::
  "'c client_lru \<Rightarrow> em_config \<Rightarrow> u64 \<Rightarrow> operation_id \<Rightarrow> 'c adb \<Rightarrow> subscriber option result \<times> 'c adb" where
  "get_awaited_action_by_id L cfg now cid db =
     (let (maybe_client, db1) = with_clients (em_get L client_entry cfg now cid) db
      in case maybe_client of
           None \<Rightarrow> (Ok None, db1)
         | Some oid \<Rightarrow>
             (case map_of (operation_id_to_awaited_action db1) oid of
                Some _ \<Rightarrow> (Ok (Some \<lparr>sub_operation_id = oid, sub_client_operation_id = Some cid\<rparr>), db1)
              | None \<Rightarrow> (Err (make_err Internal ''Failed to get client operation id''), db1)))"

fun handle_action_event :: "'c client_lru \<Rightarrow> em_config \<Rightarrow> u64 \<Rightarrow> action_event \<Rightarrow> 'c adb \<Rightarrow> 'c adb" where
  "handle_action_event L cfg now (ClientDroppedOperation oid) db =
     (case map_of (operation_id_to_awaited_action db) oid of
        None \<Rightarrow> db
      | Some a \<Rightarrow>
          let connected_clients = (case connected_clients_for_operation_id db oid of
                                     Some n \<Rightarrow> n - 1
                                   | None \<Rightarrow> 0);
              db1 = db\<lparr>operation_id_to_awaited_action := AList.delete oid (operation_id_to_awaited_action db),
                       connected_clients_for_operation_id := (connected_clients_for_operation_id db)(oid := None)\<rparr>
          in if connected_clients \<noteq> 0
             then db1\<lparr>operation_id_to_awaited_action := AList.update oid a (operation_id_to_awaited_action db1),
                      connected_clients_for_operation_id := (connected_clients_for_operation_id db1)(oid \<mapsto> connected_clients)\<rparr>
             else let db2 = (case unique_qualifier (aa_action_info a) of
                               Cachable key \<Rightarrow>
                                 db1\<lparr>action_info_hash_key_to_awaited_action :=
                                       (action_info_hash_key_to_awaited_action db1)(key := None)\<rparr>
                             | Uncachable _ \<Rightarrow> db1);
                      st = stage (aa_state a)
                  in db2\<lparr>sorted_action_info_hash_keys :=
                           write_btree_for_state st
                             (btree_for_state st (sorted_action_info_hash_keys db2) - {SortedAA (aa_sort_key a) oid})
                             (sorted_action_info_hash_keys db2)\<rparr>)"
| "handle_action_event L cfg now (ClientKeepAlive cid) db =
     snd (with_clients (size_for_key L client_entry cfg now cid) db)"

definition handle_action_events :: "'c client_lru \<Rightarrow> em_config \<Rightarrow> u64 \<Rightarrow> action_event list \<Rightarrow> 'c adb \<Rightarrow> 'c adb" where
  "handle_action_events L cfg now evs db = foldl (\<lambda>db e. handle_action_event L cfg now e db) db evs"

text \<open>One cycle of the task that handles the events, at most 1024 of them under one lock.\<close>

definition action_events_cycle :: "'c client_lru \<Rightarrow> em_config \<Rightarrow> u64 \<Rightarrow> 'c adb \<Rightarrow> 'c adb" where
  "action_events_cycle L cfg now db =
     handle_action_events L cfg now (take 1024 (action_events db))
       (db\<lparr>action_events := drop 1024 (action_events db)\<rparr>)"

definition get_by_operation_id :: "operation_id \<Rightarrow> 'c adb \<Rightarrow> subscriber option" where
  "get_by_operation_id oid db =
     (case map_of (operation_id_to_awaited_action db) oid of
        Some _ \<Rightarrow> Some \<lparr>sub_operation_id = oid, sub_client_operation_id = None\<rparr>
      | None \<Rightarrow> None)"

definition get_awaited_actions_range ::
  "operation_id bound \<Rightarrow> operation_id bound \<Rightarrow> 'c adb \<Rightarrow> (operation_id \<times> subscriber) list option" where
  "get_awaited_actions_range start stop db =
     (if range_panics start stop then None
      else Some (map (\<lambda>oid. (oid, \<lparr>sub_operation_id = oid, sub_client_operation_id = None\<rparr>))
                  (sorted_list_of_set (Set.filter (\<lambda>oid. above_start start oid \<and> below_end stop oid)
                     (set (map fst (operation_id_to_awaited_action db)))))))"

fun btree_of_sorted_state :: "sorted_state \<Rightarrow> sorted_awaited_actions \<Rightarrow> sorted_awaited_action set" where
  "btree_of_sorted_state Sorted_CacheCheck s = sa_cache_check s"
| "btree_of_sorted_state Sorted_Queued s = sa_queued s"
| "btree_of_sorted_state Sorted_Executing s = sa_executing s"
| "btree_of_sorted_state Sorted_Completed s = sa_completed s"

definition get_range_of_actions ::
  "sorted_state \<Rightarrow> sorted_awaited_action bound \<Rightarrow> sorted_awaited_action bound \<Rightarrow> 'c adb
     \<Rightarrow> (sorted_awaited_action \<times> subscriber) result list option" where
  "get_range_of_actions st start stop db =
     (if range_panics start stop then None
      else Some (map (\<lambda>x. case get_by_operation_id (saa_operation_id x) db of
                            None \<Rightarrow> Err (make_err Internal ''Failed to get operation id'')
                          | Some sub \<Rightarrow> Ok (x, sub))
                  (sorted_list_of_set (Set.filter (\<lambda>x. above_start start x \<and> below_end stop x)
                     (btree_of_sorted_state st (sorted_action_info_hash_keys db))))))"

definition process_state_changes_for_hash_key_map ::
  "awaited_action \<Rightarrow> (action_unique_key \<rightharpoonup> operation_id) \<Rightarrow> (action_unique_key \<rightharpoonup> operation_id)" where
  "process_state_changes_for_hash_key_map new m =
     (if \<not> is_finished (stage (aa_state new)) then m
      else (case unique_qualifier (aa_action_info new) of
              Cachable key \<Rightarrow> m(key := None)
            | Uncachable _ \<Rightarrow> m))"

definition inner_update_awaited_action :: "awaited_action \<Rightarrow> 'c adb \<Rightarrow> unit result \<times> 'c adb" where
  "inner_update_awaited_action new db =
     (case map_of (operation_id_to_awaited_action db) (aa_operation_id new) of
        None \<Rightarrow> (Err (make_err Internal ''OperationId does not exist in map in AwaitedActionDb::update_awaited_action''), db)
      | Some old \<Rightarrow>
          if aa_version old \<noteq> aa_version new
          then (Err (make_err Aborted ''Tried to update an awaited action with an incorrect version.''), db)
          else let new1 = increment_version new
               in if unique_qualifier (aa_action_info old) \<noteq> unique_qualifier (aa_action_info new1)
                  then (Err (make_err InvalidArgument ''Unique key changed for operation_id''), db)
                  else let send = (\<lambda>db. db\<lparr>operation_id_to_awaited_action :=
                              AList.update (aa_operation_id new1) new1 (operation_id_to_awaited_action db)\<rparr>)
                       in if \<not> is_same_stage (stage (aa_state old)) (stage (aa_state new1))
                          then (case process_state_changes old new1 (sorted_action_info_hash_keys db) of
                                  (Inl e, s) \<Rightarrow> (Err e, db\<lparr>sorted_action_info_hash_keys := s\<rparr>)
                                | (Inr _, s) \<Rightarrow>
                                    (Ok (), send (db\<lparr>sorted_action_info_hash_keys := s,
                                       action_info_hash_key_to_awaited_action :=
                                         process_state_changes_for_hash_key_map new1
                                           (action_info_hash_key_to_awaited_action db)\<rparr>)))
                          else (Ok (), send db))"

definition make_client_awaited_action :: "operation_id \<Rightarrow> awaited_action \<Rightarrow> 'c adb \<Rightarrow> 'c adb" where
  "make_client_awaited_action oid a db =
     db\<lparr>operation_id_to_awaited_action := AList.update oid a (operation_id_to_awaited_action db),
        connected_clients_for_operation_id := (connected_clients_for_operation_id db)(oid \<mapsto> 1)\<rparr>"

definition try_subscribe ::
  "'c client_lru \<Rightarrow> em_config \<Rightarrow> u64 \<Rightarrow> operation_id \<Rightarrow> action_unique_qualifier \<Rightarrow> 'c adb
     \<Rightarrow> subscriber option result \<times> 'c adb" where
  "try_subscribe L cfg now cid qualifier db =
     (case qualifier of
        Uncachable _ \<Rightarrow> (Ok None, db)
      | Cachable key \<Rightarrow>
          (case action_info_hash_key_to_awaited_action db key of
             None \<Rightarrow> (Ok None, db)
           | Some oid \<Rightarrow>
               (case map_of (operation_id_to_awaited_action db) oid of
                  None \<Rightarrow> (Err (make_err Internal ''operation_id_to_awaited_action and action_info_hash_key_to_awaited_action are out of sync''), db)
                | Some a \<Rightarrow>
                    if is_finished (stage (aa_state a))
                    then (Err (make_err InvalidArgument ''Tried to subscribe to a completed action but it already finished. This should never happen.''), db)
                    else (case connected_clients_for_operation_id db oid of
                            None \<Rightarrow> (Err (make_err Internal ''connected_clients_for_operation_id and operation_id_to_awaited_action are out of sync''), db)
                          | Some n \<Rightarrow>
                              let db1 = db\<lparr>connected_clients_for_operation_id :=
                                             (connected_clients_for_operation_id db)(oid \<mapsto> n + 1)\<rparr>;
                                  (_, db2) = with_clients (em_insert L client_entry cfg now cid oid) db1
                              in (Ok (Some \<lparr>sub_operation_id = oid, sub_client_operation_id = Some cid\<rparr>), db2)))))"

definition inner_add_action ::
  "'c client_lru \<Rightarrow> em_config \<Rightarrow> u64 \<Rightarrow> system_time \<Rightarrow> operation_id \<Rightarrow> operation_id \<Rightarrow> action_info \<Rightarrow> 'c adb
     \<Rightarrow> (subscriber result \<times> 'c adb) option" where
  "inner_add_action L cfg now now_time new_id cid info db =
     (let (r, db1) = try_subscribe L cfg now cid (unique_qualifier info) db
      in case err_tip ''In AwaitedActionDb::subscribe_or_add_action'' r of
           Inl e \<Rightarrow> Some (Err e, db1)
         | Inr (Some sub) \<Rightarrow> Some (Ok sub, db1)
         | Inr None \<Rightarrow>
             (case awaited_action_new new_id info now_time of
                None \<Rightarrow> None
              | Some a \<Rightarrow>
                  let db2 = make_client_awaited_action new_id a db1;
                      (_, db3) = with_clients (em_insert L client_entry cfg now cid new_id) db2;
                      db4 = (case unique_qualifier info of
                               Cachable key \<Rightarrow>
                                 db3\<lparr>action_info_hash_key_to_awaited_action :=
                                       (action_info_hash_key_to_awaited_action db3)(key \<mapsto> new_id)\<rparr>
                             | Uncachable _ \<Rightarrow> db3);
                      (r2, sk) = insert_sort_map_for_stage Queued (SortedAA (aa_sort_key a) new_id)
                                   (sorted_action_info_hash_keys db4)
                  in Some (try_bind (err_tip ''In AwaitedActionDb::subscribe_or_add_action'' r2)
                             (\<lambda>_. Ok \<lparr>sub_operation_id = new_id, sub_client_operation_id = Some cid\<rparr>),
                           db4\<lparr>sorted_action_info_hash_keys := sk\<rparr>)))"

definition update_awaited_action :: "awaited_action \<Rightarrow> 'c adb \<Rightarrow> unit result \<times> 'c adb" where
  "update_awaited_action new db =
     (case inner_update_awaited_action new db of
        (Inl e, db') \<Rightarrow> (Err e, db')
      | (Inr _, db') \<Rightarrow> (Ok (), db'\<lparr>tasks_change_permit := True\<rparr>))"

definition db_add_action ::
  "'c client_lru \<Rightarrow> em_config \<Rightarrow> u64 \<Rightarrow> system_time \<Rightarrow> operation_id \<Rightarrow> operation_id \<Rightarrow> action_info \<Rightarrow> 'c adb
     \<Rightarrow> (subscriber result \<times> 'c adb) option" where
  "db_add_action L cfg now now_time new_id cid info db =
     (case inner_add_action L cfg now now_time new_id cid info db of
        None \<Rightarrow> None
      | Some (Inl e, db') \<Rightarrow> Some (Err e, db')
      | Some (Inr sub, db') \<Rightarrow> Some (Ok sub, db'\<lparr>tasks_change_permit := True\<rparr>))"

definition adb_new :: "'c client_lru \<Rightarrow> 'c adb" where
  "adb_new L =
     \<lparr>client_operation_to_awaited_action = em_state_new L, operation_id_to_awaited_action = [],
      action_info_hash_key_to_awaited_action = Map.empty,
      sorted_action_info_hash_keys = \<lparr>sa_unknown = {}, sa_cache_check = {}, sa_queued = {},
                                      sa_executing = {}, sa_completed = {}\<rparr>,
      connected_clients_for_operation_id = Map.empty, action_events = [], tasks_change_permit = False\<rparr>"

text \<open>What \<open>borrow\<close> of a subscriber returns while the operation is in the table.\<close>

definition sub_borrow :: "subscriber \<Rightarrow> 'c adb \<Rightarrow> awaited_action option" where
  "sub_borrow sub db =
     map_option (\<lambda>a. case sub_client_operation_id sub of
                       None \<Rightarrow> a
                     | Some cid \<Rightarrow> set_client_operation_id cid a)
       (map_of (operation_id_to_awaited_action db) (sub_operation_id sub))"

section \<open>Sets by stage\<close>

fun bucket_of :: "action_stage \<Rightarrow> nat" where
  "bucket_of Stage_Unknown = 0"
| "bucket_of CacheCheck = 1"
| "bucket_of Queued = 2"
| "bucket_of Executing = 3"
| "bucket_of (Completed _) = 4"
| "bucket_of (CompletedFromCache _) = 4"

lemma btree_write:
  "btree_for_state st (write_btree_for_state st' b s)
     = (if bucket_of st = bucket_of st' then b else btree_for_state st s)"
  by (cases st; cases st') simp_all

lemma btree_bucket: "bucket_of st = bucket_of st' \<Longrightarrow> btree_for_state st s = btree_for_state st' s"
  by (cases st; cases st') simp_all

lemma same_stage_bucket: "is_same_stage st st' \<Longrightarrow> bucket_of st = bucket_of st'"
  by (cases st; cases st') simp_all

lemma same_stage_finished: "is_same_stage st st' \<Longrightarrow> is_finished st = is_finished st'"
  by (cases st; cases st') (simp_all add: is_finished_def)

section \<open>The invariant\<close>

text \<open>
  The operations each stage's set should hold, and the clients of an operation: entries of the client
  table and drops that have not been handled. \<open>evs\<close> are events that were taken out of the queue.
\<close>

definition expected_set :: "'c adb \<Rightarrow> nat \<Rightarrow> sorted_awaited_action set" where
  "expected_set db b =
     {x. \<exists>oid a. map_of (operation_id_to_awaited_action db) oid = Some a
           \<and> x = SortedAA (aa_sort_key a) oid \<and> bucket_of (stage (aa_state a)) = b}"

definition live_clients :: "'c client_lru \<Rightarrow> action_event list \<Rightarrow> 'c adb \<Rightarrow> operation_id \<Rightarrow> nat" where
  "live_clients L evs db oid =
     count (mset (map snd (contents L (client_operation_to_awaited_action db)))) oid
     + count (mset (evs @ action_events db)) (ClientDroppedOperation oid)"

definition client_count :: "'c adb \<Rightarrow> operation_id \<Rightarrow> nat" where
  "client_count db oid = (case connected_clients_for_operation_id db oid of None \<Rightarrow> 0 | Some n \<Rightarrow> n)"

definition tables_ok :: "'c adb \<Rightarrow> bool" where
  "tables_ok db \<longleftrightarrow>
     distinct (map fst (operation_id_to_awaited_action db))
     \<and> (\<forall>oid a. map_of (operation_id_to_awaited_action db) oid = Some a \<longrightarrow> aa_operation_id a = oid)
     \<and> (\<forall>st. btree_for_state st (sorted_action_info_hash_keys db) = expected_set db (bucket_of st))
     \<and> (\<forall>key oid. action_info_hash_key_to_awaited_action db key = Some oid \<longrightarrow>
          (\<exists>a. map_of (operation_id_to_awaited_action db) oid = Some a
               \<and> unique_qualifier (aa_action_info a) = Cachable key \<and> \<not> is_finished (stage (aa_state a))))
     \<and> (\<forall>oid. connected_clients_for_operation_id db oid = None
               \<longleftrightarrow> map_of (operation_id_to_awaited_action db) oid = None)
     \<and> (\<forall>oid. connected_clients_for_operation_id db oid \<noteq> Some 0)"

definition db_ok :: "'c client_lru \<Rightarrow> action_event list \<Rightarrow> 'c adb \<Rightarrow> bool" where
  "db_ok L evs db \<longleftrightarrow> tables_ok db \<and> (\<forall>oid. client_count db oid = live_clients L evs db oid)"

lemma tables_cong:
  assumes "operation_id_to_awaited_action db' = operation_id_to_awaited_action db"
    and "sorted_action_info_hash_keys db' = sorted_action_info_hash_keys db"
    and "action_info_hash_key_to_awaited_action db' = action_info_hash_key_to_awaited_action db"
    and "connected_clients_for_operation_id db' = connected_clients_for_operation_id db"
  shows "tables_ok db' \<longleftrightarrow> tables_ok db"
  unfolding tables_ok_def expected_set_def assms ..

lemma with_clients_fields [simp]:
  "operation_id_to_awaited_action (snd (with_clients f db)) = operation_id_to_awaited_action db"
  "sorted_action_info_hash_keys (snd (with_clients f db)) = sorted_action_info_hash_keys db"
  "action_info_hash_key_to_awaited_action (snd (with_clients f db)) = action_info_hash_key_to_awaited_action db"
  "connected_clients_for_operation_id (snd (with_clients f db)) = connected_clients_for_operation_id db"
  by (simp_all add: with_clients_def split_beta Let_def)

lemma tables_with_clients [simp]: "tables_ok (snd (with_clients f db)) \<longleftrightarrow> tables_ok db"
  by (rule tables_cong) simp_all

lemma client_count_with_clients [simp]: "client_count (snd (with_clients f db)) = client_count db"
  by (simp add: client_count_def fun_eq_iff)

lemma count_drop_events: "count (mset (map ClientDroppedOperation xs)) (ClientDroppedOperation oid) = count (mset xs) oid"
  by (induction xs) auto

lemma live_with_clients:
  assumes "\<And>s. owned L (snd (f s)) = mset vs + owned L s"
  shows "live_clients L evs (snd (with_clients f db)) oid = count (mset vs) oid + live_clients L evs db oid"
proof -
  let ?cm = "client_operation_to_awaited_action db"
  let ?cm' = "snd (f (?cm\<lparr>unref_calls := []\<rparr>))"
  have "contents L (?cm\<lparr>unref_calls := []\<rparr>) = contents L ?cm" by (simp add: contents_def)
  then have "image_mset snd (mset (contents L ?cm')) + mset (unref_calls ?cm') = mset vs + image_mset snd (mset (contents L ?cm))"
    using assms by (simp add: owned_def)
  from arg_cong [OF this, of "\<lambda>M. count M oid"] show ?thesis
    by (simp add: live_clients_def with_clients_def split_beta Let_def count_drop_events del: mset_map)
      (simp add: count_drop_events)
qed

context evicting_map
begin

lemma owned_insert: "owned L (snd (em_insert L E cfg now k v s)) = mset [v] + owned L s"
  using exec_effect(2) [of E cfg now "Em_insert k v" s] by simp

lemma owned_get: "owned L (snd (em_get L E cfg now k s)) = mset [] + owned L s"
  using exec_effect(2) [of E cfg now "Em_get k" s] by simp

lemma owned_size: "owned L (snd (size_for_key L E cfg now k s)) = mset [] + owned L s"
  using exec_effect(2) [of E cfg now "Em_sizes_for_keys [k] False" s]
  by (simp add: size_for_key_def split_beta)

end

section \<open>Preservation\<close>

lemma tables_okD:
  assumes "tables_ok db"
  shows "distinct (map fst (operation_id_to_awaited_action db))"
    and "map_of (operation_id_to_awaited_action db) oid = Some a \<Longrightarrow> aa_operation_id a = oid"
    and "btree_for_state st (sorted_action_info_hash_keys db) = expected_set db (bucket_of st)"
    and "action_info_hash_key_to_awaited_action db key = Some oid \<Longrightarrow>
      \<exists>a. map_of (operation_id_to_awaited_action db) oid = Some a
          \<and> unique_qualifier (aa_action_info a) = Cachable key \<and> \<not> is_finished (stage (aa_state a))"
    and "connected_clients_for_operation_id db oid = None
      \<longleftrightarrow> map_of (operation_id_to_awaited_action db) oid = None"
    and "connected_clients_for_operation_id db oid \<noteq> Some 0"
  using assms unfolding tables_ok_def by blast+

lemma in_expected_set:
  "x \<in> expected_set db b \<longleftrightarrow>
     (\<exists>a. map_of (operation_id_to_awaited_action db) (saa_operation_id x) = Some a
          \<and> saa_sort_key x = aa_sort_key a \<and> bucket_of (stage (aa_state a)) = b)"
  by (cases x) (auto simp: expected_set_def)

lemma tables_new: "tables_ok (adb_new L)"
  unfolding tables_ok_def
proof (intro conjI allI)
  show "btree_for_state st (sorted_action_info_hash_keys (adb_new L)) = expected_set (adb_new L) (bucket_of st)" for st
    by (cases st) (simp_all add: adb_new_def expected_set_def)
qed (simp_all add: adb_new_def)

text \<open>The last client of an operation is gone.\<close>

definition clear_operation :: "operation_id \<Rightarrow> awaited_action \<Rightarrow> 'c adb \<Rightarrow> 'c adb" where
  "clear_operation oid a db =
     db\<lparr>operation_id_to_awaited_action := AList.delete oid (operation_id_to_awaited_action db),
        connected_clients_for_operation_id := (connected_clients_for_operation_id db)(oid := None),
        action_info_hash_key_to_awaited_action :=
          (case unique_qualifier (aa_action_info a) of
             Cachable key \<Rightarrow> (action_info_hash_key_to_awaited_action db)(key := None)
           | Uncachable _ \<Rightarrow> action_info_hash_key_to_awaited_action db),
        sorted_action_info_hash_keys :=
          write_btree_for_state (stage (aa_state a))
            (btree_for_state (stage (aa_state a)) (sorted_action_info_hash_keys db) - {SortedAA (aa_sort_key a) oid})
            (sorted_action_info_hash_keys db)\<rparr>"

lemma handle_drop_eq:
  assumes "map_of (operation_id_to_awaited_action db) oid = Some a"
    and "connected_clients_for_operation_id db oid = Some n"
  shows "handle_action_event L cfg now (ClientDroppedOperation oid) db =
    (if n - 1 \<noteq> 0
     then db\<lparr>operation_id_to_awaited_action :=
               AList.update oid a (AList.delete oid (operation_id_to_awaited_action db)),
             connected_clients_for_operation_id := (connected_clients_for_operation_id db)(oid \<mapsto> n - 1)\<rparr>
     else clear_operation oid a db)"
  using assms by (simp add: clear_operation_def Let_def split: action_unique_qualifier.split)

declare handle_action_event.simps(1) [simp del]

lemma tables_clear:
  assumes ok: "tables_ok db" and a: "map_of (operation_id_to_awaited_action db) oid = Some a"
  shows "tables_ok (clear_operation oid a db)"
proof -
  let ?db = "clear_operation oid a db"
  have ops: "map_of (operation_id_to_awaited_action ?db) = (map_of (operation_id_to_awaited_action db))(oid := None)"
    by (simp add: clear_operation_def delete_conv')
  have dist: "distinct (map fst (operation_id_to_awaited_action ?db))"
    using tables_okD(1) [OF ok] by (simp add: clear_operation_def distinct_keys_delete)
  have sets: "btree_for_state st (sorted_action_info_hash_keys ?db) = expected_set ?db (bucket_of st)" for st
  proof -
    have "expected_set ?db b = (if b = bucket_of (stage (aa_state a))
        then expected_set db b - {SortedAA (aa_sort_key a) oid} else expected_set db b)" for b
    proof (rule set_eqI)
      fix x
      show "x \<in> expected_set ?db b \<longleftrightarrow> x \<in> (if b = bucket_of (stage (aa_state a))
          then expected_set db b - {SortedAA (aa_sort_key a) oid} else expected_set db b)"
        using a by (cases x; cases "saa_operation_id x = oid") (auto simp: in_expected_set ops)
    qed
    then show ?thesis
      using tables_okD(3) [OF ok] by (simp add: clear_operation_def btree_write)
  qed
  have keys: "\<exists>x. map_of (operation_id_to_awaited_action ?db) oid' = Some x
      \<and> unique_qualifier (aa_action_info x) = Cachable key \<and> \<not> is_finished (stage (aa_state x))"
    if "action_info_hash_key_to_awaited_action ?db key = Some oid'" for key oid'
  proof -
    have old: "action_info_hash_key_to_awaited_action db key = Some oid'"
      and new: "unique_qualifier (aa_action_info a) \<noteq> Cachable key"
      using that by (auto simp: clear_operation_def split: action_unique_qualifier.splits if_splits)
    obtain x where x: "map_of (operation_id_to_awaited_action db) oid' = Some x"
        "unique_qualifier (aa_action_info x) = Cachable key" "\<not> is_finished (stage (aa_state x))"
      using tables_okD(4) [OF ok old] by blast
    with new a have "oid' \<noteq> oid" by auto
    with x show ?thesis by (simp add: ops)
  qed
  show ?thesis
    unfolding tables_ok_def
    using dist sets keys tables_okD(2,5,6) [OF ok]
    by (auto simp: ops) (simp_all add: clear_operation_def split: if_splits)
qed

lemma tables_reinsert:
  assumes ok: "tables_ok db" and a: "map_of (operation_id_to_awaited_action db) oid = Some a" and "0 < m"
  shows "tables_ok (db\<lparr>operation_id_to_awaited_action :=
               AList.update oid a (AList.delete oid (operation_id_to_awaited_action db)),
             connected_clients_for_operation_id := (connected_clients_for_operation_id db)(oid \<mapsto> m)\<rparr>)"
    (is "tables_ok ?db")
proof -
  have ops: "map_of (operation_id_to_awaited_action ?db) = map_of (operation_id_to_awaited_action db)"
    using a by (auto simp: map_of_update delete_conv' fun_eq_iff)
  have dist: "distinct (map fst (operation_id_to_awaited_action ?db))"
    using tables_okD(1) [OF ok] by (simp add: distinct_keys_delete distinct_keys_update)
  have exp: "expected_set ?db = expected_set db"
    by (rule ext) (simp only: expected_set_def ops)
  show ?thesis
    unfolding tables_ok_def
    using dist tables_okD(2-6) [OF ok] a assms(3) unfolding ops exp by (auto split: if_splits)
qed

lemma db_ok_drop:
  assumes "db_ok L (ClientDroppedOperation oid # evs) db"
  shows "db_ok L evs (handle_action_event L cfg now (ClientDroppedOperation oid) db)"
proof -
  have ok: "tables_ok db"
    and cnt: "client_count db x = live_clients L (ClientDroppedOperation oid # evs) db x" for x
    using assms by (simp_all add: db_ok_def)
  have "client_count db oid \<noteq> 0" unfolding cnt by (simp add: live_clients_def)
  then obtain n where n: "connected_clients_for_operation_id db oid = Some n"
    by (auto simp: client_count_def split: option.splits)
  then obtain a where a: "map_of (operation_id_to_awaited_action db) oid = Some a"
    using tables_okD(5) [OF ok, of oid] by auto
  have count: "client_count db x = live_clients L evs db x + (if x = oid then 1 else 0)" for x
    unfolding cnt by (simp add: live_clients_def)
  show ?thesis
  proof (cases "n - 1 = 0")
    case False
    then have "0 < n - 1" by simp
    let ?db = "handle_action_event L cfg now (ClientDroppedOperation oid) db"
    have "client_count ?db x = live_clients L evs ?db x" for x
      unfolding handle_drop_eq [OF a n] using False count [of x] n
      by (auto simp: client_count_def live_clients_def)
    with tables_reinsert [OF ok a \<open>0 < n - 1\<close>] False show ?thesis
      by (simp add: db_ok_def handle_drop_eq [OF a n])
  next
    case True
    moreover have "n \<noteq> 0" using tables_okD(6) [OF ok, of oid] n by auto
    ultimately have "n = 1" by simp
    then have "live_clients L evs db oid = 0" using count [of oid] n by (simp add: client_count_def)
    then have "client_count (clear_operation oid a db) x = live_clients L evs (clear_operation oid a db) x" for x
      using count [of x] by (auto simp: client_count_def live_clients_def clear_operation_def)
    with tables_clear [OF ok a] True show ?thesis
      unfolding handle_drop_eq [OF a n] by (simp add: db_ok_def)
  qed
qed

lemma db_ok_update:
  assumes ok: "db_ok L evs db"
    and same: "\<And>old. map_of (operation_id_to_awaited_action db) (aa_operation_id new) = Some old
      \<Longrightarrow> aa_version old = aa_version new \<Longrightarrow> aa_sort_key new = aa_sort_key old"
  shows "db_ok L evs (snd (inner_update_awaited_action new db))"
proof -
  let ?oid = "aa_operation_id new" and ?new = "increment_version new"
  let ?ops = "operation_id_to_awaited_action db" and ?sk = "sorted_action_info_hash_keys db"
  have t: "tables_ok db" using ok by (simp add: db_ok_def)
  show ?thesis
  proof (cases "\<exists>old. map_of ?ops ?oid = Some old \<and> aa_version old = aa_version new
      \<and> unique_qualifier (aa_action_info old) = unique_qualifier (aa_action_info new)")
    case False
    then have "snd (inner_update_awaited_action new db) = db"
      by (auto simp: inner_update_awaited_action_def increment_version_def Let_def split: option.splits)
    with ok show ?thesis by simp
  next
    case True
    then obtain old where old: "map_of ?ops ?oid = Some old" "aa_version old = aa_version new"
      "unique_qualifier (aa_action_info old) = unique_qualifier (aa_action_info new)" by blast
    let ?b = "bucket_of (stage (aa_state old))" and ?b' = "bucket_of (stage (aa_state new))"
    let ?x = "SortedAA (aa_sort_key old) ?oid"
    let ?same = "is_same_stage (stage (aa_state old)) (stage (aa_state new))"
    define sk where "sk = (if ?same then ?sk else
        write_btree_for_state (stage (aa_state new))
          (insert ?x (btree_for_state (stage (aa_state new))
             (write_btree_for_state (stage (aa_state old)) (btree_for_state (stage (aa_state old)) ?sk - {?x}) ?sk)))
          (write_btree_for_state (stage (aa_state old)) (btree_for_state (stage (aa_state old)) ?sk - {?x}) ?sk))"
    define hk where "hk = (if ?same then action_info_hash_key_to_awaited_action db
        else process_state_changes_for_hash_key_map ?new (action_info_hash_key_to_awaited_action db))"
    have fields: "aa_state ?new = aa_state new" "aa_operation_id ?new = ?oid" "aa_sort_key ?new = aa_sort_key new"
      "aa_action_info ?new = aa_action_info new" by (simp_all add: increment_version_def)
    have x_in: "?x \<in> btree_for_state (stage (aa_state old)) ?sk"
      using tables_okD(3) [OF t] old by (simp add: in_expected_set)
    have x_new: "?x \<notin> btree_for_state (stage (aa_state new))
        (write_btree_for_state (stage (aa_state old)) (btree_for_state (stage (aa_state old)) ?sk - {?x}) ?sk)"
      using tables_okD(3) [OF t] old by (auto simp: btree_write in_expected_set)
    have upd: "snd (inner_update_awaited_action new db) =
        db\<lparr>sorted_action_info_hash_keys := sk, action_info_hash_key_to_awaited_action := hk,
           operation_id_to_awaited_action := AList.update ?oid ?new ?ops\<rparr>" (is "_ = ?db")
      using old x_in x_new
      by (simp add: inner_update_awaited_action_def process_state_changes_def insert_sort_map_for_stage_def
          fields sk_def hk_def Let_def)
    have sort: "aa_sort_key new = aa_sort_key old" using same old by blast
    have ops: "map_of (operation_id_to_awaited_action ?db) = (map_of ?ops)(?oid \<mapsto> ?new)"
      by (simp add: map_of_update)
    have sets: "btree_for_state st sk = expected_set ?db (bucket_of st)" for st
    proof (rule set_eqI)
      fix y
      show "y \<in> btree_for_state st sk \<longleftrightarrow> y \<in> expected_set ?db (bucket_of st)"
        using tables_okD(3) [OF t] old(1) sort same_stage_bucket [of "stage (aa_state old)" "stage (aa_state new)"]
        by (cases y; cases "saa_operation_id y = ?oid")
          (auto simp: sk_def btree_write in_expected_set map_of_update fields split: if_splits)
    qed
    have keys: "\<exists>a. map_of (operation_id_to_awaited_action ?db) oid' = Some a
        \<and> unique_qualifier (aa_action_info a) = Cachable key \<and> \<not> is_finished (stage (aa_state a))"
      if "hk key = Some oid'" for key oid'
    proof -
      have hk: "action_info_hash_key_to_awaited_action db key = Some oid'"
        using that by (auto simp: hk_def process_state_changes_for_hash_key_map_def
            split: if_splits action_unique_qualifier.splits)
      from tables_okD(4) [OF t hk] obtain a where a: "map_of ?ops oid' = Some a"
        "unique_qualifier (aa_action_info a) = Cachable key" "\<not> is_finished (stage (aa_state a))" by blast
      show ?thesis
      proof (cases "oid' = ?oid")
        case False
        with a show ?thesis by (simp add: map_of_update)
      next
        case True
        with a old have "unique_qualifier (aa_action_info new) = Cachable key" by simp
        moreover from this that True have "\<not> is_finished (stage (aa_state new))"
          using a old same_stage_finished [of "stage (aa_state old)" "stage (aa_state new)"]
          by (auto simp: hk_def process_state_changes_for_hash_key_map_def fields split: if_splits)
        ultimately show ?thesis using True by (simp add: map_of_update fields)
      qed
    qed
    have "tables_ok ?db"
      unfolding tables_ok_def
    proof (intro conjI allI impI)
      show "distinct (map fst (operation_id_to_awaited_action ?db))"
        using tables_okD(1) [OF t] by (simp add: distinct_keys_update)
      show "aa_operation_id a = oid" if "map_of (operation_id_to_awaited_action ?db) oid = Some a" for oid a
        using that tables_okD(2) [OF t] unfolding ops by (auto simp: fields split: if_splits)
      show "btree_for_state st (sorted_action_info_hash_keys ?db) = expected_set ?db (bucket_of st)" for st
        using sets by simp
      show "\<exists>a. map_of (operation_id_to_awaited_action ?db) oid = Some a
          \<and> unique_qualifier (aa_action_info a) = Cachable key \<and> \<not> is_finished (stage (aa_state a))"
        if "action_info_hash_key_to_awaited_action ?db key = Some oid" for key oid
        using that keys by simp
      show "connected_clients_for_operation_id ?db oid = None
          \<longleftrightarrow> map_of (operation_id_to_awaited_action ?db) oid = None" for oid
        unfolding ops using tables_okD(5) [OF t] old(1) by auto
      show "connected_clients_for_operation_id ?db oid \<noteq> Some 0" for oid
        using tables_okD(6) [OF t] by simp
    qed
    with ok show ?thesis
      unfolding upd by (simp add: db_ok_def client_count_def live_clients_def)
  qed
qed

text \<open>Reads of the client table and the joining of a known operation.\<close>

lemma db_ok_clients:
  assumes "db_ok L evs db"
    and "\<And>s. owned L (snd (f s)) = mset [] + owned L s"
  shows "db_ok L evs (snd (with_clients f db))"
  using assms(1) live_with_clients [where f = f, OF assms(2)] by (simp add: db_ok_def client_count_def)

lemma db_ok_get:
  assumes "lru_cache L" and "db_ok L evs db"
  shows "db_ok L evs (snd (get_awaited_action_by_id L cfg now cid db))"
proof -
  have "snd (get_awaited_action_by_id L cfg now cid db) = snd (with_clients (em_get L client_entry cfg now cid) db)"
    by (simp add: get_awaited_action_by_id_def split_beta Let_def split: option.split)
  then show ?thesis
    using db_ok_clients [where f = "em_get L client_entry cfg now cid", OF assms(2)]
      evicting_map.owned_get [OF evicting_map.intro [OF assms(1)]] by simp
qed

lemma db_ok_keep_alive:
  assumes "lru_cache L" and "db_ok L (ClientKeepAlive cid # evs) db"
  shows "db_ok L evs (handle_action_event L cfg now (ClientKeepAlive cid) db)"
proof -
  have "db_ok L evs db" using assms(2) by (simp add: db_ok_def live_clients_def)
  then show ?thesis
    using db_ok_clients [where f = "size_for_key L client_entry cfg now cid"]
      evicting_map.owned_size [OF evicting_map.intro [OF assms(1)]] by simp
qed

lemma db_ok_events:
  assumes "lru_cache L"
  shows "db_ok L evs db \<Longrightarrow> db_ok L [] (handle_action_events L cfg now evs db)"
proof (induction evs arbitrary: db)
  case Nil
  then show ?case by (simp add: handle_action_events_def)
next
  case (Cons e evs)
  then have "db_ok L evs (handle_action_event L cfg now e db)"
    using db_ok_drop db_ok_keep_alive [OF assms] by (cases e) blast+
  with Cons.IH show ?case by (simp add: handle_action_events_def)
qed

lemma db_ok_cycle:
  assumes "lru_cache L" and "db_ok L [] db"
  shows "db_ok L [] (action_events_cycle L cfg now db)"
proof -
  let ?db = "db\<lparr>action_events := drop 1024 (action_events db)\<rparr>"
  have "tables_ok ?db" using assms(2) tables_cong [of ?db db] by (simp add: db_ok_def)
  moreover have "live_clients L (take 1024 (action_events db)) ?db oid = live_clients L [] db oid" for oid
    by (simp add: live_clients_def)
  ultimately have "db_ok L (take 1024 (action_events db)) ?db"
    using assms(2) by (simp add: db_ok_def client_count_def)
  then show ?thesis unfolding action_events_cycle_def by (rule db_ok_events [OF assms(1)])
qed

lemma try_subscribe_cases:
  assumes "tables_ok db"
  shows "try_subscribe L cfg now cid q db =
    (case q of
       Uncachable _ \<Rightarrow> (Ok None, db)
     | Cachable key \<Rightarrow>
         (case action_info_hash_key_to_awaited_action db key of
            None \<Rightarrow> (Ok None, db)
          | Some oid \<Rightarrow>
              (Ok (Some \<lparr>sub_operation_id = oid, sub_client_operation_id = Some cid\<rparr>),
               snd (with_clients (em_insert L client_entry cfg now cid oid)
                 (db\<lparr>connected_clients_for_operation_id :=
                       (connected_clients_for_operation_id db)(oid \<mapsto> client_count db oid + 1)\<rparr>)))))"
proof (cases "\<exists>key oid. q = Cachable key \<and> action_info_hash_key_to_awaited_action db key = Some oid")
  case False
  then show ?thesis
    by (auto simp: try_subscribe_def split: action_unique_qualifier.split option.split)
next
  case True
  then obtain key oid where q: "q = Cachable key" and k: "action_info_hash_key_to_awaited_action db key = Some oid"
    by blast
  from tables_okD(4) [OF assms k] obtain a where
    a: "map_of (operation_id_to_awaited_action db) oid = Some a" "\<not> is_finished (stage (aa_state a))" by blast
  then obtain n where "connected_clients_for_operation_id db oid = Some n"
    using tables_okD(5) [OF assms, of oid] by fastforce
  with q k a show ?thesis
    by (simp add: try_subscribe_def client_count_def split_beta Let_def)
qed

lemma db_ok_subscribe:
  assumes L: "lru_cache L" and ok: "db_ok L evs db"
  shows "db_ok L evs (snd (try_subscribe L cfg now cid q db))"
proof -
  have t: "tables_ok db" using ok by (simp add: db_ok_def)
  show ?thesis
  proof (cases "\<exists>key oid. q = Cachable key \<and> action_info_hash_key_to_awaited_action db key = Some oid")
    case False
    then have "snd (try_subscribe L cfg now cid q db) = db"
      unfolding try_subscribe_cases [OF t] by (auto split: action_unique_qualifier.split option.split)
    with ok show ?thesis by simp
  next
    case True
    then obtain key oid where q: "q = Cachable key" and k: "action_info_hash_key_to_awaited_action db key = Some oid"
      by blast
    let ?db = "db\<lparr>connected_clients_for_operation_id :=
        (connected_clients_for_operation_id db)(oid \<mapsto> client_count db oid + 1)\<rparr>"
    from tables_okD(4) [OF t k] have "map_of (operation_id_to_awaited_action db) oid \<noteq> None" by auto
    then have "tables_ok ?db"
      using t unfolding tables_ok_def expected_set_def by auto
    moreover have "client_count ?db x = count (mset [oid]) x + live_clients L evs ?db x" for x
      using ok by (auto simp: db_ok_def client_count_def live_clients_def)
    moreover note live_with_clients [where db = ?db and evs = evs and f = "em_insert L client_entry cfg now cid oid",
        OF evicting_map.owned_insert [OF evicting_map.intro [OF L]]]
    ultimately show ?thesis
      unfolding try_subscribe_cases [OF t] q using k by (simp add: db_ok_def)
  qed
qed

lemma awaited_action_new_fields:
  assumes "awaited_action_new oid info now = Some a"
  shows "aa_operation_id a = oid" "aa_action_info a = info" "stage (aa_state a) = Queued"
    "aa_version a = 0" "aa_worker_id a = None" "aa_attempts a = 0"
  using assms by (auto simp: awaited_action_new_def split: option.splits)

lemma add_action_cases:
  assumes t: "tables_ok db" and fresh: "map_of (operation_id_to_awaited_action db) new_id = None"
    and new: "awaited_action_new new_id info now_time = Some a"
    and absent: "\<And>key. unique_qualifier info = Cachable key \<Longrightarrow> action_info_hash_key_to_awaited_action db key = None"
  shows "inner_add_action L cfg now now_time new_id cid info db =
    Some (Ok \<lparr>sub_operation_id = new_id, sub_client_operation_id = Some cid\<rparr>,
      (snd (with_clients (em_insert L client_entry cfg now cid new_id) (make_client_awaited_action new_id a db)))
        \<lparr>action_info_hash_key_to_awaited_action :=
           (case unique_qualifier info of
              Cachable key \<Rightarrow> (action_info_hash_key_to_awaited_action db)(key \<mapsto> new_id)
            | Uncachable _ \<Rightarrow> action_info_hash_key_to_awaited_action db),
         sorted_action_info_hash_keys :=
           (sorted_action_info_hash_keys db)
             \<lparr>sa_queued := insert (SortedAA (aa_sort_key a) new_id) (sa_queued (sorted_action_info_hash_keys db))\<rparr>\<rparr>)"
proof -
  have "try_subscribe L cfg now cid (unique_qualifier info) db = (Ok None, db)"
    unfolding try_subscribe_cases [OF t] using absent by (auto split: action_unique_qualifier.split option.split)
  moreover have "SortedAA (aa_sort_key a) new_id \<notin> sa_queued (sorted_action_info_hash_keys db)"
    using tables_okD(3) [OF t, of Queued] fresh by (simp add: in_expected_set)
  ultimately show ?thesis
    using new
    by (auto simp: inner_add_action_def insert_sort_map_for_stage_def make_client_awaited_action_def
        split_beta Let_def split: action_unique_qualifier.split)
qed

lemma db_ok_add:
  assumes L: "lru_cache L" and ok: "db_ok L evs db"
    and fresh: "map_of (operation_id_to_awaited_action db) new_id = None"
    and add: "inner_add_action L cfg now now_time new_id cid info db = Some (r, db')"
  shows "db_ok L evs db'"
proof -
  have t: "tables_ok db" using ok by (simp add: db_ok_def)
  show ?thesis
  proof (cases "\<exists>key oid. unique_qualifier info = Cachable key \<and> action_info_hash_key_to_awaited_action db key = Some oid")
    case True
    then have "db' = snd (try_subscribe L cfg now cid (unique_qualifier info) db)"
      using add unfolding inner_add_action_def try_subscribe_cases [OF t] by (auto simp: Let_def)
    with db_ok_subscribe [OF L ok] show ?thesis by simp
  next
    case False
    then have absent: "action_info_hash_key_to_awaited_action db key = None" if "unique_qualifier info = Cachable key" for key
      using that by auto
    have "try_subscribe L cfg now cid (unique_qualifier info) db = (Ok None, db)"
      unfolding try_subscribe_cases [OF t] using absent by (auto split: action_unique_qualifier.split option.split)
    then obtain a where new: "awaited_action_new new_id info now_time = Some a"
      using add by (auto simp: inner_add_action_def split: option.splits)
    let ?db1 = "make_client_awaited_action new_id a db"
    have db': "db' = (snd (with_clients (em_insert L client_entry cfg now cid new_id) ?db1))
        \<lparr>action_info_hash_key_to_awaited_action :=
           (case unique_qualifier info of
              Cachable key \<Rightarrow> (action_info_hash_key_to_awaited_action db)(key \<mapsto> new_id)
            | Uncachable _ \<Rightarrow> action_info_hash_key_to_awaited_action db),
         sorted_action_info_hash_keys :=
           (sorted_action_info_hash_keys db)
             \<lparr>sa_queued := insert (SortedAA (aa_sort_key a) new_id) (sa_queued (sorted_action_info_hash_keys db))\<rparr>\<rparr>"
      using add add_action_cases [OF t fresh new absent, of L cfg now cid] by simp
    have ops: "map_of (operation_id_to_awaited_action db') = (map_of (operation_id_to_awaited_action db))(new_id \<mapsto> a)"
      by (simp add: db' make_client_awaited_action_def map_of_update)
    have conn: "connected_clients_for_operation_id db' = (connected_clients_for_operation_id db)(new_id \<mapsto> 1)"
      by (simp add: db' make_client_awaited_action_def)
    have none: "connected_clients_for_operation_id db new_id = None"
      using tables_okD(5) [OF t] fresh by simp
    have tables: "tables_ok db'"
      unfolding tables_ok_def
    proof (intro conjI allI impI)
      show "distinct (map fst (operation_id_to_awaited_action db'))"
        using tables_okD(1) [OF t] by (simp add: db' make_client_awaited_action_def distinct_keys_update)
      show "aa_operation_id x = oid" if "map_of (operation_id_to_awaited_action db') oid = Some x" for oid x
        using that tables_okD(2) [OF t] awaited_action_new_fields [OF new] unfolding ops by (auto split: if_splits)
      show "btree_for_state st (sorted_action_info_hash_keys db') = expected_set db' (bucket_of st)" for st
      proof (rule set_eqI)
        fix y
        show "y \<in> btree_for_state st (sorted_action_info_hash_keys db') \<longleftrightarrow> y \<in> expected_set db' (bucket_of st)"
          using tables_okD(3) [OF t, of st] awaited_action_new_fields(3) [OF new] fresh
          by (cases st; cases y; cases "saa_operation_id y = new_id")
            (auto simp: in_expected_set ops, auto simp: db' in_expected_set)
      qed
      show "\<exists>x. map_of (operation_id_to_awaited_action db') oid = Some x
          \<and> unique_qualifier (aa_action_info x) = Cachable key \<and> \<not> is_finished (stage (aa_state x))"
        if "action_info_hash_key_to_awaited_action db' key = Some oid" for key oid
        using that tables_okD(4) [OF t, of key oid] awaited_action_new_fields [OF new] fresh unfolding ops
        by (auto simp: db' is_finished_def split: action_unique_qualifier.splits if_splits)
      show "connected_clients_for_operation_id db' oid = None \<longleftrightarrow> map_of (operation_id_to_awaited_action db') oid = None" for oid
        unfolding ops conn using tables_okD(5) [OF t] by auto
      show "connected_clients_for_operation_id db' oid \<noteq> Some 0" for oid
        unfolding conn using tables_okD(6) [OF t] by auto
    qed
    moreover have "client_count db' x = live_clients L evs db' x" for x
    proof -
      have "live_clients L evs db' x = count (mset [new_id]) x + live_clients L evs ?db1 x"
        using live_with_clients [where db = ?db1 and evs = evs and f = "em_insert L client_entry cfg now cid new_id",
            OF evicting_map.owned_insert [OF evicting_map.intro [OF L]], of x]
        by (simp add: db' live_clients_def)
      moreover have "live_clients L evs ?db1 x = client_count db x"
        using ok by (simp add: db_ok_def live_clients_def make_client_awaited_action_def)
      ultimately show ?thesis using none by (auto simp: client_count_def conn)
    qed
    ultimately show ?thesis by (simp add: db_ok_def)
  qed
qed

section \<open>Reachable states\<close>

text \<open>
  An update is computed from a copy of the stored action by the setters of \<open>AwaitedAction\<close>, none of
  which changes the sort key.
\<close>

inductive db_reach :: "'c client_lru \<Rightarrow> em_config \<Rightarrow> 'c adb \<Rightarrow> bool" for L cfg where
  new: "db_reach L cfg (adb_new L)"
| add: "db_reach L cfg db \<Longrightarrow> map_of (operation_id_to_awaited_action db) new_id = None
    \<Longrightarrow> db_add_action L cfg now now_time new_id cid info db = Some (r, db') \<Longrightarrow> db_reach L cfg db'"
| update: "db_reach L cfg db
    \<Longrightarrow> (\<And>old. map_of (operation_id_to_awaited_action db) (aa_operation_id a) = Some old
          \<Longrightarrow> aa_version old = aa_version a \<Longrightarrow> aa_sort_key a = aa_sort_key old)
    \<Longrightarrow> update_awaited_action a db = (r', db') \<Longrightarrow> db_reach L cfg db'"
| get: "db_reach L cfg db \<Longrightarrow> get_awaited_action_by_id L cfg now cid db = (r'', db') \<Longrightarrow> db_reach L cfg db'"
| events: "db_reach L cfg db \<Longrightarrow> db_reach L cfg (action_events_cycle L cfg now db)"
| send_keep_alive: "db_reach L cfg db
    \<Longrightarrow> db_reach L cfg (db\<lparr>action_events := action_events db @ [ClientKeepAlive cid]\<rparr>)"

lemma db_ok_new: "lru_cache L \<Longrightarrow> db_ok L [] (adb_new L)"
  using evicting_map.owned_new [OF evicting_map.intro, of L]
  by (simp add: db_ok_def tables_new client_count_def live_clients_def) (simp add: adb_new_def owned_def em_state_new_def)

lemma db_ok_permit: "db_ok L evs (db\<lparr>tasks_change_permit := b\<rparr>) \<longleftrightarrow> db_ok L evs db"
  using tables_cong [of "db\<lparr>tasks_change_permit := b\<rparr>" db]
  by (simp add: db_ok_def client_count_def live_clients_def)

lemma db_reach_ok:
  assumes "lru_cache L"
  shows "db_reach L cfg db \<Longrightarrow> db_ok L [] db"
proof (induction rule: db_reach.induct)
  case new
  show ?case using assms by (rule db_ok_new)
next
  case (add db new_id now now_time cid info r db')
  then obtain r' db1 where "inner_add_action L cfg now now_time new_id cid info db = Some (r', db1)"
    and "db' = db1 \<or> db' = db1\<lparr>tasks_change_permit := True\<rparr>"
    by (auto simp: db_add_action_def split: option.splits sum.splits)
  with db_ok_add [OF assms add.IH add.hyps(2)] show ?case by (auto simp: db_ok_permit)
next
  case (update db a r' db')
  then have "db' = snd (inner_update_awaited_action a db)
      \<or> db' = (snd (inner_update_awaited_action a db))\<lparr>tasks_change_permit := True\<rparr>"
    by (auto simp: update_awaited_action_def split: prod.splits sum.splits)
  with db_ok_update [OF update.IH update.hyps(2)] show ?case by (auto simp: db_ok_permit)
next
  case (get db now cid r'' db')
  then show ?case using db_ok_get [OF assms get.IH, of cfg now cid] by simp
next
  case (events db now)
  then show ?case by (intro db_ok_cycle [OF assms])
next
  case (send_keep_alive db cid)
  then show ?case
    using tables_cong [of "db\<lparr>action_events := action_events db @ [ClientKeepAlive cid]\<rparr>" db]
    by (simp add: db_ok_def client_count_def live_clients_def)
qed

section \<open>Updates of a consistent database\<close>

lemma update_cas:
  assumes t: "tables_ok db"
    and old: "map_of (operation_id_to_awaited_action db) (aa_operation_id new) = Some old"
    and "unique_qualifier (aa_action_info new) = unique_qualifier (aa_action_info old)"
    and "aa_sort_key new = aa_sort_key old"
  shows "if aa_version new = aa_version old
    then (\<exists>db'. update_awaited_action new db = (Ok (), db')
           \<and> map_of (operation_id_to_awaited_action db')
               = (map_of (operation_id_to_awaited_action db))(aa_operation_id new \<mapsto> increment_version new))
    else (\<exists>e. update_awaited_action new db = (Err e, db) \<and> code e = Aborted)"
proof (cases "aa_version new = aa_version old")
  case False
  then show ?thesis
    using old by (simp add: update_awaited_action_def inner_update_awaited_action_def)
next
  case True
  let ?sk = "sorted_action_info_hash_keys db" and ?x = "SortedAA (aa_sort_key old) (aa_operation_id new)"
  have x_in: "?x \<in> btree_for_state (stage (aa_state old)) ?sk"
    using tables_okD(3) [OF t] old by (simp add: in_expected_set)
  have x_new: "?x \<notin> btree_for_state (stage (aa_state new))
      (write_btree_for_state (stage (aa_state old)) (btree_for_state (stage (aa_state old)) ?sk - {?x}) ?sk)"
    using tables_okD(3) [OF t] old by (auto simp: btree_write in_expected_set)
  with True assms(2,3) x_in show ?thesis
    by (simp add: update_awaited_action_def inner_update_awaited_action_def process_state_changes_def
        insert_sort_map_for_stage_def map_of_update Let_def increment_version_def)
qed

lemma update_gone:
  "map_of (operation_id_to_awaited_action db) (aa_operation_id new) = None \<Longrightarrow>
     \<exists>e. update_awaited_action new db = (Err e, db) \<and> code e = Internal"
  by (simp add: update_awaited_action_def inner_update_awaited_action_def)

lemma db_ok_update_awaited_action:
  assumes "db_ok L evs db" and "map_of (operation_id_to_awaited_action db) (aa_operation_id new) = Some old"
    and "aa_sort_key new = aa_sort_key old"
  shows "db_ok L evs (snd (update_awaited_action new db))"
  using db_ok_update [OF assms(1), of new] assms(2,3)
  by (auto simp: update_awaited_action_def db_ok_permit split: prod.split sum.split)

section \<open>Properties\<close>

text \<open>One queued action, on the reference LRU, for the instances below.\<close>

definition sample_key :: action_unique_key where
  "sample_key = \<lparr>key_instance_name = ''main'', key_digest_function = Sha256, key_digest = zero_digest\<rparr>"

definition sample_info :: action_info where
  "sample_info =
     \<lparr>command_digest = zero_digest, input_root_digest = zero_digest, timeout = 0,
      ai_platform_properties = [], priority = 5, load_timestamp = 0, insert_timestamp = 7000000000,
      unique_qualifier = Cachable sample_key\<rparr>"

definition no_limits :: em_config where
  "no_limits = \<lparr>max_bytes = 0, evict_bytes = 0, max_seconds = 0, max_count = 0\<rparr>"

definition sample_db :: "(operation_id \<times> operation_id eviction_item) list adb" where
  "sample_db = snd (the (db_add_action list_lru no_limits 0 0 (Op_Uuid 1) (Op_String ''c1'') sample_info
     (adb_new list_lru)))"

definition sample_action :: awaited_action where
  "sample_action = the (awaited_action_new (Op_Uuid 1) sample_info 0)"

lemma sample_action_fields:
  "aa_operation_id sample_action = Op_Uuid 1" "aa_version sample_action = 0"
  "aa_action_info sample_action = sample_info" "stage (aa_state sample_action) = Queued"
  "awaited_action_new (Op_Uuid 1) sample_info 0 = Some sample_action"
  by (simp_all add: sample_action_def awaited_action_new_def sort_key_new_with_unique_key_def
      duration_since_def sample_info_def)

lemma sample_inner_add:
  "inner_add_action list_lru no_limits 0 0 (Op_Uuid 1) (Op_String ''c1'') sample_info (adb_new list_lru)
     = Some (Ok \<lparr>sub_operation_id = Op_Uuid 1, sub_client_operation_id = Some (Op_String ''c1'')\<rparr>,
          (snd (with_clients (em_insert list_lru client_entry no_limits 0 (Op_String ''c1'') (Op_Uuid 1))
             (make_client_awaited_action (Op_Uuid 1) sample_action (adb_new list_lru))))
          \<lparr>action_info_hash_key_to_awaited_action := [sample_key \<mapsto> Op_Uuid 1],
           sorted_action_info_hash_keys := (sorted_action_info_hash_keys (adb_new list_lru))
             \<lparr>sa_queued := {SortedAA (aa_sort_key sample_action) (Op_Uuid 1)}\<rparr>\<rparr>)"
    using add_action_cases [OF tables_new _ sample_action_fields(5), of list_lru list_lru no_limits 0 "Op_String ''c1''"]
    by (simp add: adb_new_def sample_info_def)

lemma sample_db_add:
  "db_add_action list_lru no_limits 0 0 (Op_Uuid 1) (Op_String ''c1'') sample_info (adb_new list_lru)
     = Some (Ok \<lparr>sub_operation_id = Op_Uuid 1, sub_client_operation_id = Some (Op_String ''c1'')\<rparr>, sample_db)"
  "map_of (operation_id_to_awaited_action sample_db) = [Op_Uuid 1 \<mapsto> sample_action]"
  "action_info_hash_key_to_awaited_action sample_db = [sample_key \<mapsto> Op_Uuid 1]"
  using sample_inner_add by (simp_all add: sample_db_def db_add_action_def make_client_awaited_action_def adb_new_def)

lemma sample_db_length: "length (operation_id_to_awaited_action sample_db) < 2"
  using sample_inner_add by (simp add: sample_db_def db_add_action_def make_client_awaited_action_def adb_new_def)

lemma sample_db_reach: "db_reach list_lru no_limits sample_db"
  using db_reach.add [OF db_reach.new _ sample_db_add(1)] by (simp add: adb_new_def)

text \<open>
  C5. The tables agree. In every reachable state of the database, the sorted set of each stage holds
  exactly the operations in that stage, under their sort keys; every entry of the de-duplication
  table names an unfinished operation with that cachable key; and an operation is in the table exactly
  while it has clients, the count being the entries of the client table plus the drops still to be
  handled.
\<close>

theorem db_tables_consistent:
  assumes "lru_cache L" and "db_reach L cfg db"
  shows "(\<forall>st x. x \<in> btree_for_state st (sorted_action_info_hash_keys db) \<longleftrightarrow>
        (\<exists>a. map_of (operation_id_to_awaited_action db) (saa_operation_id x) = Some a
             \<and> saa_sort_key x = aa_sort_key a \<and> bucket_of (stage (aa_state a)) = bucket_of st))
    \<and> (\<forall>key oid. action_info_hash_key_to_awaited_action db key = Some oid \<longrightarrow>
        (\<exists>a. map_of (operation_id_to_awaited_action db) oid = Some a
             \<and> unique_qualifier (aa_action_info a) = Cachable key \<and> \<not> is_finished (stage (aa_state a))))
    \<and> (\<forall>oid. client_count db oid = live_clients L [] db oid
             \<and> (client_count db oid \<noteq> 0 \<longleftrightarrow> map_of (operation_id_to_awaited_action db) oid \<noteq> None))"
proof -
  have t: "tables_ok db" and c: "client_count db oid = live_clients L [] db oid" for oid
    using db_reach_ok [OF assms] by (simp_all add: db_ok_def)
  have "client_count db oid \<noteq> 0 \<longleftrightarrow> map_of (operation_id_to_awaited_action db) oid \<noteq> None" for oid
    using tables_okD(5,6) [OF t, of oid] by (auto simp: client_count_def split: option.splits)
  with c tables_okD(3,4) [OF t] show ?thesis by (simp add: in_expected_set)
qed

theorem db_tables_consistent_witness:
  "SortedAA (aa_sort_key sample_action) (Op_Uuid 1) \<in> sa_queued (sorted_action_info_hash_keys sample_db)
   \<and> live_clients list_lru [] sample_db (Op_Uuid 1) \<noteq> 0"
  using db_tables_consistent [OF ll.lru_cache_axioms sample_db_reach]
    sample_db_add(2) sample_action_fields
  by (metis (no_types, lifting) btree_for_state.simps(3) fun_upd_same option.distinct(1) sorted_awaited_action.sel)



text \<open>
  C17. Updates are compare-and-swap. An update computed from the stored version succeeds if the action
  keeps its key: the new value is stored with the version increased by one and nothing else in the
  operation table changes. An update computed from any other version fails with \<open>Aborted\<close> and changes
  nothing.
\<close>

theorem update_awaited_action_cas:
  assumes "lru_cache L" and "db_reach L cfg db"
    and "map_of (operation_id_to_awaited_action db) (aa_operation_id new) = Some old"
    and "unique_qualifier (aa_action_info new) = unique_qualifier (aa_action_info old)"
    and "aa_sort_key new = aa_sort_key old"
  shows "if aa_version new = aa_version old
    then (\<exists>db'. update_awaited_action new db = (Ok (), db')
           \<and> map_of (operation_id_to_awaited_action db')
               = (map_of (operation_id_to_awaited_action db))(aa_operation_id new \<mapsto> new\<lparr>aa_version := aa_version old + 1\<rparr>))
    else (\<exists>e. update_awaited_action new db = (Err e, db) \<and> code e = Aborted)"
  using update_cas [OF _ assms(3-5)] db_reach_ok [OF assms(1,2)]
  by (auto simp: db_ok_def increment_version_def)

theorem update_awaited_action_cas_witness:
  "\<exists>e. update_awaited_action (sample_action\<lparr>aa_version := 3\<rparr>) sample_db = (Err e, sample_db) \<and> code e = Aborted"
  using update_awaited_action_cas [OF ll.lru_cache_axioms sample_db_reach,
      of "sample_action\<lparr>aa_version := 3\<rparr>" sample_action]
  by (simp add: sample_db_add sample_action_fields)

text \<open>
  C34. Dropping a finished operation forgets a running one. When the last client of a finished
  cachable operation goes away, the key is removed from the de-duplication table without checking
  that it still belongs to that operation. If the same action has been submitted again meanwhile, the
  running operation is forgotten: it stays in the operation table, but the next submission of the
  action is not joined to it.
\<close>

theorem stale_drop_forgets_running:
  assumes "map_of (operation_id_to_awaited_action db) old_id = Some old"
    and "is_finished (stage (aa_state old))" and "unique_qualifier (aa_action_info old) = Cachable key"
    and "connected_clients_for_operation_id db old_id = Some 1"
    and "action_info_hash_key_to_awaited_action db key = Some run_id" and "run_id \<noteq> old_id"
    and "db' = handle_action_event L cfg now (ClientDroppedOperation old_id) db"
  shows "map_of (operation_id_to_awaited_action db') run_id = map_of (operation_id_to_awaited_action db) run_id
    \<and> fst (try_subscribe L cfg now cid (Cachable key) db) \<noteq> Ok None
    \<and> fst (try_subscribe L cfg now cid (Cachable key) db') = Ok None"
  using assms handle_drop_eq [OF assms(1,4), of L cfg now]
  by (simp add: clear_operation_def try_subscribe_def delete_conv' split_beta Let_def split: option.split)

definition stale_db :: "(operation_id \<times> operation_id eviction_item) list adb" where
  "stale_db = sample_db
     \<lparr>operation_id_to_awaited_action :=
        [(Op_Uuid 1, sample_action\<lparr>aa_state := (aa_state sample_action)\<lparr>stage := Completed action_result_default\<rparr>\<rparr>),
         (Op_Uuid 2, sample_action\<lparr>aa_operation_id := Op_Uuid 2\<rparr>)],
      action_info_hash_key_to_awaited_action := [sample_key \<mapsto> Op_Uuid 2],
      connected_clients_for_operation_id := [Op_Uuid 1 \<mapsto> 1, Op_Uuid 2 \<mapsto> 1]\<rparr>"

theorem stale_drop_forgets_running_witness:
  "map_of (operation_id_to_awaited_action
       (handle_action_event list_lru no_limits 0 (ClientDroppedOperation (Op_Uuid 1)) stale_db)) (Op_Uuid 2)
     = Some (sample_action\<lparr>aa_operation_id := Op_Uuid 2\<rparr>)
   \<and> fst (try_subscribe list_lru no_limits 0 (Op_String ''c3'') (Cachable sample_key)
       (handle_action_event list_lru no_limits 0 (ClientDroppedOperation (Op_Uuid 1)) stale_db)) = Ok None"
proof -
  let ?old = "sample_action\<lparr>aa_state := (aa_state sample_action)\<lparr>stage := Completed action_result_default\<rparr>\<rparr>"
  have "map_of (operation_id_to_awaited_action stale_db) (Op_Uuid 1) = Some ?old"
    "map_of (operation_id_to_awaited_action stale_db) (Op_Uuid 2) = Some (sample_action\<lparr>aa_operation_id := Op_Uuid 2\<rparr>)"
    "connected_clients_for_operation_id stale_db (Op_Uuid 1) = Some 1"
    "action_info_hash_key_to_awaited_action stale_db sample_key = Some (Op_Uuid 2)"
    by (simp_all add: stale_db_def)
  then show ?thesis
    using stale_drop_forgets_running [of stale_db "Op_Uuid 1" ?old sample_key "Op_Uuid 2" _ list_lru no_limits 0
        "Op_String ''c3''"]
    by (simp add: is_finished_def sample_action_fields sample_info_def)
qed

end
