(* ===== verification/Chunked_Stream.thy ===== *)
theory Chunked_Stream
  imports NL_Error
begin

text \<open>
  \<open>ChunkedStream\<close> (nativelink-util/src/chunked_stream.rs) together with the loop that consumes it. The
  stream asks \<open>chunk_fn\<close> for a chunk between two keys, hands out its items, and asks again from where
  the chunk ended, until there is none. \<open>chunk_fn\<close> reads the state at the time of the call, so the
  consumer's own changes are visible in later chunks. An outer \<open>None\<close> of a chunk is a panic. Once a
  chunk has failed, the stream still holds the finished future: asking for another item polls it
  again, which panics.
\<close>

section \<open>Consumers\<close>

text \<open>What the body of a consuming loop does: go on, leave the loop, leave it with an error, or panic.\<close>

datatype 'st flow = Continue 'st | Stop 'st | Failed error 'st | Panicked

fun run_buffer :: "('a \<Rightarrow> 'st \<Rightarrow> 'st flow) \<Rightarrow> 'a list \<Rightarrow> 'st \<Rightarrow> 'st flow" where
  "run_buffer body [] st = Continue st"
| "run_buffer body (x # xs) st =
     (case body x st of Continue st' \<Rightarrow> run_buffer body xs st' | r \<Rightarrow> r)"

type_synonym ('k, 'a, 'st) chunk_fn =
  "'k bound \<Rightarrow> 'k bound \<Rightarrow> 'st \<Rightarrow> (('k bound \<times> 'k bound) \<times> 'a list) option result option"

text \<open>The number of chunks is bounded by \<open>fuel\<close>; \<open>None\<close> means that it ran out.\<close>

fun run_chunked ::
  "nat \<Rightarrow> ('k, 'a, 'st) chunk_fn \<Rightarrow> ('a result \<Rightarrow> 'st \<Rightarrow> 'st flow) \<Rightarrow> 'k bound \<Rightarrow> 'k bound \<Rightarrow> 'st
     \<Rightarrow> 'st flow option" where
  "run_chunked 0 chunk_fn body start stop st = None"
| "run_chunked (Suc fuel) chunk_fn body start stop st =
     (case chunk_fn start stop st of
        None \<Rightarrow> Some Panicked
      | Some (Inl err) \<Rightarrow> Some (case body (Err err) st of Continue _ \<Rightarrow> Panicked | r \<Rightarrow> r)
      | Some (Inr None) \<Rightarrow> Some (Continue st)
      | Some (Inr (Some ((start', stop'), buffer))) \<Rightarrow>
          (case run_buffer (\<lambda>x. body (Ok x)) buffer st of
             Continue st' \<Rightarrow> run_chunked fuel chunk_fn body start' stop' st'
           | r \<Rightarrow> Some r))"

section \<open>Invariants of a loop\<close>

text \<open>States a flow can end in.\<close>

fun flow_all :: "('st \<Rightarrow> bool) \<Rightarrow> 'st flow \<Rightarrow> bool" where
  "flow_all P (Continue st) = P st"
| "flow_all P (Stop st) = P st"
| "flow_all P (Failed e st) = P st"
| "flow_all P Panicked = False"

lemma flow_all_mono: "flow_all P r \<Longrightarrow> (\<And>st. P st \<Longrightarrow> Q st) \<Longrightarrow> flow_all Q r"
  by (cases r) auto

lemma run_buffer_inv:
  assumes "\<And>x st. x \<in> set xs \<Longrightarrow> P st \<Longrightarrow> flow_all P (body x st)" and "P st"
  shows "flow_all P (run_buffer body xs st)"
  using assms
proof (induction xs arbitrary: st)
  case Nil
  then show ?case by simp
next
  case (Cons x xs)
  have "flow_all P (body x st)" using Cons.prems by simp
  then show ?case using Cons by (cases "body x st") auto
qed

text \<open>
  A chunk is good when it does not fail and, if there is one, the new bounds leave out a key of a
  finite set \<open>U\<close> that the old ones let in; its items satisfy \<open>Q\<close>.
\<close>

definition chunk_progress ::
  "('k, 'a, 'st) chunk_fn \<Rightarrow> ('k::linorder) set \<Rightarrow> ('st \<Rightarrow> bool) \<Rightarrow> ('k bound \<Rightarrow> 'k bound \<Rightarrow> bool) \<Rightarrow> ('a \<Rightarrow> bool) \<Rightarrow> bool" where
  "chunk_progress chunk_fn U P B Q \<longleftrightarrow>
     (\<forall>start stop st. P st \<longrightarrow> B start stop \<longrightarrow>
       (chunk_fn start stop st = Some (Ok None)
        \<or> (\<exists>start' stop' buffer. chunk_fn start stop st = Some (Ok (Some ((start', stop'), buffer)))
             \<and> B start' stop' \<and> (\<forall>x \<in> set buffer. Q x)
             \<and> {x \<in> U. above_start start' x \<and> below_end stop' x} \<subset> {x \<in> U. above_start start x \<and> below_end stop x})))"

text \<open>
  If every chunk makes progress and the body keeps \<open>P\<close>, the loop ends without a panic, with \<open>P\<close>,
  given one unit of fuel more than there are keys between the bounds.
\<close>

lemma run_chunked_inv:
  assumes "finite U" and "chunk_progress chunk_fn U P B Q"
    and "\<And>x st. Q x \<Longrightarrow> P st \<Longrightarrow> flow_all P (body (Ok x) st)"
    and "P st" and "B start stop" and "card {x \<in> U. above_start start x \<and> below_end stop x} < fuel"
  shows "\<exists>r. run_chunked fuel chunk_fn body start stop st = Some r \<and> flow_all P r"
  using assms(4-)
proof (induction fuel arbitrary: start stop st)
  case 0
  then show ?case by simp
next
  case (Suc fuel)
  consider (none) "chunk_fn start stop st = Some (Ok None)"
    | (some) start' stop' buffer where "chunk_fn start stop st = Some (Ok (Some ((start', stop'), buffer)))"
      "B start' stop'" "\<forall>x \<in> set buffer. Q x"
      "{x \<in> U. above_start start' x \<and> below_end stop' x} \<subset> {x \<in> U. above_start start x \<and> below_end stop x}"
    using assms(2) Suc.prems(1,2) unfolding chunk_progress_def by blast
  then show ?case
  proof cases
    case none
    with Suc.prems show ?thesis by simp
  next
    case some
    have buf: "flow_all P (run_buffer (\<lambda>x. body (Ok x)) buffer st)"
      using assms(3) some(3) Suc.prems(1) by (intro run_buffer_inv) blast+
    have "card {x \<in> U. above_start start' x \<and> below_end stop' x} < fuel"
      using psubset_card_mono [OF _ some(4)] assms(1) Suc.prems(3) by simp
    with buf some Suc.IH show ?thesis
      by (cases "run_buffer (\<lambda>x. body (Ok x)) buffer st") auto
  qed
qed

text \<open>A body that never leaves the loop lets it run to the end of the stream, unless something panics.\<close>

fun goes_on :: "'st flow \<Rightarrow> bool" where
  "goes_on (Continue st) = True"
| "goes_on (Stop st) = False"
| "goes_on (Failed e st) = False"
| "goes_on Panicked = True"

lemma run_buffer_goes_on: "(\<And>x st. goes_on (body x st)) \<Longrightarrow> goes_on (run_buffer body xs st)"
proof (induction xs arbitrary: st)
  case (Cons x xs)
  then show ?case using Cons.prems [of x st] by (cases "body x st") auto
qed simp

lemma run_chunked_goes_on:
  assumes "\<And>item st. goes_on (body item st)"
  shows "run_chunked fuel chunk_fn body start stop st = Some r \<Longrightarrow> goes_on r"
proof (induction fuel arbitrary: start stop st)
  case (Suc fuel)
  consider "chunk_fn start stop st = None" | e where "chunk_fn start stop st = Some (Err e)"
    | "chunk_fn start stop st = Some (Ok None)"
    | start' stop' buffer where "chunk_fn start stop st = Some (Ok (Some ((start', stop'), buffer)))"
    by (metis old.sum.exhaust option.exhaust surj_pair)
  then show ?case
  proof cases
    case 1
    with Suc.prems show ?thesis by auto
  next
    case 2
    with Suc.prems assms [of "Err e" st] show ?thesis by (cases "body (Err e) st") auto
  next
    case 3
    with Suc.prems show ?thesis by auto
  next
    case 4
    have "goes_on (run_buffer (\<lambda>x. body (Ok x)) buffer st)" using assms by (rule run_buffer_goes_on)
    with 4 Suc show ?thesis by (cases "run_buffer (\<lambda>x. body (Ok x)) buffer st") auto
  qed
qed simp

end
