(* ===== verification/Action_Db.thy ===== *)
theory Action_Db
  imports Memory_Action_Db Chunked_Stream
begin

text \<open>
  The trait \<open>AwaitedActionDb\<close> (nativelink-scheduler/src/awaited_action_db/mod.rs) as a record of
  operations on a database state \<open>'d\<close> with subscribers \<open>'s\<close>, and its implementation by
  \<open>MemoryAwaitedActionDb\<close> (nativelink-scheduler/src/memory_awaited_action_db.rs). The streams are given
  by their chunk functions. The locale states what the scheduler relies on: lookups by operation id
  and compare-and-swap updates, under an invariant of the database.
\<close>

section \<open>The trait\<close>

record ('d, 's) action_db =
  adb_get_by_operation_id :: "operation_id \<Rightarrow> 'd \<Rightarrow> 's option result"
  adb_borrow :: "'s \<Rightarrow> 'd \<Rightarrow> awaited_action result"
  adb_get_awaited_action_by_id :: "operation_id \<Rightarrow> 'd \<Rightarrow> 's option result \<times> 'd"
  adb_update_awaited_action :: "awaited_action \<Rightarrow> 'd \<Rightarrow> unit result \<times> 'd"
  adb_add_action :: "system_time \<Rightarrow> operation_id \<Rightarrow> operation_id \<Rightarrow> action_info \<Rightarrow> 'd \<Rightarrow> ('s result \<times> 'd) option"
  adb_all_chunk :: "(operation_id, 's, 'd) chunk_fn"
  adb_range_chunk :: "sorted_state \<Rightarrow> bool \<Rightarrow> (sorted_awaited_action, 's, 'd) chunk_fn"

section \<open>The streams of the in-memory database\<close>

definition all_awaited_actions_chunk :: "(operation_id, subscriber, 'c adb) chunk_fn" where
  "all_awaited_actions_chunk start stop db =
     map_option (\<lambda>items.
         Ok (if items = [] then None
             else Some ((Excluded (fst (last items)), stop), map snd items)))
       (get_awaited_actions_range start stop db)"

text \<open>
  The loops over the range: items are pushed to the output until one is an error, which is returned
  with two tips, one from the iterator and one from the loop.
\<close>

fun collect_range ::
  "(sorted_awaited_action \<times> subscriber) result list \<Rightarrow> (sorted_awaited_action \<times> subscriber) list result" where
  "collect_range [] = Ok []"
| "collect_range (r # rs) =
     try_bind (err_tip ''In AwaitedActionDb::get_range_of_actions''
                 (err_tip ''In AwaitedActionDb::get_range_of_actions'' r))
       (\<lambda>p. try_bind (collect_range rs) (\<lambda>ps. Ok (p # ps)))"

definition range_of_actions_chunk ::
  "sorted_state \<Rightarrow> bool \<Rightarrow> (sorted_awaited_action, subscriber, 'c adb) chunk_fn" where
  "range_of_actions_chunk st desc start stop db =
     map_option (\<lambda>items.
         try_bind (collect_range (if desc then rev items else items))
           (\<lambda>ps. Ok (if ps = [] then None
                     else Some (if desc then (start, Excluded (fst (last ps))) else (Excluded (fst (last ps)), stop),
                                map snd ps))))
       (get_range_of_actions st start stop db)"

definition memory_db :: "'c client_lru \<Rightarrow> em_config \<Rightarrow> u64 \<Rightarrow> ('c adb, subscriber) action_db" where
  "memory_db L cfg now =
     \<lparr>adb_get_by_operation_id = (\<lambda>oid db. Ok (get_by_operation_id oid db)),
      adb_borrow = (\<lambda>sub db. opt_err_tip ''subscriber outlived its operation'' (sub_borrow sub db)),
      adb_get_awaited_action_by_id = get_awaited_action_by_id L cfg now,
      adb_update_awaited_action = update_awaited_action,
      adb_add_action = db_add_action L cfg now,
      adb_all_chunk = all_awaited_actions_chunk,
      adb_range_chunk = range_of_actions_chunk\<rparr>"

section \<open>What the scheduler relies on\<close>

text \<open>
  \<open>look\<close> is the stored action of an operation. An update is written from an earlier value of the
  action, so it has the key and the sort key of the stored one; it is accepted when the versions agree.
\<close>

definition same_job :: "awaited_action \<Rightarrow> awaited_action \<Rightarrow> bool" where
  "same_job a b \<longleftrightarrow> unique_qualifier (aa_action_info a) = unique_qualifier (aa_action_info b)
     \<and> aa_sort_key a = aa_sort_key b"

locale action_db_laws =
  fixes D :: "('d, 's) action_db" and ok :: "'d \<Rightarrow> bool" and look :: "operation_id \<Rightarrow> 'd \<Rightarrow> awaited_action option"
  assumes look_id: "ok d \<Longrightarrow> look oid d = Some a \<Longrightarrow> aa_operation_id a = oid"
    and get_none: "ok d \<Longrightarrow> look oid d = None \<Longrightarrow> adb_get_by_operation_id D oid d = Ok None"
    and get_some: "ok d \<Longrightarrow> look oid d = Some a \<Longrightarrow>
      \<exists>sub. adb_get_by_operation_id D oid d = Ok (Some sub) \<and> adb_borrow D sub d = Ok a"
    and update_current: "ok d \<Longrightarrow> look (aa_operation_id a) d = Some old \<Longrightarrow> same_job a old
      \<Longrightarrow> aa_version a = aa_version old \<Longrightarrow>
      \<exists>d'. adb_update_awaited_action D a d = (Ok (), d') \<and> ok d'
           \<and> (\<forall>x. look x d' = (if x = aa_operation_id a then Some (increment_version a) else look x d))"
    and update_stale: "ok d \<Longrightarrow> look (aa_operation_id a) d = Some old \<Longrightarrow> same_job a old
      \<Longrightarrow> aa_version a \<noteq> aa_version old \<Longrightarrow>
      \<exists>e. adb_update_awaited_action D a d = (Err e, d) \<and> code e = Aborted"
    and update_absent: "ok d \<Longrightarrow> look (aa_operation_id a) d = None \<Longrightarrow>
      \<exists>e. adb_update_awaited_action D a d = (Err e, d) \<and> code e = Internal"

text \<open>The in-memory database keeps these promises while its tables agree.\<close>

definition db_look :: "operation_id \<Rightarrow> 'c adb \<Rightarrow> awaited_action option" where
  "db_look oid db = map_of (operation_id_to_awaited_action db) oid"

interpretation mem: action_db_laws "memory_db L cfg now" "db_ok L []" db_look
  for L :: "'c client_lru" and cfg now
proof
  fix d :: "'c adb" and oid a old
  assume ok: "db_ok L [] d"
  then have t: "tables_ok d" by (simp add: db_ok_def)
  show "aa_operation_id a = oid" if "db_look oid d = Some a"
    using tables_okD(2) [OF t] that by (simp add: db_look_def)
  show "adb_get_by_operation_id (memory_db L cfg now) oid d = Ok None" if "db_look oid d = None"
    using that by (simp add: memory_db_def get_by_operation_id_def db_look_def)
  show "\<exists>sub. adb_get_by_operation_id (memory_db L cfg now) oid d = Ok (Some sub)
      \<and> adb_borrow (memory_db L cfg now) sub d = Ok a" if "db_look oid d = Some a"
    using that by (simp add: memory_db_def get_by_operation_id_def db_look_def sub_borrow_def)
  show "\<exists>d'. adb_update_awaited_action (memory_db L cfg now) a d = (Ok (), d') \<and> db_ok L [] d'
      \<and> (\<forall>x. db_look x d' = (if x = aa_operation_id a then Some (increment_version a) else db_look x d))"
    if "db_look (aa_operation_id a) d = Some old" "same_job a old" "aa_version a = aa_version old"
    using update_cas [OF t] db_ok_update_awaited_action [OF ok] that
    by (fastforce simp: memory_db_def db_look_def same_job_def)
  show "\<exists>e. adb_update_awaited_action (memory_db L cfg now) a d = (Err e, d) \<and> code e = Aborted"
    if "db_look (aa_operation_id a) d = Some old" "same_job a old" "aa_version a \<noteq> aa_version old"
    using update_cas [OF t] that by (fastforce simp: memory_db_def db_look_def same_job_def)
  show "\<exists>e. adb_update_awaited_action (memory_db L cfg now) a d = (Err e, d) \<and> code e = Internal"
    if "db_look (aa_operation_id a) d = None"
    using update_gone that by (simp add: memory_db_def db_look_def)
qed

end
