(* ===== verification/State_Manager.thy ===== *)
theory State_Manager
  imports Action_Db Api_Worker_Scheduler
begin

text \<open>
  \<open>SimpleSchedulerStateManager\<close> (nativelink-scheduler/src/simple_scheduler_state_manager.rs): what
  clients, workers and the matching engine may do to an operation. It runs on any \<open>AwaitedActionDb\<close>,
  the parameter \<open>D\<close>. Between the moment an operation reads an action and the moment it writes it back,
  other tasks may use the database: \<open>env i\<close> is what they do to it in the attempt with \<open>i\<close> attempts left.
  Times are readings of the clock, in nanoseconds since the epoch.
\<close>

section \<open>Configuration, filters\<close>

record sm_config =
  max_job_retries :: nat
  no_event_action_timeout :: nat
  client_action_timeout :: nat

definition max_update_retries :: nat where
  "max_update_retries = 5"

definition flag_cache_check :: u32 where "flag_cache_check = 2"
definition flag_queued :: u32 where "flag_queued = 4"
definition flag_executing :: u32 where "flag_executing = 8"
definition flag_completed :: u32 where "flag_completed = 16"
definition flag_any :: u32 where "flag_any = - 1"

datatype order_direction = Order_Asc | Order_Desc

record operation_filter =
  f_stages :: u32
  f_client_operation_id :: "operation_id option"
  f_operation_id :: "operation_id option"
  f_worker_id :: "worker_id option"
  f_action_digest :: "digest_info option"
  f_worker_update_before :: "system_time option"
  f_completed_before :: "system_time option"
  f_unique_key :: "action_unique_key option"
  f_order_by_priority_direction :: "order_direction option"

definition operation_filter_default :: operation_filter where
  "operation_filter_default =
     \<lparr>f_stages = flag_any, f_client_operation_id = None, f_operation_id = None, f_worker_id = None,
      f_action_digest = None, f_worker_update_before = None, f_completed_before = None,
      f_unique_key = None, f_order_by_priority_direction = None\<rparr>"

fun stage_flag :: "action_stage \<Rightarrow> u32" where
  "stage_flag Stage_Unknown = flag_any"
| "stage_flag CacheCheck = flag_cache_check"
| "stage_flag Queued = flag_queued"
| "stage_flag Executing = flag_executing"
| "stage_flag (Completed _) = flag_completed"
| "stage_flag (CompletedFromCache _) = flag_completed"

text \<open>The part of the predicate after the check for abandoned operations.\<close>

definition filter_matches :: "operation_filter \<Rightarrow> awaited_action \<Rightarrow> bool" where
  "filter_matches f a \<longleftrightarrow>
     (case f_operation_id f of None \<Rightarrow> True | Some oid \<Rightarrow> oid = aa_operation_id a)
     \<and> \<not> (f_worker_id f \<noteq> None \<and> f_worker_id f \<noteq> aa_worker_id a)
     \<and> (case f_unique_key f of
          None \<Rightarrow> True
        | Some k \<Rightarrow> (case unique_qualifier (aa_action_info a) of Cachable key \<Rightarrow> k = key | Uncachable _ \<Rightarrow> False))
     \<and> (case f_action_digest f of None \<Rightarrow> True | Some d \<Rightarrow> d = action_digest_of (aa_action_info a))
     \<and> (case f_worker_update_before f of None \<Rightarrow> True | Some t \<Rightarrow> \<not> t < aa_last_worker_updated_timestamp a)
     \<and> (case f_completed_before f of
          None \<Rightarrow> True
        | Some t \<Rightarrow> \<not> (is_finished (stage (aa_state a)) \<and> t < aa_last_worker_updated_timestamp a))
     \<and> (f_stages f = flag_any \<or> and (f_stages f) (stage_flag (stage (aa_state a))) \<noteq> 0)"

section \<open>Filtering\<close>

definition abandoned_result :: action_result where
  "abandoned_result =
     action_result_default\<lparr>result_error := Some (make_err DeadlineExceeded
       ''Operation timed out seconds of having no more clients listening'')\<rparr>"

definition apply_filter_predicate ::
  "('d, 's) action_db \<Rightarrow> sm_config \<Rightarrow> system_time \<Rightarrow> operation_filter \<Rightarrow> awaited_action \<Rightarrow> 'd \<Rightarrow> bool \<times> 'd" where
  "apply_filter_predicate D cfg now f a d =
     (if aa_last_client_keepalive_timestamp a + int (client_action_timeout cfg) < now
      then if \<not> is_finished (stage (aa_state a))
           then (False, snd (adb_update_awaited_action D
                   (worker_set_state ((aa_state a)\<lparr>stage := Completed abandoned_result\<rparr>) now a) d))
           else (False, d)
      else (filter_matches f a, d))"

section \<open>Updating an operation\<close>

text \<open>
  The stage an update that is not a keep-alive leads to, and the action with its attempts counted.
\<close>

definition stage_of_update ::
  "'w ext \<Rightarrow> sm_config \<Rightarrow> worker_id option \<Rightarrow> update_operation_type \<Rightarrow> awaited_action
     \<Rightarrow> (action_stage \<times> awaited_action) option" where
  "stage_of_update X cfg maybe_worker update a =
     (case update of
        Update_KeepAlive \<Rightarrow> None
      | UpdateWithActionStage st \<Rightarrow> Some (st, a)
      | UpdateWithError err \<Rightarrow>
          let a1 = (if code err = ResourceExhausted then a else a\<lparr>aa_attempts := aa_attempts a + 1\<rparr>)
          in Some (if max_job_retries cfg < aa_attempts a1
                   then Completed (action_result_default
                          \<lparr>result_execution_metadata := execution_metadata_default
                             \<lparr>worker := (case maybe_worker of None \<Rightarrow> [] | Some w \<Rightarrow> worker_id_to_string X w)\<rparr>,
                           result_error := Some (error_merge err (make_err Internal
                             ''Job cancelled because it attempted to execute too many times''))\<rparr>)
                   else Queued, a1))"

definition apply_update ::
  "'w ext \<Rightarrow> sm_config \<Rightarrow> system_time \<Rightarrow> operation_id \<Rightarrow> worker_id option \<Rightarrow> update_operation_type
     \<Rightarrow> awaited_action \<Rightarrow> awaited_action" where
  "apply_update X cfg now oid maybe_worker update a =
     (case stage_of_update X cfg maybe_worker update a of
        None \<Rightarrow> worker_keep_alive now a
      | Some (st, a1) \<Rightarrow>
          let a2 = (if st = Queued then set_worker_id None now a1 else set_worker_id maybe_worker now a1)
          in worker_set_state \<lparr>stage = st, client_operation_id = oid,
                               action_digest = action_digest_of (aa_action_info a2)\<rparr> now a2)"

datatype attempt = Return "unit result" | Retry error

definition update_attempt ::
  "'w ext \<Rightarrow> ('d, 's) action_db \<Rightarrow> sm_config \<Rightarrow> system_time \<Rightarrow> ('d \<Rightarrow> 'd) \<Rightarrow> operation_id \<Rightarrow> worker_id option
     \<Rightarrow> update_operation_type \<Rightarrow> 'd \<Rightarrow> attempt \<times> 'd" where
  "update_attempt X D cfg now others oid maybe_worker update d =
     (case err_tip ''In SimpleSchedulerStateManager::update_operation'' (adb_get_by_operation_id D oid d) of
        Inl e \<Rightarrow> (Return (Err e), d)
      | Inr None \<Rightarrow> (Return (Ok ()), d)
      | Inr (Some sub) \<Rightarrow>
          (case err_tip ''In SimpleSchedulerStateManager::update_operation'' (adb_borrow D sub d) of
             Inl e \<Rightarrow> (Return (Err e), d)
           | Inr a \<Rightarrow>
               if aa_worker_id a \<noteq> None \<and> maybe_worker \<noteq> None \<and> maybe_worker \<noteq> aa_worker_id a
               then (Return (Err (make_err Aborted ''Worker ids do not match'')), d)
               else if is_finished (stage (aa_state a))
               then (Return (Err (make_err Internal ''Action is already completed'')), d)
               else let (r, d') = adb_update_awaited_action D (apply_update X cfg now oid maybe_worker update a) (others d)
                    in if update = Update_KeepAlive
                       then (Return (err_tip ''Failed to send KeepAlive in SimpleSchedulerStateManager::update_operation'' r), d')
                       else (case err_tip ''In SimpleSchedulerStateManager::update_operation'' r of
                               Inl e \<Rightarrow> (if code e = Aborted then Retry e else Return (Err e), d')
                             | Inr _ \<Rightarrow> (Return (Ok ()), d'))))"

fun update_operation_loop ::
  "'w ext \<Rightarrow> ('d, 's) action_db \<Rightarrow> sm_config \<Rightarrow> (nat \<Rightarrow> system_time) \<Rightarrow> (nat \<Rightarrow> 'd \<Rightarrow> 'd) \<Rightarrow> operation_id
     \<Rightarrow> worker_id option \<Rightarrow> update_operation_type \<Rightarrow> nat \<Rightarrow> error option \<Rightarrow> 'd \<Rightarrow> unit result \<times> 'd" where
  "update_operation_loop X D cfg clock env oid maybe_worker update 0 last_err d =
     (Err (case last_err of
             Some e \<Rightarrow> e
           | None \<Rightarrow> make_err Internal ''Failed to update action after retries with no error set''), d)"
| "update_operation_loop X D cfg clock env oid maybe_worker update (Suc n) last_err d =
     (case update_attempt X D cfg (clock n) (env n) oid maybe_worker update d of
        (Return r, d') \<Rightarrow> (r, d')
      | (Retry e, d') \<Rightarrow> update_operation_loop X D cfg clock env oid maybe_worker update n (Some e) d')"

definition inner_update_operation ::
  "'w ext \<Rightarrow> ('d, 's) action_db \<Rightarrow> sm_config \<Rightarrow> (nat \<Rightarrow> system_time) \<Rightarrow> (nat \<Rightarrow> 'd \<Rightarrow> 'd) \<Rightarrow> operation_id
     \<Rightarrow> worker_id option \<Rightarrow> update_operation_type \<Rightarrow> 'd \<Rightarrow> unit result \<times> 'd" where
  "inner_update_operation X D cfg clock env oid maybe_worker update d =
     update_operation_loop X D cfg clock env oid maybe_worker update max_update_retries None d"

definition update_operation ::
  "'w ext \<Rightarrow> ('d, 's) action_db \<Rightarrow> sm_config \<Rightarrow> (nat \<Rightarrow> system_time) \<Rightarrow> (nat \<Rightarrow> 'd \<Rightarrow> 'd) \<Rightarrow> 'd update_fn" where
  "update_operation X D cfg clock env oid wid update d =
     inner_update_operation X D cfg clock env oid (Some wid) update d"

definition assign_operation ::
  "'w ext \<Rightarrow> ('d, 's) action_db \<Rightarrow> sm_config \<Rightarrow> (nat \<Rightarrow> system_time) \<Rightarrow> (nat \<Rightarrow> 'd \<Rightarrow> 'd) \<Rightarrow> operation_id
     \<Rightarrow> worker_id result \<Rightarrow> 'd \<Rightarrow> unit result \<times> 'd" where
  "assign_operation X D cfg clock env oid worker_or_reason d =
     (case worker_or_reason of
        Inr wid \<Rightarrow> inner_update_operation X D cfg clock env oid (Some wid) (UpdateWithActionStage Executing) d
      | Inl err \<Rightarrow> inner_update_operation X D cfg clock env oid None (UpdateWithError err) d)"

section \<open>Time-outs\<close>

text \<open>\<open>Duration::checked_add\<close>: the seconds of a duration are a u64.\<close>

definition duration_checked_add :: "nat \<Rightarrow> nat \<Rightarrow> nat option" where
  "duration_checked_add a b = (if a + b < 2 ^ 64 * 1000000000 then Some (a + b) else None)"

text \<open>
  \<open>elapsed\<close> is the duration \<open>(self.now_fn)().elapsed()\<close>: the time since the instant that was taken just
  before.
\<close>

definition timeout_operation_id ::
  "'w ext \<Rightarrow> ('d, 's) action_db \<Rightarrow> sm_config \<Rightarrow> (nat \<Rightarrow> system_time) \<Rightarrow> nat \<Rightarrow> (nat \<Rightarrow> 'd \<Rightarrow> 'd) \<Rightarrow> operation_id
     \<Rightarrow> 'd \<Rightarrow> unit result \<times> 'd" where
  "timeout_operation_id X D cfg clock elapsed env oid d =
     (case try_bind (err_tip ''In SimpleSchedulerStateManager::timeout_operation_id'' (adb_get_by_operation_id D oid d))
             (\<lambda>sub. try_bind (opt_err_tip ''Operation id does not exist in SimpleSchedulerStateManager::timeout_operation_id'' sub)
             (\<lambda>sub. err_tip ''In SimpleSchedulerStateManager::timeout_operation_id'' (adb_borrow D sub d))) of
        Inl e \<Rightarrow> (Err e, d)
      | Inr a \<Rightarrow>
          if stage (aa_state a) \<noteq> Executing then (Ok (), d)
          else (case duration_since (aa_last_worker_updated_timestamp a) 0 of
                  None \<Rightarrow> (Err (make_err Internal ''Failed to convert last_worker_updated to duration since epoch''), d)
                | Some last_worker_updated \<Rightarrow>
                    (case opt_err_tip ''Timestamp too big in SimpleSchedulerStateManager::timeout_operation_id''
                            (duration_checked_add last_worker_updated (no_event_action_timeout cfg)) of
                       Inl e \<Rightarrow> (Err e, d)
                     | Inr worker_should_update_before \<Rightarrow>
                         if worker_should_update_before < elapsed then (Ok (), d)
                         else assign_operation X D cfg clock env oid
                                (Err (make_err DeadlineExceeded ''Operation timed out after seconds'')) d)))"

text \<open>
  \<open>MatchingEngineActionStateResult::changed\<close>. \<open>wakes\<close> are the outcomes of the \<open>select!\<close>, each with what
  others did to the database in the meantime: the subscriber saw a change, or the sleep was over.
  \<open>None\<close> is a call that is still waiting. \<open>alive\<close> tells whether the weak reference can be upgraded.
\<close>

datatype 'd wake = Wake_Changed "'d \<Rightarrow> 'd" | Wake_Timeout "'d \<Rightarrow> 'd"

fun changed_loop ::
  "'w ext \<Rightarrow> ('d, 's) action_db \<Rightarrow> sm_config \<Rightarrow> (nat \<Rightarrow> system_time) \<Rightarrow> nat \<Rightarrow> (nat \<Rightarrow> 'd \<Rightarrow> 'd) \<Rightarrow> bool \<Rightarrow> 's
     \<Rightarrow> 'd wake list \<Rightarrow> nat \<Rightarrow> 'd \<Rightarrow> (action_state result \<times> 'd) option" where
  "changed_loop X D cfg clock elapsed env alive sub [] timeout_attempts d = None"
| "changed_loop X D cfg clock elapsed env alive sub (Wake_Changed g # wakes) timeout_attempts d =
     Some (try_bind (err_tip ''In MatchingEngineActionStateResult::changed'' (adb_borrow D sub (g d)))
             (\<lambda>a. Ok (aa_state a)), g d)"
| "changed_loop X D cfg clock elapsed env alive sub (Wake_Timeout g # wakes) timeout_attempts d =
     (case err_tip ''In MatchingEngineActionStateResult::changed'' (adb_borrow D sub (g d)) of
        Inl e \<Rightarrow> Some (Err e, g d)
      | Inr a \<Rightarrow>
          if stage (aa_state a) = Queued
          then changed_loop X D cfg clock elapsed env alive sub wakes timeout_attempts (g d)
          else if \<not> alive
          then Some (opt_err_tip ''Failed to upgrade weak reference to SimpleSchedulerStateManager'' None, g d)
          else (case timeout_operation_id X D cfg clock elapsed env (aa_operation_id a) (g d) of
                  (Inl e, d') \<Rightarrow> Some (err_tip ''In MatchingEngineActionStateResult::changed'' (Err e), d')
                | (Inr _, d') \<Rightarrow>
                    if max_update_retries \<le> timeout_attempts
                    then Some (Err (make_err Internal ''Failed to update action after retries with no error set in MatchingEngineActionStateResult::changed''), d')
                    else changed_loop X D cfg clock elapsed env alive sub wakes (timeout_attempts + 1) d'))"

definition as_state :: "('d, 's) action_db \<Rightarrow> 's \<Rightarrow> 'd \<Rightarrow> action_state result" where
  "as_state D sub d =
     try_bind (err_tip ''In MatchingEngineActionStateResult::as_state'' (adb_borrow D sub d)) (\<lambda>a. Ok (aa_state a))"

definition as_action_info :: "('d, 's) action_db \<Rightarrow> 's \<Rightarrow> 'd \<Rightarrow> action_info result" where
  "as_action_info D sub d =
     try_bind (err_tip ''In MatchingEngineActionStateResult::as_action_info'' (adb_borrow D sub d))
       (\<lambda>a. Ok (aa_action_info a))"

section \<open>Adding and listing operations\<close>

definition inner_add_operation ::
  "('d, 's) action_db \<Rightarrow> system_time \<Rightarrow> operation_id \<Rightarrow> operation_id \<Rightarrow> action_info \<Rightarrow> 'd \<Rightarrow> ('s result \<times> 'd) option" where
  "inner_add_operation D now new_id cid info d =
     map_option (\<lambda>(r, d'). (err_tip ''In SimpleSchedulerStateManager::add_operation'' r, d'))
       (adb_add_action D now new_id cid info d)"

definition sorted_awaited_action_state_for_flags :: "u32 \<Rightarrow> sorted_state option" where
  "sorted_awaited_action_state_for_flags flags =
     (if flags = flag_cache_check then Some Sorted_CacheCheck
      else if flags = flag_queued then Some Sorted_Queued
      else if flags = flag_executing then Some Sorted_Executing
      else if flags = flag_completed then Some Sorted_Completed
      else None)"

text \<open>
  The listing hands each match to \<open>body\<close>, the consumer of the stream, whose state \<open>'u\<close> lies beside the
  database; an item is a subscriber, or the error the stream replaced it by.
\<close>

type_synonym ('d, 's, 'u) consumer = "'s result \<Rightarrow> 'd \<times> 'u \<Rightarrow> ('d \<times> 'u) flow"

text \<open>A listing by one of the two ids yields at most one item.\<close>

definition filter_one ::
  "('d, 's) action_db \<Rightarrow> sm_config \<Rightarrow> system_time \<Rightarrow> operation_filter \<Rightarrow> 's option result
     \<Rightarrow> ('d, 's, 'u) consumer \<Rightarrow> 'd \<times> 'u \<Rightarrow> ('d \<times> 'u) flow" where
  "filter_one D cfg now f r body st =
     (case err_tip ''In SimpleSchedulerStateManager::filter_operations'' r of
        Inl e \<Rightarrow> Failed e st
      | Inr None \<Rightarrow> Continue st
      | Inr (Some sub) \<Rightarrow>
          (case err_tip ''In SimpleSchedulerStateManager::filter_operations'' (adb_borrow D sub (fst st)) of
             Inl e \<Rightarrow> Failed e st
           | Inr a \<Rightarrow>
               let (keep, d') = apply_filter_predicate D cfg now f a (fst st)
               in if \<not> keep then Continue (d', snd st) else body (Ok sub) (d', snd st)))"

text \<open>One item of the sorted stream: borrow, filter, hand over.\<close>

definition filter_item ::
  "('d, 's) action_db \<Rightarrow> sm_config \<Rightarrow> system_time \<Rightarrow> operation_filter \<Rightarrow> ('d, 's, 'u) consumer
     \<Rightarrow> 's result \<Rightarrow> 'd \<times> 'u \<Rightarrow> ('d \<times> 'u) flow" where
  "filter_item D cfg now f body item st =
     (case item of
        Inl e \<Rightarrow> body (Err e) st
      | Inr sub \<Rightarrow>
          (case err_tip ''In SimpleSchedulerStateManager::filter_operations'' (adb_borrow D sub (fst st)) of
             Inl e \<Rightarrow> body (Err e) st
           | Inr a \<Rightarrow>
               let (keep, d') = apply_filter_predicate D cfg now f a (fst st)
               in if \<not> keep then Continue (d', snd st) else body (Ok sub) (d', snd st)))"

text \<open>One item of the unsorted listing, which is collected before it is sorted; the first error ends it.\<close>

definition collect_item ::
  "('d, 's) action_db \<Rightarrow> sm_config \<Rightarrow> system_time \<Rightarrow> operation_filter
     \<Rightarrow> ('d, 's, ('s \<times> u64) list) consumer" where
  "collect_item D cfg now f item st =
     (case try_bind item
             (\<lambda>sub. try_bind (err_tip ''In SimpleSchedulerStateManager::filter_operations'' (adb_borrow D sub (fst st)))
             (\<lambda>a. Ok (sub, a))) of
        Inl e \<Rightarrow> Failed (e\<lparr>messages := messages e @ [''In SimpleSchedulerStateManager::filter_operations'']\<rparr>) st
      | Inr (sub, a) \<Rightarrow>
          let (keep, d') = apply_filter_predicate D cfg now f a (fst st)
          in Continue (d', if keep then snd st @ [(sub, aa_sort_key a)] else snd st))"

definition sort_items :: "order_direction option \<Rightarrow> ('s \<times> u64) list \<Rightarrow> ('s \<times> u64) list" where
  "sort_items dir items =
     (case dir of
        None \<Rightarrow> items
      | Some Order_Asc \<Rightarrow> sort_key snd items
      | Some Order_Desc \<Rightarrow> rev (sort_key snd (rev items)))"

definition inner_filter_operations ::
  "('d, 's) action_db \<Rightarrow> sm_config \<Rightarrow> system_time \<Rightarrow> nat \<Rightarrow> operation_filter \<Rightarrow> ('d, 's, 'u) consumer
     \<Rightarrow> 'd \<times> 'u \<Rightarrow> ('d \<times> 'u) flow option" where
  "inner_filter_operations D cfg now fuel f body st =
     (case f_operation_id f of
        Some oid \<Rightarrow> Some (filter_one D cfg now f (adb_get_by_operation_id D oid (fst st)) body st)
      | None \<Rightarrow>
          (case f_client_operation_id f of
             Some cid \<Rightarrow>
               let (r, d') = adb_get_awaited_action_by_id D cid (fst st)
               in Some (filter_one D cfg now f r body (d', snd st))
           | None \<Rightarrow>
               (case sorted_awaited_action_state_for_flags (f_stages f) of
                  None \<Rightarrow>
                    (case run_chunked fuel (\<lambda>s e p. adb_all_chunk D s e (fst p)) (collect_item D cfg now f)
                            Unbounded Unbounded (fst st, []) of
                       None \<Rightarrow> None
                     | Some (Continue (d', items)) \<Rightarrow>
                         Some (run_buffer (\<lambda>p. body (Ok (fst p)))
                                 (sort_items (f_order_by_priority_direction f) items) (d', snd st))
                     | Some (Stop (d', _)) \<Rightarrow> Some (Stop (d', snd st))
                     | Some (Failed e (d', _)) \<Rightarrow> Some (Failed e (d', snd st))
                     | Some Panicked \<Rightarrow> Some Panicked)
                | Some sorted_st \<Rightarrow>
                    run_chunked fuel
                      (\<lambda>s e p. adb_range_chunk D sorted_st (f_order_by_priority_direction f = Some Order_Desc) s e (fst p))
                      (filter_item D cfg now f body) Unbounded Unbounded st)))"

section \<open>Interference\<close>

text \<open>
  Other tasks keep the database consistent, and go through its updates: a changed action has a new
  version and is still the same job.
\<close>

definition honest_env :: "('d \<Rightarrow> bool) \<Rightarrow> (operation_id \<Rightarrow> 'd \<Rightarrow> awaited_action option) \<Rightarrow> ('d \<Rightarrow> 'd) \<Rightarrow> bool" where
  "honest_env ok look others \<longleftrightarrow>
     (\<forall>d. ok d \<longrightarrow> ok (others d)
        \<and> (\<forall>oid a b. look oid d = Some a \<longrightarrow> look oid (others d) = Some b
             \<longrightarrow> same_job a b \<and> (aa_version a = aa_version b \<longrightarrow> a = b)))"

text \<open>What the others have done after \<open>k\<close> attempts, when there were \<open>n\<close> attempts to start with.\<close>

fun env_steps :: "(nat \<Rightarrow> 'd \<Rightarrow> 'd) \<Rightarrow> nat \<Rightarrow> nat \<Rightarrow> 'd \<Rightarrow> 'd" where
  "env_steps env n 0 d = d"
| "env_steps env n (Suc k) d = env_steps env (n - 1) k (env (n - 1) d)"

text \<open>An update is refused if another worker has the operation, or if it is finished.\<close>

definition refused :: "worker_id option \<Rightarrow> awaited_action \<Rightarrow> bool" where
  "refused maybe_worker a \<longleftrightarrow>
     aa_worker_id a \<noteq> None \<and> maybe_worker \<noteq> None \<and> maybe_worker \<noteq> aa_worker_id a
     \<or> is_finished (stage (aa_state a))"

lemma honest_id [simp]: "honest_env ok look (\<lambda>d. d)"
  by (auto simp: honest_env_def same_job_def)

lemma stage_of_update_keeps:
  assumes "stage_of_update X cfg mw u a = Some (st, a1)"
  shows "aa_operation_id a1 = aa_operation_id a" "aa_version a1 = aa_version a" "same_job a1 a"
    "aa_action_info a1 = aa_action_info a" "aa_sort_key a1 = aa_sort_key a"
  using assms
  by (auto simp: stage_of_update_def same_job_def Let_def split: update_operation_type.splits if_splits)

lemma set_worker_id_keeps [simp]:
  "aa_operation_id (set_worker_id w now a) = aa_operation_id a" "aa_version (set_worker_id w now a) = aa_version a"
  "aa_action_info (set_worker_id w now a) = aa_action_info a" "aa_sort_key (set_worker_id w now a) = aa_sort_key a"
  "aa_worker_id (set_worker_id w now a) = w" "aa_attempts (set_worker_id w now a) = aa_attempts a"
  by (simp_all add: set_worker_id_def worker_keep_alive_def)

lemma worker_set_state_keeps [simp]:
  "aa_operation_id (worker_set_state st now a) = aa_operation_id a" "aa_version (worker_set_state st now a) = aa_version a"
  "aa_action_info (worker_set_state st now a) = aa_action_info a" "aa_sort_key (worker_set_state st now a) = aa_sort_key a"
  "aa_worker_id (worker_set_state st now a) = aa_worker_id a" "aa_attempts (worker_set_state st now a) = aa_attempts a"
  "aa_state (worker_set_state st now a) = st"
  by (simp_all add: worker_set_state_def worker_keep_alive_def)

lemma apply_update_keeps [simp]:
  "aa_operation_id (apply_update X cfg now oid mw u a) = aa_operation_id a"
  "aa_version (apply_update X cfg now oid mw u a) = aa_version a"
  "aa_action_info (apply_update X cfg now oid mw u a) = aa_action_info a"
  "aa_sort_key (apply_update X cfg now oid mw u a) = aa_sort_key a"
  by (auto simp: apply_update_def worker_keep_alive_def Let_def stage_of_update_keeps
      split: option.split prod.split)

lemma same_job_apply_update: "same_job a b \<Longrightarrow> same_job (apply_update X cfg now oid mw u a) b"
  by (simp add: same_job_def)

context action_db_laws
begin

lemma attempt_cases:
  assumes ok: "ok d" and honest: "honest_env ok look others"
    and step: "update_attempt X D cfg now others oid mw u d = (res, d')"
  obtains (absent) "look oid d = None" "res = Return (Ok ())" "d' = d"
    | (refused) a e where "look oid d = Some a" "refused mw a" "res = Return (Err e)" "d' = d"
    | (written) a where "look oid d = Some a" "\<not> refused mw a" "look oid (others d) = Some a" "res = Return (Ok ())"
        "ok d'" "\<forall>x. look x d' = (if x = oid then Some (increment_version (apply_update X cfg now oid mw u a))
                                  else look x (others d))"
    | (conflict) a e where "look oid d = Some a" "\<not> refused mw a" "look oid (others d) \<noteq> Some a" "ok d'" "d' = others d"
        "res = (if look oid (others d) \<noteq> None \<and> u \<noteq> Update_KeepAlive then Retry e else Return (Err e))"
proof (cases "look oid d")
  case None
  with get_none [OF ok None] step have "res = Return (Ok ())" "d' = d" by (simp_all add: update_attempt_def)
  with None show ?thesis by (rule absent)
next
  case (Some a)
  from get_some [OF ok Some] obtain sub where sub: "adb_get_by_operation_id D oid d = Ok (Some sub)"
    "adb_borrow D sub d = Ok a" by blast
  have id: "aa_operation_id a = oid" using look_id [OF ok Some] .
  let ?new = "apply_update X cfg now oid mw u a"
  have ok': "ok (others d)" using honest ok by (simp add: honest_env_def)
  show ?thesis
  proof (cases "refused mw a")
    case True
    with step sub obtain e where "res = Return (Err e)" "d' = d"
      by (auto simp: update_attempt_def refused_def split: if_splits)
    with refused [OF Some True] show ?thesis by blast
  next
    case False
    have attempt: "update_attempt X D cfg now others oid mw u d =
        (let (r, d') = adb_update_awaited_action D ?new (others d)
         in if u = Update_KeepAlive
            then (Return (err_tip ''Failed to send KeepAlive in SimpleSchedulerStateManager::update_operation'' r), d')
            else (case err_tip ''In SimpleSchedulerStateManager::update_operation'' r of
                    Inl e \<Rightarrow> (if code e = Aborted then Retry e else Return (Err e), d')
                  | Inr _ \<Rightarrow> (Return (Ok ()), d')))"
      using False sub by (auto simp: update_attempt_def refused_def)
    show ?thesis
    proof (cases "look oid (others d)")
      case None
      with update_absent [OF ok', of ?new] id obtain e where
        "adb_update_awaited_action D ?new (others d) = (Err e, others d)" "code e = Internal" by auto
      with attempt step obtain e' where "res = Return (Err e')" "d' = others d" by (auto split: if_splits)
      with None conflict [OF Some False, of e'] ok' show ?thesis by simp
    next
      case (Some b)
      have job: "same_job a b" and ver: "aa_version a = aa_version b \<longrightarrow> a = b"
        using honest ok \<open>look oid d = Some a\<close> Some by (auto simp: honest_env_def)
      have job_new: "same_job ?new b" using job by (rule same_job_apply_update)
      show ?thesis
      proof (cases "aa_version a = aa_version b")
        case True
        have "\<exists>d1. adb_update_awaited_action D ?new (others d) = (Ok (), d1) \<and> ok d1
            \<and> (\<forall>x. look x d1 = (if x = oid then Some (increment_version ?new) else look x (others d)))"
          using update_current [OF ok', of ?new b] Some id job_new True by simp
        then obtain d1 where
          "adb_update_awaited_action D ?new (others d) = (Ok (), d1)" "ok d1"
          "\<forall>x. look x d1 = (if x = oid then Some (increment_version ?new) else look x (others d))" by blast
        with attempt step have "res = Return (Ok ())" "d' = d1" by (auto split: if_splits)
        with written [OF \<open>look oid d = Some a\<close> False] True ver Some \<open>ok d1\<close>
          \<open>\<forall>x. look x d1 = (if x = oid then Some (increment_version ?new) else look x (others d))\<close>
        show ?thesis by simp
      next
        case stale: False
        have "\<exists>e. adb_update_awaited_action D ?new (others d) = (Err e, others d) \<and> code e = Aborted"
          using update_stale [OF ok', of ?new b] Some id job_new stale by simp
        then obtain e where "adb_update_awaited_action D ?new (others d) = (Err e, others d)" "code e = Aborted"
          by blast
        with attempt step obtain e' where "res = (if u \<noteq> Update_KeepAlive then Retry e' else Return (Err e'))" "d' = others d"
          by (auto split: if_splits)
        with conflict [OF \<open>look oid d = Some a\<close> False, of e'] stale Some ok' show ?thesis by auto
      qed
    qed
  qed
qed

text \<open>
  What an update did, when it is over: it wrote the action computed from the value that was stored at
  that moment, or it wrote nothing.
\<close>

lemma loop_cases:
  assumes "ok d" and "\<And>i. honest_env ok look (env i)"
    and "update_operation_loop X D cfg clock env oid mw u n last_err d = (r, d')"
  shows "ok d' \<and> (\<exists>k \<le> n.
      (r = Ok () \<and> look oid (env_steps env n k d) = None \<and> d' = env_steps env n k d)
    \<or> (\<exists>a. r = Ok () \<and> 0 < k \<and> look oid (env_steps env n k d) = Some a \<and> \<not> refused mw a
         \<and> (\<forall>x. look x d' = (if x = oid then Some (increment_version (apply_update X cfg (clock (n - k)) oid mw u a))
                             else look x (env_steps env n k d))))
    \<or> (\<exists>e. r = Err e \<and> d' = env_steps env n k d))"
  using assms(1,3)
proof (induction n arbitrary: last_err d)
  case 0
  then show ?case by auto
next
  case (Suc n)
  obtain res d1 where step: "update_attempt X D cfg (clock n) (env n) oid mw u d = (res, d1)" by fastforce
  from Suc.prems(1) assms(2) step show ?case
  proof (cases rule: attempt_cases)
    case absent
    with Suc.prems step show ?thesis by (auto intro!: exI [of _ 0])
  next
    case (refused a e)
    with Suc.prems step show ?thesis by (auto intro!: exI [of _ 0])
  next
    case (written a)
    with Suc.prems step show ?thesis by (auto intro!: exI [of _ 1])
  next
    case (conflict a e)
    show ?thesis
    proof (cases "look oid (env n d) \<noteq> None \<and> u \<noteq> Update_KeepAlive")
      case False
      with conflict Suc.prems step show ?thesis by (auto intro!: exI [of _ 1])
    next
      case True
      with conflict Suc.prems step have loop: "update_operation_loop X D cfg clock env oid mw u n (Some e) (env n d) = (r, d')"
        by simp
      from Suc.IH [OF _ loop] conflict obtain k where "ok d'" "k \<le> n" and k:
        "(r = Ok () \<and> look oid (env_steps env n k (env n d)) = None \<and> d' = env_steps env n k (env n d))
         \<or> (\<exists>a. r = Ok () \<and> 0 < k \<and> look oid (env_steps env n k (env n d)) = Some a \<and> \<not> refused mw a
              \<and> (\<forall>x. look x d' = (if x = oid then Some (increment_version (apply_update X cfg (clock (n - k)) oid mw u a))
                                  else look x (env_steps env n k (env n d)))))
         \<or> (\<exists>e. r = Err e \<and> d' = env_steps env n k (env n d))" by auto
      then show ?thesis by (intro conjI exI [of _ "Suc k"]) auto
    qed
  qed
qed

text \<open>An attempt in which nobody else changes the operation is the last one.\<close>

lemma loop_progress:
  assumes "ok d" and "\<And>i. honest_env ok look (env i)"
    and "i < n" and "\<And>d. look oid (env i d) = look oid d"
    and "\<And>k. k \<le> n \<Longrightarrow> \<exists>a. look oid (env_steps env n k d) = Some a \<and> \<not> refused mw a"
    and "u \<noteq> Update_KeepAlive"
  shows "\<exists>d'. update_operation_loop X D cfg clock env oid mw u n last_err d = (Ok (), d')"
  using assms(1,3,5)
proof (induction n arbitrary: last_err d)
  case 0
  then show ?case by simp
next
  case (Suc n)
  have now: "\<exists>a. look oid d = Some a \<and> \<not> refused mw a" and next_: "\<exists>a. look oid (env n d) = Some a \<and> \<not> refused mw a"
    using Suc.prems(3) [of 0] Suc.prems(3) [of 1] by auto
  obtain res d1 where step: "update_attempt X D cfg (clock n) (env n) oid mw u d = (res, d1)" by fastforce
  from Suc.prems(1) assms(2) step show ?case
  proof (cases rule: attempt_cases)
    case absent
    with now show ?thesis by simp
  next
    case (refused a e)
    with now show ?thesis by simp
  next
    case (written a)
    with step show ?thesis by simp
  next
    case (conflict a e)
    with assms(4) now have "i \<noteq> n" by auto
    with Suc.prems(2) have "i < n" by simp
    moreover have "\<exists>a. look oid (env_steps env n k (env n d)) = Some a \<and> \<not> refused mw a" if "k \<le> n" for k
      using Suc.prems(3) [of "Suc k"] that by simp
    ultimately obtain d' where "update_operation_loop X D cfg clock env oid mw u n (Some e) (env n d) = (Ok (), d')"
      using Suc.IH [of "env n d" "Some e"] conflict by auto
    moreover from next_ have "\<exists>y. look oid (env n d) = Some y" by blast
    ultimately show ?thesis using conflict step assms(6) by simp
  qed
qed

text \<open>With nobody else at work, one attempt settles the update.\<close>

lemma quiet_update:
  assumes "ok d"
  shows "look oid d = None \<Longrightarrow> inner_update_operation X D cfg clock (\<lambda>_ d. d) oid mw u d = (Ok (), d)"
    and "look oid d = Some a \<Longrightarrow> refused mw a \<Longrightarrow>
      \<exists>e. inner_update_operation X D cfg clock (\<lambda>_ d. d) oid mw u d = (Err e, d)"
    and "look oid d = Some a \<Longrightarrow> \<not> refused mw a \<Longrightarrow>
      \<exists>d'. inner_update_operation X D cfg clock (\<lambda>_ d. d) oid mw u d = (Ok (), d') \<and> ok d'
        \<and> (\<forall>x. look x d' = (if x = oid then Some (increment_version (apply_update X cfg (clock 4) oid mw u a)) else look x d))"
proof -
  obtain res d1 where step: "update_attempt X D cfg (clock 4) (\<lambda>d. d) oid mw u d = (res, d1)" by fastforce
  have five: "inner_update_operation X D cfg clock (\<lambda>_ d. d) oid mw u d
      = (case update_attempt X D cfg (clock 4) (\<lambda>d. d) oid mw u d of
           (Return r, d') \<Rightarrow> (r, d')
         | (Retry e, d') \<Rightarrow> update_operation_loop X D cfg clock (\<lambda>_ d. d) oid mw u 4 (Some e) d')"
    unfolding inner_update_operation_def max_update_retries_def
    using update_operation_loop.simps(2) [of X D cfg clock "\<lambda>_ d. d" oid mw u 4] by simp
  show "inner_update_operation X D cfg clock (\<lambda>_ d. d) oid mw u d = (Ok (), d)" if "look oid d = None"
    using assms honest_id step by (cases rule: attempt_cases) (use that step in \<open>auto simp: five\<close>)
  show "\<exists>e. inner_update_operation X D cfg clock (\<lambda>_ d. d) oid mw u d = (Err e, d)"
    if "look oid d = Some a" "refused mw a"
    using assms honest_id step by (cases rule: attempt_cases) (use that step in \<open>auto simp: five\<close>)
  show "\<exists>d'. inner_update_operation X D cfg clock (\<lambda>_ d. d) oid mw u d = (Ok (), d') \<and> ok d'
        \<and> (\<forall>x. look x d' = (if x = oid then Some (increment_version (apply_update X cfg (clock 4) oid mw u a)) else look x d))"
    if "look oid d = Some a" "\<not> refused mw a"
    using assms honest_id step by (cases rule: attempt_cases) (use that step in \<open>auto simp: five\<close>)
qed

end

section \<open>Repeated failures\<close>

text \<open>One error update after the other, and how many of them count as attempts.\<close>

definition fail_all ::
  "'w ext \<Rightarrow> ('d, 's) action_db \<Rightarrow> sm_config \<Rightarrow> (nat \<Rightarrow> system_time) \<Rightarrow> operation_id \<Rightarrow> worker_id option
     \<Rightarrow> error list \<Rightarrow> 'd \<Rightarrow> 'd" where
  "fail_all X D cfg clock oid mw errs d =
     foldl (\<lambda>d e. snd (inner_update_operation X D cfg clock (\<lambda>_ d. d) oid mw (UpdateWithError e) d)) d errs"

definition counted :: "error list \<Rightarrow> nat" where
  "counted errs = length (filter (\<lambda>e. code e \<noteq> ResourceExhausted) errs)"

lemma counted_simps [simp]:
  "counted [] = 0" "counted (errs @ [e]) = counted errs + (if code e = ResourceExhausted then 0 else 1)"
  by (simp_all add: counted_def)

lemma apply_error_update:
  fixes a :: awaited_action and e :: error
  defines "n \<equiv> aa_attempts a + (if code e = ResourceExhausted then 0 else 1)"
  shows "aa_attempts (apply_update X cfg now oid mw (UpdateWithError e) a) = n"
    and "n \<le> max_job_retries cfg \<Longrightarrow> stage (aa_state (apply_update X cfg now oid mw (UpdateWithError e) a)) = Queued
      \<and> aa_worker_id (apply_update X cfg now oid mw (UpdateWithError e) a) = None"
    and "max_job_retries cfg < n \<Longrightarrow> \<exists>res e'. stage (aa_state (apply_update X cfg now oid mw (UpdateWithError e) a)) = Completed res
      \<and> result_error res = Some e' \<and> code e' = code e"
  by (auto simp: apply_update_def stage_of_update_def n_def Let_def)

lemma increment_version_fields [simp]:
  "aa_attempts (increment_version a) = aa_attempts a" "aa_state (increment_version a) = aa_state a"
  "aa_worker_id (increment_version a) = aa_worker_id a" "aa_operation_id (increment_version a) = aa_operation_id a"
  "aa_action_info (increment_version a) = aa_action_info a" "aa_sort_key (increment_version a) = aa_sort_key a"
  by (simp_all add: increment_version_def)

context action_db_laws
begin

lemma fail_all_queued:
  assumes "ok d" and "look oid d = Some a" and "\<not> refused mw a"
    and "aa_attempts a + counted errs \<le> max_job_retries cfg"
  shows "ok (fail_all X D cfg clock oid mw errs d) \<and>
    (\<exists>b. look oid (fail_all X D cfg clock oid mw errs d) = Some b \<and> \<not> refused mw b
       \<and> aa_attempts b = aa_attempts a + counted errs
       \<and> (errs \<noteq> [] \<longrightarrow> stage (aa_state b) = Queued \<and> aa_worker_id b = None))"
  using assms(4)
proof (induction errs rule: rev_induct)
  case Nil
  with assms show ?case by (simp add: fail_all_def)
next
  case (snoc e errs)
  let ?d = "fail_all X D cfg clock oid mw errs d"
  have le: "aa_attempts a + counted errs \<le> max_job_retries cfg" using snoc.prems by simp
  from snoc.IH [OF le] obtain b where ok: "ok ?d" and b: "look oid ?d = Some b" "\<not> refused mw b"
    "aa_attempts b = aa_attempts a + counted errs" by blast
  from quiet_update(3) [OF ok b(1,2), of X cfg clock "UpdateWithError e"] obtain d' where
    d': "inner_update_operation X D cfg clock (\<lambda>_ d. d) oid mw (UpdateWithError e) ?d = (Ok (), d')" "ok d'"
    "look oid d' = Some (increment_version (apply_update X cfg (clock 4) oid mw (UpdateWithError e) b))" by auto
  have "fail_all X D cfg clock oid mw (errs @ [e]) d = d'" using d'(1) by (simp add: fail_all_def)
  with d' b(3) snoc.prems apply_error_update(1,2) [where a = b and e = e and X = X and cfg = cfg and now = "clock 4"
      and oid = oid and mw = mw]
  show ?case by (simp add: refused_def is_finished_def)
qed

lemma fail_all_completes:
  assumes "ok d" and "look oid d = Some a" and "\<not> refused mw a"
    and "aa_attempts a + counted errs = max_job_retries cfg" and "code e \<noteq> ResourceExhausted"
  shows "\<exists>b res e'. look oid (fail_all X D cfg clock oid mw (errs @ [e]) d) = Some b
    \<and> stage (aa_state b) = Completed res \<and> result_error res = Some e' \<and> code e' = code e"
proof -
  let ?d = "fail_all X D cfg clock oid mw errs d"
  from fail_all_queued [OF assms(1-3), of errs cfg X clock] assms(4) obtain b where ok: "ok ?d"
    and b: "look oid ?d = Some b" "\<not> refused mw b" "aa_attempts b = max_job_retries cfg" by auto
  from quiet_update(3) [OF ok b(1,2), of X cfg clock "UpdateWithError e"] obtain d' where
    d': "inner_update_operation X D cfg clock (\<lambda>_ d. d) oid mw (UpdateWithError e) ?d = (Ok (), d')"
    "look oid d' = Some (increment_version (apply_update X cfg (clock 4) oid mw (UpdateWithError e) b))" by auto
  have "fail_all X D cfg clock oid mw (errs @ [e]) d = d'" using d'(1) by (simp add: fail_all_def)
  with d' b(3) assms(5) apply_error_update(3) [where a = b and e = e and X = X and cfg = cfg and now = "clock 4"
      and oid = oid and mw = mw]
  show ?thesis by fastforce
qed

lemma refused_update:
  assumes "ok d" and "look oid d = Some a" and "refused mw a"
  shows "\<exists>e. inner_update_operation X D cfg clock env oid mw u d = (Err e, d)
    \<and> code e = (if is_finished (stage (aa_state a)) \<and> (mw = None \<or> aa_worker_id a = None \<or> mw = aa_worker_id a)
                then Internal else Aborted)"
proof -
  from get_some [OF assms(1,2)] obtain sub where "adb_get_by_operation_id D oid d = Ok (Some sub)"
    "adb_borrow D sub d = Ok a" by blast
  then have "update_operation_loop X D cfg clock env oid mw u (Suc n) None d
      = (Err (if aa_worker_id a \<noteq> None \<and> mw \<noteq> None \<and> mw \<noteq> aa_worker_id a
              then make_err Aborted ''Worker ids do not match'' else make_err Internal ''Action is already completed''), d)" for n
    using assms(3) by (auto simp: update_attempt_def refused_def)
  from this [of 4] show ?thesis
    using assms(3) by (auto simp: inner_update_operation_def max_update_retries_def refused_def)
qed

lemma timeout_of_executing:
  assumes "ok d" and "look oid d = Some a" and "stage (aa_state a) = Executing"
    and "0 \<le> aa_last_worker_updated_timestamp a"
    and "nat (aa_last_worker_updated_timestamp a) + no_event_action_timeout cfg < 2 ^ 64 * 1000000000"
  shows "timeout_operation_id X D cfg clock elapsed env oid d =
    (if nat (aa_last_worker_updated_timestamp a) + no_event_action_timeout cfg < elapsed then (Ok (), d)
     else assign_operation X D cfg clock env oid (Err (make_err DeadlineExceeded ''Operation timed out after seconds'')) d)"
proof -
  from get_some [OF assms(1,2)] obtain sub where "adb_get_by_operation_id D oid d = Ok (Some sub)"
    "adb_borrow D sub d = Ok a" by blast
  with assms(3-) show ?thesis by (simp add: timeout_operation_id_def duration_since_def duration_checked_add_def)
qed

text \<open>An update of another task is a kind of interference.\<close>

lemma quiet_update_outcome:
  assumes "ok d"
  obtains (same) "snd (inner_update_operation X D cfg clock (\<lambda>_ d. d) oid mw u d) = d"
      "look oid d = None \<or> (\<exists>a. look oid d = Some a \<and> refused mw a)"
    | (changed) a d' where "snd (inner_update_operation X D cfg clock (\<lambda>_ d. d) oid mw u d) = d'" "ok d'"
      "look oid d = Some a" "\<not> refused mw a"
      "\<forall>x. look x d' = (if x = oid then Some (increment_version (apply_update X cfg (clock 4) oid mw u a)) else look x d)"
proof (cases "look oid d")
  case None
  then show ?thesis by (intro same) (simp_all add: quiet_update(1) [OF assms None])
next
  case (Some a)
  show ?thesis
  proof (cases "refused mw a")
    case True
    from quiet_update(2) [OF assms Some True, of X cfg clock u] Some True show ?thesis by (intro same) auto
  next
    case False
    from quiet_update(3) [OF assms Some False, of X cfg clock u] obtain d' where
      "inner_update_operation X D cfg clock (\<lambda>_ d. d) oid mw u d = (Ok (), d')" "ok d'"
      "\<forall>x. look x d' = (if x = oid then Some (increment_version (apply_update X cfg (clock 4) oid mw u a)) else look x d)"
      by blast
    with Some False show ?thesis by (intro changed [of d' a]) simp_all
  qed
qed

lemma honest_update: "honest_env ok look (\<lambda>d. snd (inner_update_operation X D cfg clock (\<lambda>_ d. d) oid mw u d))"
  unfolding honest_env_def
proof (intro allI impI)
  fix d assume ok: "ok d"
  let ?d = "snd (inner_update_operation X D cfg clock (\<lambda>_ d. d) oid mw u d)"
  show "ok ?d \<and> (\<forall>x a b. look x d = Some a \<longrightarrow> look x ?d = Some b \<longrightarrow> same_job a b \<and> (aa_version a = aa_version b \<longrightarrow> a = b))"
  proof (rule quiet_update_outcome [OF ok, of X cfg clock oid mw u])
    assume "?d = d"
    with ok show ?thesis by (simp add: same_job_def)
  next
    fix a d'
    assume "?d = d'" "ok d'" "look oid d = Some a"
      "\<forall>x. look x d' = (if x = oid then Some (increment_version (apply_update X cfg (clock 4) oid mw u a)) else look x d)"
    then show ?thesis by (simp add: same_job_def increment_version_def)
  qed
qed

end

section \<open>Properties\<close>

text \<open>
  C3. No update is lost. While other tasks change the database between the reads and the writes, an
  update of an operation either ends with an error, having written nothing, or it finds the operation
  gone, or it writes the action computed from the value that is stored at the moment of the write, and
  changes no other operation.
\<close>

theorem update_operation_no_lost_update:
  assumes "db_ok L [] d" and "\<And>i. honest_env (db_ok L []) db_look (env i)"
    and "inner_update_operation X (memory_db L cfg now) smc clock env oid mw u d = (r, d')"
  shows "db_ok L [] d' \<and> (\<exists>k \<le> 5. let d1 = env_steps env 5 k d in
      case r of
        Inl _ \<Rightarrow> d' = d1
      | Inr _ \<Rightarrow>
          (case db_look oid d1 of
             None \<Rightarrow> d' = d1
           | Some a \<Rightarrow> \<not> refused mw a
               \<and> db_look oid d' = Some (increment_version (apply_update X smc (clock (5 - k)) oid mw u a))
               \<and> (\<forall>x. x \<noteq> oid \<longrightarrow> db_look x d' = db_look x d1)))"
proof -
  from mem.loop_cases [OF assms(1,2) assms(3) [unfolded inner_update_operation_def max_update_retries_def]]
  obtain k where "db_ok L [] d'" and "k \<le> 5" and
    "(r = Ok () \<and> db_look oid (env_steps env 5 k d) = None \<and> d' = env_steps env 5 k d)
     \<or> (\<exists>a. r = Ok () \<and> 0 < k \<and> db_look oid (env_steps env 5 k d) = Some a \<and> \<not> refused mw a
          \<and> (\<forall>x. db_look x d' = (if x = oid then Some (increment_version (apply_update X smc (clock (5 - k)) oid mw u a))
                              else db_look x (env_steps env 5 k d))))
     \<or> (\<exists>e. r = Err e \<and> d' = env_steps env 5 k d)" by blast
  then show ?thesis by (intro conjI exI [of _ k]) auto
qed

text \<open>The sample database is consistent, and its operation takes updates.\<close>

lemma sample_db_ok: "db_ok list_lru [] sample_db"
  using db_reach_ok [OF ll.lru_cache_axioms sample_db_reach] .

lemma sample_db_look: "db_look (Op_Uuid 1) sample_db = Some sample_action"
  by (simp add: db_look_def sample_db_add)

lemma sample_action_free: "\<not> refused mw sample_action" "aa_attempts sample_action = 0" "aa_worker_id sample_action = None"
  by (simp_all add: refused_def sample_action_fields is_finished_def)
    (simp_all add: sample_action_def awaited_action_new_def sort_key_new_with_unique_key_def duration_since_def sample_info_def)

definition sample_sm :: sm_config where
  "sample_sm = \<lparr>max_job_retries = 1, no_event_action_timeout = 5000000000, client_action_timeout = 60000000000\<rparr>"

text \<open>A neighbour that sends keep-alives for the operation, in all but the last attempt.\<close>

definition busy_env ::
  "nat \<Rightarrow> (operation_id \<times> operation_id eviction_item) list adb \<Rightarrow> (operation_id \<times> operation_id eviction_item) list adb" where
  "busy_env i d =
     (if i = 0 then d
      else snd (inner_update_operation ref_ext (memory_db list_lru no_limits 0) sample_sm (\<lambda>_. 7) (\<lambda>_ d. d)
                  (Op_Uuid 1) None Update_KeepAlive d))"

lemma honest_busy: "honest_env (db_ok list_lru []) db_look (busy_env i)"
proof (cases "i = 0")
  case True
  then have "busy_env i = (\<lambda>d. d)" by (simp add: busy_env_def fun_eq_iff)
  then show ?thesis by simp
next
  case False
  then have "busy_env i = (\<lambda>d. snd (inner_update_operation ref_ext (memory_db list_lru no_limits 0) sample_sm (\<lambda>_. 7)
      (\<lambda>_ d. d) (Op_Uuid 1) None Update_KeepAlive d))" by (simp add: busy_env_def fun_eq_iff)
  then show ?thesis using mem.honest_update by simp
qed

lemma busy_step:
  assumes "db_ok list_lru [] d" and "db_look (Op_Uuid 1) d = Some a" and "stage (aa_state a) = Queued" "aa_worker_id a = None"
  shows "db_ok list_lru [] (busy_env i d) \<and>
    (\<exists>b. db_look (Op_Uuid 1) (busy_env i d) = Some b \<and> stage (aa_state b) = Queued \<and> aa_worker_id b = None)"
proof (cases "i = 0")
  case True
  with assms show ?thesis by (simp add: busy_env_def)
next
  case False
  have "\<not> refused None a" using assms(3,4) by (simp add: refused_def is_finished_def)
  from mem.quiet_update(3) [OF assms(1,2) this, of ref_ext no_limits 0 sample_sm "\<lambda>_. 7" Update_KeepAlive] False assms
  show ?thesis by (auto simp: busy_env_def apply_update_def stage_of_update_def worker_keep_alive_def)
qed

lemma busy_steps:
  assumes "db_ok list_lru [] d" and "db_look (Op_Uuid 1) d = Some a" and "stage (aa_state a) = Queued" "aa_worker_id a = None"
  shows "\<exists>b. db_look (Op_Uuid 1) (env_steps busy_env n k d) = Some b \<and> stage (aa_state b) = Queued \<and> aa_worker_id b = None"
  using assms
proof (induction k arbitrary: n d a)
  case 0
  then show ?case by simp
next
  case (Suc k)
  from busy_step [OF Suc.prems, of "n - 1"] obtain b where "db_ok list_lru [] (busy_env (n - 1) d)"
    "db_look (Op_Uuid 1) (busy_env (n - 1) d) = Some b" "stage (aa_state b) = Queued" "aa_worker_id b = None" by blast
  from Suc.IH [OF this] show ?case by simp
qed

theorem update_operation_no_lost_update_witness:
  "\<exists>d'. inner_update_operation ref_ext (memory_db list_lru no_limits 0) sample_sm (\<lambda>_. 9) (\<lambda>_ d. d)
       (Op_Uuid 1) (Some (WorkerId 3)) (UpdateWithActionStage Executing) sample_db = (Ok (), d')
     \<and> map_option (\<lambda>a. stage (aa_state a)) (db_look (Op_Uuid 1) d') = Some Executing"
proof -
  have steps: "env_steps (\<lambda>_ d. d) n k d = d" for n k and d :: "(operation_id \<times> operation_id eviction_item) list adb"
    by (induction k arbitrary: n) simp_all
  from mem.quiet_update(3) [OF sample_db_ok sample_db_look sample_action_free(1)] obtain d' where
    upd: "inner_update_operation ref_ext (memory_db list_lru no_limits 0) sample_sm (\<lambda>_. 9) (\<lambda>_ d. d)
       (Op_Uuid 1) (Some (WorkerId 3)) (UpdateWithActionStage Executing) sample_db = (Ok (), d')" by blast
  from update_operation_no_lost_update [OF sample_db_ok honest_id upd] upd show ?thesis
    by (auto simp: steps sample_db_look apply_update_def stage_of_update_def split: sum.splits)
qed





text \<open>
  C35. Finished operations and other workers' operations are left alone. Whatever the update, and
  whatever other tasks do meanwhile, it is refused without touching the database: with \<open>Aborted\<close> if
  the operation belongs to another worker, with \<open>Internal\<close> if it is finished.
\<close>

theorem update_operation_refused:
  assumes "db_ok L [] d" and "db_look oid d = Some a"
    and "refused mw a"
  shows "\<exists>e. inner_update_operation X (memory_db L cfg now) smc clock env oid mw u d = (Err e, d)
    \<and> code e = (if is_finished (stage (aa_state a)) \<and> (mw = None \<or> aa_worker_id a = None \<or> mw = aa_worker_id a)
                then Internal else Aborted)"
  by (rule mem.refused_update [OF assms])

definition running_db :: "(operation_id \<times> operation_id eviction_item) list adb" where
  "running_db = snd (inner_update_operation ref_ext (memory_db list_lru no_limits 0) sample_sm (\<lambda>_. 9) (\<lambda>_ d. d)
     (Op_Uuid 1) (Some (WorkerId 3)) (UpdateWithActionStage Executing) sample_db)"

lemma running_db_look:
  "db_ok list_lru [] running_db"
  "\<exists>a. db_look (Op_Uuid 1) running_db = Some a \<and> stage (aa_state a) = Executing \<and> aa_worker_id a = Some (WorkerId 3)
     \<and> aa_last_worker_updated_timestamp a = 9 \<and> aa_attempts a = 0"
proof -
  from mem.quiet_update(3) [OF sample_db_ok sample_db_look sample_action_free(1), of ref_ext no_limits 0 sample_sm "\<lambda>_. 9"
      "Some (WorkerId 3)" "UpdateWithActionStage Executing"]
  obtain d' where "running_db = d'" "db_ok list_lru [] d'" "db_look (Op_Uuid 1) d' = Some (increment_version
      (apply_update ref_ext sample_sm 9 (Op_Uuid 1) (Some (WorkerId 3)) (UpdateWithActionStage Executing) sample_action))"
    by (auto simp: running_db_def)
  then show "db_ok list_lru [] running_db"
    "\<exists>a. db_look (Op_Uuid 1) running_db = Some a \<and> stage (aa_state a) = Executing \<and> aa_worker_id a = Some (WorkerId 3)
     \<and> aa_last_worker_updated_timestamp a = 9 \<and> aa_attempts a = 0"
    using sample_action_free
    by (simp_all add: apply_update_def stage_of_update_def worker_set_state_def worker_keep_alive_def set_worker_id_def
        increment_version_def)
qed

theorem update_operation_refused_witness:
  "\<exists>e. inner_update_operation ref_ext (memory_db list_lru no_limits 0) sample_sm (\<lambda>_. 9) (\<lambda>_ d. d) (Op_Uuid 1)
     (Some (WorkerId 4)) Update_KeepAlive running_db = (Err e, running_db) \<and> code e = Aborted"
proof -
  from running_db_look(2) obtain a where a: "db_look (Op_Uuid 1) running_db = Some a" "stage (aa_state a) = Executing"
    "aa_worker_id a = Some (WorkerId 3)" by blast
  then have "refused (Some (WorkerId 4)) a" by (simp add: refused_def)
  from update_operation_refused [OF running_db_look(1) a(1) this] a show ?thesis by (simp add: is_finished_def)
qed

text \<open>
  C36. The time-out check never spares an operation. \<open>timeout_operation_id\<close> means to leave an operation
  alone whose worker reported recently. It compares the end of the allowed silence, counted from the
  epoch, with the time elapsed since the clock was read a moment ago; as long as the latter is not
  longer than the former, an executing operation is taken away from its worker and charged with an
  attempt, no matter how recent the report is.
\<close>

theorem timeout_ignores_recent_report:
  assumes "db_ok L [] d" and "db_look oid d = Some a" and "stage (aa_state a) = Executing"
    and "0 \<le> aa_last_worker_updated_timestamp a"
    and "nat (aa_last_worker_updated_timestamp a) + no_event_action_timeout smc < 2 ^ 64 * 1000000000"
    and "elapsed \<le> nat (aa_last_worker_updated_timestamp a) + no_event_action_timeout smc"
  shows "\<exists>d' b. timeout_operation_id X (memory_db L cfg now) smc clock elapsed (\<lambda>_ d. d) oid d = (Ok (), d')
    \<and> db_look oid d' = Some b \<and> aa_attempts b = aa_attempts a + 1
    \<and> (aa_attempts a < max_job_retries smc \<longrightarrow> stage (aa_state b) = Queued \<and> aa_worker_id b = None)
    \<and> (max_job_retries smc \<le> aa_attempts a \<longrightarrow> is_finished (stage (aa_state b)))"
proof -
  let ?e = "make_err DeadlineExceeded ''Operation timed out after seconds''"
  have "\<not> refused None a" using assms(3) by (simp add: refused_def is_finished_def)
  from mem.quiet_update(3) [OF assms(1,2) this, of X cfg now smc clock "UpdateWithError ?e"] obtain d' where
    d': "inner_update_operation X (memory_db L cfg now) smc clock (\<lambda>_ d. d) oid None (UpdateWithError ?e) d = (Ok (), d')"
    "db_look oid d' = Some (increment_version (apply_update X smc (clock 4) oid None (UpdateWithError ?e) a))" by auto
  then have "timeout_operation_id X (memory_db L cfg now) smc clock elapsed (\<lambda>_ d. d) oid d = (Ok (), d')"
    using mem.timeout_of_executing [OF assms(1-5), of X cfg now clock elapsed "\<lambda>_ d. d"] assms(6)
    by (simp add: assign_operation_def)
  with d' apply_error_update [where a = a and e = ?e and X = X and cfg = smc and now = "clock 4" and oid = oid and mw = None]
  show ?thesis by (fastforce simp: is_finished_def)
qed

theorem timeout_ignores_recent_report_witness:
  "\<exists>d' b. timeout_operation_id ref_ext (memory_db list_lru no_limits 0) sample_sm (\<lambda>_. 9) 0 (\<lambda>_ d. d) (Op_Uuid 1) running_db
     = (Ok (), d') \<and> db_look (Op_Uuid 1) d' = Some b \<and> stage (aa_state b) = Queued"
proof -
  from running_db_look(2) obtain a where a: "db_look (Op_Uuid 1) running_db = Some a" "stage (aa_state a) = Executing"
    "aa_last_worker_updated_timestamp a = 9" "aa_attempts a = 0" by blast
  from timeout_ignores_recent_report [OF running_db_look(1) a(1,2), of sample_sm 0 ref_ext no_limits 0 "\<lambda>_. 9"] a(3,4)
  show ?thesis by (fastforce simp: sample_sm_def)
qed

end
