(* ===== verification/Operation_Listing.thy ===== *)
theory Operation_Listing
  imports State_Manager
begin

text \<open>
  What \<open>filter_operations\<close> lists when it is asked for one stage, on the in-memory database: the chunks
  of \<open>get_range_of_actions\<close>, the items of the stream, and the listing as a whole.
\<close>

section \<open>Chunks\<close>

lemma sorted_last: "sorted xs \<Longrightarrow> x \<in> set xs \<Longrightarrow> x \<le> last xs"
  by (induction xs rule: rev_induct) (auto simp: sorted_append)

lemma sorted_hd: "sorted xs \<Longrightarrow> x \<in> set xs \<Longrightarrow> hd xs \<le> x"
  by (cases xs) auto

definition sub_of :: "sorted_awaited_action \<Rightarrow> subscriber" where
  "sub_of x = \<lparr>sub_operation_id = saa_operation_id x, sub_client_operation_id = None\<rparr>"

lemma collect_range_Ok: "collect_range (map (\<lambda>x. Ok (x, f x)) xs) = Ok (map (\<lambda>x. (x, f x)) xs)"
  by (induction xs) simp_all

fun stage_bucket :: "sorted_state \<Rightarrow> nat" where
  "stage_bucket Sorted_CacheCheck = 1"
| "stage_bucket Sorted_Queued = 2"
| "stage_bucket Sorted_Executing = 3"
| "stage_bucket Sorted_Completed = 4"

lemma btree_sorted_state:
  assumes "tables_ok db"
  shows "btree_of_sorted_state st (sorted_action_info_hash_keys db) = expected_set db (stage_bucket st)"
  using tables_okD(3) [OF assms, of CacheCheck] tables_okD(3) [OF assms, of Queued]
    tables_okD(3) [OF assms, of Executing] tables_okD(3) [OF assms, of "Completed action_result_default"]
  by (cases st) simp_all

lemma finite_expected_set: "finite (expected_set db b)"
proof (rule finite_subset)
  show "expected_set db b \<subseteq> (\<lambda>(oid, a). SortedAA (aa_sort_key a) oid) ` set (operation_id_to_awaited_action db)"
    by (force simp: expected_set_def dest: map_of_SomeD)
qed simp

text \<open>The entries of a set between two bounds, in order.\<close>

definition entries_between ::
  "'a::linorder set \<Rightarrow> 'a bound \<Rightarrow> 'a bound \<Rightarrow> 'a list" where
  "entries_between S start stop = sorted_list_of_set {x \<in> S. above_start start x \<and> below_end stop x}"

lemma range_chunk_eq:
  assumes "tables_ok db" and "\<not> range_panics start stop"
  shows "range_of_actions_chunk st desc start stop db =
    (let xs = entries_between (expected_set db (stage_bucket st)) start stop;
         ys = (if desc then rev xs else xs)
     in Some (Ok (if ys = [] then None
                  else Some (if desc then (start, Excluded (last ys)) else (Excluded (last ys), stop), map sub_of ys))))"
proof -
  let ?xs = "entries_between (expected_set db (stage_bucket st)) start stop"
  have fin: "finite {x \<in> expected_set db (stage_bucket st). above_start start x \<and> below_end stop x}"
    by (simp add: finite_expected_set)
  have "get_by_operation_id (saa_operation_id x) db = Some (sub_of x)" if "x \<in> set ?xs" for x
    using that fin by (auto simp: entries_between_def in_expected_set get_by_operation_id_def sub_of_def)
  then have range: "get_range_of_actions st start stop db = Some (map (\<lambda>x. Ok (x, sub_of x)) ?xs)"
    using assms(2) by (simp add: get_range_of_actions_def btree_sorted_state [OF assms(1)] entries_between_def)
  show ?thesis
    by (cases desc)
      (simp_all add: range_of_actions_chunk_def range rev_map collect_range_Ok Let_def last_map comp_def)
qed

section \<open>Items\<close>

text \<open>No client has been heard of for too long.\<close>

definition abandoned :: "sm_config \<Rightarrow> system_time \<Rightarrow> awaited_action \<Rightarrow> bool" where
  "abandoned cfg now a \<longleftrightarrow> aa_last_client_keepalive_timestamp a + int (client_action_timeout cfg) < now"

definition given_up :: "system_time \<Rightarrow> awaited_action \<Rightarrow> awaited_action" where
  "given_up now a =
     increment_version (worker_set_state ((aa_state a)\<lparr>stage := Completed abandoned_result\<rparr>) now a)"

text \<open>What the predicate leaves of the action it looks at.\<close>

definition seen :: "sm_config \<Rightarrow> system_time \<Rightarrow> awaited_action \<Rightarrow> awaited_action" where
  "seen cfg now a = (if abandoned cfg now a \<and> \<not> is_finished (stage (aa_state a)) then given_up now a else a)"

lemma given_up_fields [simp]:
  "aa_sort_key (given_up now a) = aa_sort_key a" "aa_operation_id (given_up now a) = aa_operation_id a"
  "is_finished (stage (aa_state (given_up now a)))" "bucket_of (stage (aa_state (given_up now a))) = 4"
  by (simp_all add: given_up_def is_finished_def)

lemma seen_fields [simp]:
  "aa_sort_key (seen cfg now a) = aa_sort_key a" "aa_operation_id (seen cfg now a) = aa_operation_id a"
  by (simp_all add: seen_def)

lemma seen_bucket: "bucket_of (stage (aa_state (seen cfg now a))) = b \<Longrightarrow> bucket_of (stage (aa_state a)) \<noteq> b \<Longrightarrow> b = 4"
  by (auto simp: seen_def split: if_splits)

context action_db_laws
begin

lemma predicate_effect:
  assumes "ok d" and "look oid d = Some a"
  shows "\<exists>d'. apply_filter_predicate D cfg now f a d = (\<not> abandoned cfg now a \<and> filter_matches f a, d') \<and> ok d'
    \<and> (\<forall>x. look x d' = (if x = oid then Some (seen cfg now a) else look x d))"
proof (cases "abandoned cfg now a \<and> \<not> is_finished (stage (aa_state a))")
  case False
  then show ?thesis using assms by (auto simp: apply_filter_predicate_def abandoned_def [symmetric] seen_def)
next
  case True
  let ?new = "worker_set_state ((aa_state a)\<lparr>stage := Completed abandoned_result\<rparr>) now a"
  have "aa_operation_id ?new = oid" "same_job ?new a"
    using look_id [OF assms] by (simp_all add: same_job_def)
  then have "\<exists>d'. adb_update_awaited_action D ?new d = (Ok (), d') \<and> ok d'
      \<and> (\<forall>x. look x d' = (if x = oid then Some (increment_version ?new) else look x d))"
    using update_current [OF assms(1), of ?new a] assms(2) by simp
  with True show ?thesis
    by (auto simp: apply_filter_predicate_def abandoned_def [symmetric] seen_def given_up_def)
qed

end

text \<open>A consumer that keeps what it is given.\<close>

definition collect_body :: "('d, 's, 's result list) consumer" where
  "collect_body item st = Continue (fst st, snd st @ [item])"

definition listed :: "sm_config \<Rightarrow> system_time \<Rightarrow> operation_filter \<Rightarrow> 'c adb \<Rightarrow> sorted_awaited_action \<Rightarrow> bool" where
  "listed cfg now f d x \<longleftrightarrow>
     (case db_look (saa_operation_id x) d of
        None \<Rightarrow> False
      | Some a \<Rightarrow> \<not> abandoned cfg now a \<and> filter_matches f a)"

lemma items_effect:
  assumes "db_ok L [] d" and "distinct (map saa_operation_id xs)"
    and "\<And>x. x \<in> set xs \<Longrightarrow> db_look (saa_operation_id x) d \<noteq> None"
  shows "\<exists>d'. run_buffer (\<lambda>x. filter_item (memory_db L cfg t) smc now f collect_body (Ok x)) (map sub_of xs) (d, out)
      = Continue (d', out @ map (\<lambda>x. Ok (sub_of x)) (filter (listed smc now f d) xs))
    \<and> db_ok L [] d'
    \<and> (\<forall>y. db_look y d' = (if y \<in> saa_operation_id ` set xs then map_option (seen smc now) (db_look y d) else db_look y d))"
  using assms
proof (induction xs arbitrary: d out)
  case Nil
  then show ?case by simp
next
  case (Cons x xs)
  let ?oid = "saa_operation_id x"
  obtain a where a: "db_look ?oid d = Some a" using Cons.prems(3) by fastforce
  have borrow: "adb_borrow (memory_db L cfg t) (sub_of x) d = Ok a"
    using a by (simp add: memory_db_def sub_borrow_def sub_of_def db_look_def)
  obtain d1 where d1: "apply_filter_predicate (memory_db L cfg t) smc now f a d = (\<not> abandoned smc now a \<and> filter_matches f a, d1)"
    "db_ok L [] d1" "\<forall>y. db_look y d1 = (if y = ?oid then Some (seen smc now a) else db_look y d)"
    using mem.predicate_effect [OF Cons.prems(1) a, of cfg t smc now f] by blast
  have step: "filter_item (memory_db L cfg t) smc now f collect_body (Ok (sub_of x)) (d, out)
      = Continue (d1, out @ (if listed smc now f d x then [Ok (sub_of x)] else []))"
    using borrow d1(1) a by (auto simp: filter_item_def collect_body_def listed_def)
  have other: "saa_operation_id y \<noteq> ?oid" if "y \<in> set xs" for y
    using Cons.prems(2) that by (auto simp: image_iff)
  have keep: "filter (listed smc now f d1) xs = filter (listed smc now f d) xs"
    using other d1(3) by (intro filter_cong) (simp_all add: listed_def)
  have "\<exists>d'. run_buffer (\<lambda>x. filter_item (memory_db L cfg t) smc now f collect_body (Ok x)) (map sub_of xs)
        (d1, out @ (if listed smc now f d x then [Ok (sub_of x)] else []))
      = Continue (d', (out @ (if listed smc now f d x then [Ok (sub_of x)] else [])) @ map (\<lambda>x. Ok (sub_of x)) (filter (listed smc now f d1) xs))
    \<and> db_ok L [] d'
    \<and> (\<forall>y. db_look y d' = (if y \<in> saa_operation_id ` set xs then map_option (seen smc now) (db_look y d1) else db_look y d1))"
    using Cons.prems d1(2,3) by (intro Cons.IH) auto
  then obtain d' where d': "run_buffer (\<lambda>x. filter_item (memory_db L cfg t) smc now f collect_body (Ok x)) (map sub_of xs)
        (d1, out @ (if listed smc now f d x then [Ok (sub_of x)] else []))
      = Continue (d', (out @ (if listed smc now f d x then [Ok (sub_of x)] else [])) @ map (\<lambda>x. Ok (sub_of x)) (filter (listed smc now f d) xs))"
    "db_ok L [] d'"
    "\<forall>y. db_look y d' = (if y \<in> saa_operation_id ` set xs then map_option (seen smc now) (db_look y d1) else db_look y d1)"
    unfolding keep by blast
  have "db_look y d' = (if y \<in> saa_operation_id ` set (x # xs) then map_option (seen smc now) (db_look y d) else db_look y d)" for y
  proof (cases "y = ?oid")
    case True
    then have "y \<notin> saa_operation_id ` set xs" using Cons.prems(2) by simp
    with d'(3) d1(3) a True show ?thesis by simp
  next
    case False
    with d'(3) d1(3) show ?thesis by simp
  qed
  with d'(1,2) step show ?case by (intro exI [of _ d']) simp
qed

section \<open>The listing\<close>

text \<open>
  C9. A listing of one stage is complete and in order. Asked for the operations of one stage, highest
  or lowest priority first, the state manager hands over, in that order and once each, exactly the
  operations of that stage that match the filter and whose clients are not gone; the operations without
  clients it comes across are completed with an error, and nothing else changes. Two chunks are enough.
\<close>

theorem filter_operations_complete:
  assumes "db_ok L [] d" and "sorted_awaited_action_state_for_flags (f_stages f) = Some st"
    and "f_operation_id f = None" and "f_client_operation_id f = None" and "1 < fuel"
  shows "\<exists>d'. inner_filter_operations (memory_db L cfg t) smc now fuel f collect_body (d, [])
      = Some (Continue (d', map (\<lambda>x. Ok (sub_of x)) (filter (listed smc now f d)
          ((if f_order_by_priority_direction f = Some Order_Desc then rev else id)
             (sorted_list_of_set (btree_of_sorted_state st (sorted_action_info_hash_keys d)))))))
    \<and> (\<forall>oid. db_look oid d' = map_option (\<lambda>a. if bucket_of (stage (aa_state a)) = stage_bucket st then seen smc now a else a)
                               (db_look oid d))"
proof -
  let ?desc = "f_order_by_priority_direction f = Some Order_Desc"
  let ?S = "\<lambda>d. expected_set d (stage_bucket st)"
  let ?chunk = "\<lambda>s e (p :: 'a adb \<times> subscriber result list). range_of_actions_chunk st ?desc s e (fst p)"
  let ?body = "filter_item (memory_db L cfg t) smc now f collect_body"
  define xs where "xs = (if ?desc then rev (sorted_list_of_set (?S d)) else sorted_list_of_set (?S d))"
  have t: "tables_ok d" using assms(1) by (simp add: db_ok_def)
  have fin: "finite (?S e)" for e :: "'a adb" by (rule finite_expected_set)
  have set_xs: "set xs = ?S d" using fin by (simp add: xs_def)
  have inj: "inj_on saa_operation_id (?S e)" for e :: "'a adb"
    by (auto simp: inj_on_def in_expected_set sorted_awaited_action.expand)
  have "distinct xs" by (simp add: xs_def)
  with inj [of d] set_xs have "distinct (map saa_operation_id xs)" by (simp add: distinct_map)
  moreover have "db_look (saa_operation_id x) d \<noteq> None" if "x \<in> set xs" for x
    using that set_xs by (auto simp: in_expected_set db_look_def)
  ultimately obtain d' where items: "run_buffer (\<lambda>x. ?body (Ok x)) (map sub_of xs) (d, [])
      = Continue (d', map (\<lambda>x. Ok (sub_of x)) (filter (listed smc now f d) xs))"
    and ok': "db_ok L [] d'"
    and look': "\<forall>y. db_look y d' = (if y \<in> saa_operation_id ` set xs then map_option (seen smc now) (db_look y d) else db_look y d)"
    using items_effect [OF assms(1), of xs cfg t smc now f "[]"] by auto
  have t': "tables_ok d'" using ok' by (simp add: db_ok_def)
  have in_xs: "oid \<in> saa_operation_id ` set xs \<longleftrightarrow> (\<exists>a. db_look oid d = Some a \<and> bucket_of (stage (aa_state a)) = stage_bucket st)" for oid
  proof
    assume "\<exists>a. db_look oid d = Some a \<and> bucket_of (stage (aa_state a)) = stage_bucket st"
    then obtain a where "db_look oid d = Some a" "bucket_of (stage (aa_state a)) = stage_bucket st" by blast
    then have "SortedAA (aa_sort_key a) oid \<in> set xs" by (simp add: set_xs in_expected_set db_look_def)
    then show "oid \<in> saa_operation_id ` set xs" by (rule rev_image_eqI) simp
  qed (auto simp: set_xs in_expected_set db_look_def)
  have shrinks: "?S d' \<subseteq> ?S d"
  proof
    fix x assume "x \<in> ?S d'"
    then obtain b where b: "db_look (saa_operation_id x) d' = Some b" "saa_sort_key x = aa_sort_key b"
      "bucket_of (stage (aa_state b)) = stage_bucket st" by (auto simp: in_expected_set db_look_def)
    show "x \<in> ?S d"
    proof (cases "saa_operation_id x \<in> saa_operation_id ` set xs")
      case True
      then obtain a where "db_look (saa_operation_id x) d = Some a" "bucket_of (stage (aa_state a)) = stage_bucket st"
        unfolding in_xs by blast
      with True look' b(1,2) show ?thesis by (auto simp: in_expected_set db_look_def)
    next
      case False
      with look' b show ?thesis by (auto simp: in_expected_set db_look_def)
    qed
  qed
  have first: "entries_between (?S d) Unbounded Unbounded = sorted_list_of_set (?S d)"
    by (simp add: entries_between_def)
  have edge: "x \<in> ?S d' \<Longrightarrow> \<not> (if ?desc then x < last xs else last xs < x)" for x
  proof -
    assume "x \<in> ?S d'"
    with shrinks set_xs have "x \<in> set xs" by blast
    then show ?thesis
      using sorted_last [of "sorted_list_of_set (?S d)" x] sorted_hd [of "sorted_list_of_set (?S d)" x]
      by (auto simp: xs_def not_less last_rev)
  qed
  have second: "entries_between (?S d') (if ?desc then Unbounded else Excluded (last xs))
      (if ?desc then Excluded (last xs) else Unbounded) = []"
    using edge fin [of d'] by (auto simp: entries_between_def)
  define n where "n = fuel - 2"
  have fuel: "fuel = Suc (Suc n)" using assms(5) by (simp add: n_def)
  have "run_chunked fuel ?chunk ?body Unbounded Unbounded (d, [])
      = Some (Continue (d', map (\<lambda>x. Ok (sub_of x)) (filter (listed smc now f d) xs)))"
  proof (cases "xs = []")
    case True
    with items have "d' = d" by simp
    with True show ?thesis
      using range_chunk_eq [OF t, of Unbounded Unbounded st ?desc] by (simp add: fuel first xs_def Let_def split: if_splits)
  next
    case False
    then have c1: "?chunk Unbounded Unbounded (d, [])
        = Some (Ok (Some (if ?desc then (Unbounded, Excluded (last xs)) else (Excluded (last xs), Unbounded), map sub_of xs)))"
      using range_chunk_eq [OF t, of Unbounded Unbounded st ?desc] by (simp add: first xs_def Let_def)
    have c2: "range_of_actions_chunk st ?desc (if ?desc then Unbounded else Excluded (last xs))
        (if ?desc then Excluded (last xs) else Unbounded) d' = Some (Ok None)"
      using second by (subst range_chunk_eq [OF t']) (auto simp: Let_def)
    show ?thesis using c1 c2 items by (cases ?desc) (simp_all add: fuel)
  qed
  then have "inner_filter_operations (memory_db L cfg t) smc now fuel f collect_body (d, [])
      = Some (Continue (d', map (\<lambda>x. Ok (sub_of x)) (filter (listed smc now f d) xs)))"
    using assms(2-4) by (simp add: inner_filter_operations_def memory_db_def)
  moreover have "db_look oid d' = map_option (\<lambda>a. if bucket_of (stage (aa_state a)) = stage_bucket st then seen smc now a else a)
      (db_look oid d)" for oid
    using look' in_xs [of oid] by (cases "db_look oid d") auto
  ultimately show ?thesis by (auto simp: xs_def btree_sorted_state [OF t])
qed

definition queued_filter :: operation_filter where
  "queued_filter = operation_filter_default\<lparr>f_stages := flag_queued, f_order_by_priority_direction := Some Order_Desc\<rparr>"

theorem filter_operations_complete_witness:
  "\<exists>d'. inner_filter_operations (memory_db list_lru no_limits 0) sample_sm 0 2 queued_filter collect_body (sample_db, [])
     = Some (Continue (d', [Ok \<lparr>sub_operation_id = Op_Uuid 1, sub_client_operation_id = None\<rparr>]))"
proof -
  let ?x = "SortedAA (aa_sort_key sample_action) (Op_Uuid 1)"
  have t: "tables_ok sample_db" using sample_db_ok by (simp add: db_ok_def)
  have "expected_set sample_db (stage_bucket Sorted_Queued) = {?x}"
    using sample_action_fields by (auto simp: expected_set_def sample_db_add split: if_splits)
  then have queue: "btree_of_sorted_state Sorted_Queued (sorted_action_info_hash_keys sample_db) = {?x}"
    using btree_sorted_state [OF t, of Sorted_Queued] by simp
  have state: "sorted_awaited_action_state_for_flags (f_stages queued_filter) = Some Sorted_Queued"
    "f_operation_id queued_filter = None" "f_client_operation_id queued_filter = None"
    by (simp_all add: queued_filter_def operation_filter_default_def sorted_awaited_action_state_for_flags_def
        flag_queued_def flag_cache_check_def)
  have alive: "aa_last_client_keepalive_timestamp sample_action = 0"
    by (simp add: sample_action_def awaited_action_new_def sort_key_new_with_unique_key_def duration_since_def sample_info_def)
  have "listed sample_sm 0 queued_filter sample_db ?x"
    using alive sample_action_fields
    by (simp add: listed_def sample_db_look abandoned_def filter_matches_def queued_filter_def operation_filter_default_def
        flag_queued_def sample_sm_def)
  with filter_operations_complete [OF sample_db_ok state, of 2 no_limits 0 sample_sm 0] queue show ?thesis
    by (auto simp: sub_of_def split: if_splits)
qed

end
