(* ===== verification/Simple_Scheduler.thy ===== *)
theory Simple_Scheduler
  imports Operation_Listing
begin

text \<open>
  \<open>SimpleScheduler\<close> (nativelink-scheduler/src/simple_scheduler.rs): the state manager and the worker
  pool put together, and the matching engine that hands queued operations to workers. The state is the
  database \<open>d\<close> and the pool \<open>s\<close>; the pool reports to the state manager of the same scheduler.
\<close>

section \<open>Configuration\<close>

text \<open>The fields of \<open>SimpleSpec\<close> that the scheduler reads.\<close>

record simple_spec =
  sp_supported_platform_properties :: "(string \<rightharpoonup> property_type) option"
  sp_client_action_timeout_s :: u64
  sp_worker_timeout_s :: u64
  sp_max_job_retries :: nat
  sp_allocation_strategy :: allocation_strategy

record scheduler_config =
  sc_known_properties :: "string \<rightharpoonup> property_type"
  sc_allocation_strategy :: allocation_strategy
  sc_worker_timeout_s :: u64
  sc_state_manager :: sm_config

definition default_worker_timeout_s :: u64 where "default_worker_timeout_s = 5"
definition default_client_action_timeout_s :: u64 where "default_client_action_timeout_s = 60"
definition default_max_job_retries :: nat where "default_max_job_retries = 3"

text \<open>\<open>Duration::from_secs\<close>, in nanoseconds.\<close>

definition duration_from_secs :: "u64 \<Rightarrow> nat" where
  "duration_from_secs t = unat t * 1000000000"

definition new_with_callback :: "simple_spec \<Rightarrow> scheduler_config" where
  "new_with_callback spec =
     (let worker_timeout_s = (if sp_worker_timeout_s spec = 0 then default_worker_timeout_s else sp_worker_timeout_s spec);
          client_action_timeout_s = (if sp_client_action_timeout_s spec = 0 then default_client_action_timeout_s
                                     else sp_client_action_timeout_s spec);
          retries = (if sp_max_job_retries spec = 0 then default_max_job_retries else sp_max_job_retries spec)
      in \<lparr>sc_known_properties = (case sp_supported_platform_properties spec of None \<Rightarrow> Map.empty | Some m \<Rightarrow> m),
          sc_allocation_strategy = sp_allocation_strategy spec,
          sc_worker_timeout_s = worker_timeout_s,
          sc_state_manager = \<lparr>max_job_retries = retries,
                              no_event_action_timeout = duration_from_secs worker_timeout_s,
                              client_action_timeout = duration_from_secs client_action_timeout_s\<rparr>\<rparr>)"

section \<open>Clients\<close>

text \<open>A client's handle is the id it gave and the handle of the state manager.\<close>

definition sched_add_action ::
  "('d, 's) action_db \<Rightarrow> system_time \<Rightarrow> operation_id \<Rightarrow> operation_id \<Rightarrow> action_info \<Rightarrow> 'd
     \<Rightarrow> ((operation_id \<times> 's) result \<times> 'd) option" where
  "sched_add_action D now new_id cid info d =
     map_option (\<lambda>(r, d'). (try_bind (err_tip ''In SimpleScheduler::add_action'' r) (\<lambda>sub. Ok (cid, sub)), d'))
       (inner_add_operation D now new_id cid info d)"

definition sched_as_state :: "('d, 's) action_db \<Rightarrow> operation_id \<times> 's \<Rightarrow> 'd \<Rightarrow> action_state result" where
  "sched_as_state D h d =
     try_bind (err_tip ''In SimpleSchedulerActionStateResult'' (as_state D (snd h) d))
       (\<lambda>st. Ok (st\<lparr>client_operation_id := fst h\<rparr>))"

definition sched_changed ::
  "'w ext \<Rightarrow> ('d, 's) action_db \<Rightarrow> sm_config \<Rightarrow> (nat \<Rightarrow> system_time) \<Rightarrow> nat \<Rightarrow> (nat \<Rightarrow> 'd \<Rightarrow> 'd) \<Rightarrow> bool
     \<Rightarrow> operation_id \<times> 's \<Rightarrow> 'd wake list \<Rightarrow> 'd \<Rightarrow> (action_state result \<times> 'd) option" where
  "sched_changed X D cfg clock elapsed env alive h wakes d =
     map_option (\<lambda>(r, d'). (try_bind (err_tip ''In SimpleSchedulerActionStateResult'' r)
                              (\<lambda>st. Ok (st\<lparr>client_operation_id := fst h\<rparr>)), d'))
       (changed_loop X D cfg clock elapsed env alive (snd h) wakes 0 d)"

definition sched_as_action_info :: "('d, 's) action_db \<Rightarrow> operation_id \<times> 's \<Rightarrow> 'd \<Rightarrow> action_info result" where
  "sched_as_action_info D h d = err_tip ''In SimpleSchedulerActionStateResult'' (as_action_info D (snd h) d)"

section \<open>The matching engine\<close>

definition match_action_to_worker ::
  "'w ext \<Rightarrow> 'c pool_ops \<Rightarrow> ('d, 's) action_db \<Rightarrow> scheduler_config \<Rightarrow> (nat \<Rightarrow> system_time) \<Rightarrow> (nat \<Rightarrow> 'd \<Rightarrow> 'd)
     \<Rightarrow> 's result \<Rightarrow> 'd \<Rightarrow> 'c api_sched \<Rightarrow> (unit result \<times> 'd \<times> 'c api_sched) option" where
  "match_action_to_worker X P D sc clock env item d s =
     (case err_tip ''Failed to get action_info from as_action_info_result stream''
             (try_bind item (\<lambda>sub. as_action_info D sub d)) of
        Inl e \<Rightarrow> Some (Err e, d, s)
      | Inr info \<Rightarrow>
     (case err_tip ''Failed to make platform properties in SimpleScheduler::do_try_match''
             (make_platform_properties (sc_known_properties sc) (ai_platform_properties info)) of
        Inl e \<Rightarrow> Some (Err e, d, s)
      | Inr props \<Rightarrow>
     (case inner_find_worker_for_action P (sc_allocation_strategy sc) props s of
        None \<Rightarrow> Some (Ok (), d, s)
      | Some wid \<Rightarrow>
     (case err_tip ''Failed to get action_info from as_state_result stream''
             (try_bind item (\<lambda>sub. as_state D sub d)) of
        Inl e \<Rightarrow> Some (Err e, d, s)
      | Inr st \<Rightarrow>
          let oid = client_operation_id st;
              (assigned, d1) = assign_operation X D (sc_state_manager sc) clock env oid (Ok wid) d
          in case err_tip ''Failed to assign operation in do_try_match'' assigned of
               Inl e \<Rightarrow> Some (if code e = Aborted then Ok () else Err e, d1, s)
             | Inr _ \<Rightarrow>
                 map_option (\<lambda>(r, s', d'). (err_tip ''Failed to run worker_notify_run_action in SimpleScheduler::do_try_match'' r, d', s'))
                   (worker_notify_run_action X P (update_operation X D (sc_state_manager sc) clock env) wid oid
                      \<lparr>ap_inner = info, ap_platform_properties = props\<rparr> s d1)))))"

definition queued_operations_filter :: operation_filter where
  "queued_operations_filter =
     operation_filter_default\<lparr>f_stages := flag_queued, f_order_by_priority_direction := Some Order_Desc\<rparr>"

definition match_body ::
  "'w ext \<Rightarrow> 'c pool_ops \<Rightarrow> ('d, 's) action_db \<Rightarrow> scheduler_config \<Rightarrow> (nat \<Rightarrow> system_time) \<Rightarrow> (nat \<Rightarrow> 'd \<Rightarrow> 'd)
     \<Rightarrow> ('d, 's, 'c api_sched \<times> unit result) consumer" where
  "match_body X P D sc clock env item st =
     (case match_action_to_worker X P D sc clock env item (fst st) (fst (snd st)) of
        None \<Rightarrow> Panicked
      | Some (r, d', s') \<Rightarrow> Continue (d', s', result_merge (snd (snd st)) r))"

definition do_try_match ::
  "'w ext \<Rightarrow> 'c pool_ops \<Rightarrow> ('d, 's) action_db \<Rightarrow> scheduler_config \<Rightarrow> (nat \<Rightarrow> system_time) \<Rightarrow> (nat \<Rightarrow> 'd \<Rightarrow> 'd)
     \<Rightarrow> nat \<Rightarrow> 'd \<Rightarrow> 'c api_sched \<Rightarrow> ('d \<times> 'c api_sched \<times> unit result) flow option" where
  "do_try_match X P D sc clock env fuel d s =
     inner_filter_operations D (sc_state_manager sc) (clock 0) fuel queued_operations_filter
       (match_body X P D sc clock env) (d, s, Ok ())"

section \<open>Workers\<close>

text \<open>The worker's side of the scheduler is the pool, reporting to the state manager.\<close>

definition sched_update_action ::
  "'w ext \<Rightarrow> 'c pool_ops \<Rightarrow> ('d, 's) action_db \<Rightarrow> scheduler_config \<Rightarrow> (nat \<Rightarrow> system_time) \<Rightarrow> (nat \<Rightarrow> 'd \<Rightarrow> 'd)
     \<Rightarrow> worker_id \<Rightarrow> operation_id \<Rightarrow> update_operation_type \<Rightarrow> 'c api_sched \<Rightarrow> 'd \<Rightarrow> (unit result \<times> 'c api_sched \<times> 'd) option" where
  "sched_update_action X P D sc clock env wid oid u s d =
     update_action X P (update_operation X D (sc_state_manager sc) clock env) wid oid u s d"

definition sched_add_worker ::
  "'w ext \<Rightarrow> 'c pool_ops \<Rightarrow> ('d, 's) action_db \<Rightarrow> scheduler_config \<Rightarrow> (nat \<Rightarrow> system_time) \<Rightarrow> (nat \<Rightarrow> 'd \<Rightarrow> 'd)
     \<Rightarrow> worker \<Rightarrow> 'c api_sched \<Rightarrow> 'd \<Rightarrow> (unit result \<times> 'c api_sched \<times> 'd) option" where
  "sched_add_worker X P D sc clock env w s d =
     add_worker X P (update_operation X D (sc_state_manager sc) clock env) w s d"

definition sched_remove_worker ::
  "'w ext \<Rightarrow> 'c pool_ops \<Rightarrow> ('d, 's) action_db \<Rightarrow> scheduler_config \<Rightarrow> (nat \<Rightarrow> system_time) \<Rightarrow> (nat \<Rightarrow> 'd \<Rightarrow> 'd)
     \<Rightarrow> worker_id \<Rightarrow> 'c api_sched \<Rightarrow> 'd \<Rightarrow> (unit result \<times> 'c api_sched \<times> 'd) option" where
  "sched_remove_worker X P D sc clock env wid s d =
     remove_worker X P (update_operation X D (sc_state_manager sc) clock env) wid s d"

definition sched_remove_timedout_workers ::
  "'w ext \<Rightarrow> 'c pool_ops \<Rightarrow> ('d, 's) action_db \<Rightarrow> scheduler_config \<Rightarrow> (nat \<Rightarrow> system_time) \<Rightarrow> (nat \<Rightarrow> 'd \<Rightarrow> 'd)
     \<Rightarrow> u64 \<Rightarrow> 'c api_sched \<Rightarrow> 'd \<Rightarrow> (unit result \<times> 'c api_sched \<times> 'd) option" where
  "sched_remove_timedout_workers X P D sc clock env now s d =
     remove_timedout_workers X P (update_operation X D (sc_state_manager sc) clock env) (sc_worker_timeout_s sc) now s d"

end
