(* ===== verification/Scheduler_Invariant.thy ===== *)
theory Scheduler_Invariant
  imports Simple_Scheduler
begin

text \<open>
  The scheduler as a whole: the database and the worker pool agree. An operation that the database
  calls executing is running on the worker it is assigned to, and that worker is connected; so every
  executing operation has somebody who will report on it, or be evicted. The calls of clients, workers
  and the matching engine are interleaved, each of them running to its end.
\<close>

section \<open>What runs where\<close>

definition running_on :: "'c pool_ops \<Rightarrow> 'c api_sched \<Rightarrow> worker_id \<Rightarrow> operation_id set" where
  "running_on P s wid =
     (case map_of (pool P s) wid of None \<Rightarrow> {} | Some w \<Rightarrow> fst ` set (running_action_infos w))"

lemma running_on_drop [simp]:
  "pool P s' = drop_key wid (pool P s) \<Longrightarrow> running_on P s' = (running_on P s)(wid := {})"
  by (auto simp: running_on_def fun_eq_iff)

lemma running_on_cong: "map_of (pool P s') = map_of (pool P s) \<Longrightarrow> running_on P s' = running_on P s"
  by (simp add: running_on_def fun_eq_iff)

text \<open>Replacing one worker of the pool.\<close>

lemma running_on_write:
  assumes "lru_cache P" and "map_of (lru_iter P c) = map_of (pool P s)" and "map_of (pool P s) wid = Some w"
    and "workers s' = lru_write P wid w' c"
  shows "running_on P s' = (running_on P s)(wid := fst ` set (running_action_infos w'))"
  using assms
  by (auto simp: running_on_def pool_def fun_eq_iff lru_cache.write_iter map_of_write_key)

lemma ids_ok_write:
  assumes "lru_cache P" and "ids_ok P (s\<lparr>workers := c\<rparr>)" and "w_id w' = wid" and "workers s' = lru_write P wid w' c"
  shows "ids_ok P s'"
  using assms by (auto simp: ids_ok_def pool_def lru_cache.write_iter write_key_def)

lemma get_pool:
  assumes "lru_cache P"
  obtains c where "lru_get P wid (workers s) = (map_of (pool P s) wid, c)" "map_of (lru_iter P c) = map_of (pool P s)"
    "ids_ok P s \<Longrightarrow> ids_ok P (s'\<lparr>workers := c\<rparr>)"
proof -
  obtain r c where get: "lru_get P wid (workers s) = (r, c)" by fastforce
  have c: "lru_iter P c = promote wid (pool P s)" and r: "r = map_of (pool P s) wid"
    using lru_cache.get_value [OF assms, of wid "workers s"] lru_cache.get_iter [OF assms, of wid "workers s"] get
    by (simp_all add: pool_def)
  have "ids_ok P (s'\<lparr>workers := c\<rparr>)" if "ids_ok P s"
  proof (cases "map_of (pool P s) wid")
    case None
    with that c show ?thesis by (simp add: ids_ok_def pool_def promote_def)
  next
    case (Some w)
    from map_of_SomeD [OF Some] that have "w_id w = wid" by (auto simp: ids_ok_def)
    with Some that c show ?thesis by (auto simp: ids_ok_def pool_def promote_def drop_key_def)
  qed
  with get c r show thesis by (intro that [of c]) simp_all
qed

section \<open>The invariant\<close>

text \<open>Where the operations of the database are.\<close>

definition orphan_free :: "(worker_id \<Rightarrow> operation_id set) \<Rightarrow> 'c adb \<Rightarrow> bool" where
  "orphan_free runs d \<longleftrightarrow>
     (\<forall>oid a. db_look oid d = Some a \<longrightarrow> stage (aa_state a) = Executing
        \<longrightarrow> (\<exists>wid. aa_worker_id a = Some wid \<and> oid \<in> runs wid))"

text \<open>The state of an operation that is not over names the operation itself.\<close>

definition self_named :: "'c adb \<Rightarrow> bool" where
  "self_named d \<longleftrightarrow>
     (\<forall>oid a. db_look oid d = Some a \<longrightarrow> \<not> is_finished (stage (aa_state a)) \<longrightarrow> client_operation_id (aa_state a) = oid)"

definition sched_ok :: "'l client_lru \<Rightarrow> 'c pool_ops \<Rightarrow> 'l adb \<Rightarrow> 'c api_sched \<Rightarrow> bool" where
  "sched_ok L P d s \<longleftrightarrow> db_ok L [] d \<and> self_named d \<and> ids_ok P s \<and> orphan_free (running_on P s) d"

text \<open>The operations and their sort keys.\<close>

definition universe :: "'c adb \<Rightarrow> sorted_awaited_action set" where
  "universe d = {SortedAA (aa_sort_key a) oid | oid a. db_look oid d = Some a}"

lemma in_universe: "x \<in> universe d \<longleftrightarrow> (\<exists>a. db_look (saa_operation_id x) d = Some a \<and> saa_sort_key x = aa_sort_key a)"
  by (cases x) (auto simp: universe_def)

text \<open>An operation is replaced by a later version of it.\<close>

lemma look_update_universe:
  assumes "db_look oid d = Some a" and "aa_sort_key b = aa_sort_key a"
    and "\<forall>x. db_look x d' = (if x = oid then Some b else db_look x d)"
  shows "universe d' = universe d"
  using assms by (auto simp: in_universe set_eq_iff)

section \<open>Updates by the state manager\<close>

abbreviation quiet :: "nat \<Rightarrow> 'd \<Rightarrow> 'd" where
  "quiet \<equiv> (\<lambda>_ d. d)"

lemma apply_update_cases:
  "stage (aa_state (apply_update X smc now oid mw u a)) = Executing \<Longrightarrow>
     u = Update_KeepAlive \<and> stage (aa_state a) = Executing \<and> aa_worker_id (apply_update X smc now oid mw u a) = aa_worker_id a
     \<or> u = UpdateWithActionStage Executing \<and> aa_worker_id (apply_update X smc now oid mw u a) = mw"
  by (auto simp: apply_update_def stage_of_update_def worker_keep_alive_def Let_def
      split: update_operation_type.splits if_splits)

lemma apply_update_named:
  "\<not> is_finished (stage (aa_state (apply_update X smc now oid mw u a))) \<Longrightarrow> \<not> is_finished (stage (aa_state a))
    \<Longrightarrow> client_operation_id (aa_state a) = oid \<Longrightarrow> client_operation_id (aa_state (apply_update X smc now oid mw u a)) = oid"
  by (auto simp: apply_update_def worker_keep_alive_def Let_def split: option.splits prod.splits)

text \<open>
  What a quiet update leaves: a consistent database with the same operations, in which an operation is
  executing only if it was, or if this update is by the worker it is now assigned to.
\<close>

lemma quiet_step:
  assumes "db_ok L [] d" and "self_named d"
    and d'_def: "d' = snd (inner_update_operation X (memory_db L cfg t) smc clock quiet oid mw u d)"
  shows "db_ok L [] d' \<and> self_named d' \<and> universe d' = universe d
    \<and> (\<forall>x b. db_look x d' = Some b \<longrightarrow> stage (aa_state b) = Executing \<longrightarrow>
         (db_look x d = Some b \<and> (x = oid \<longrightarrow> refused mw b))
         \<or> (\<exists>a. x = oid \<and> u = Update_KeepAlive \<and> db_look x d = Some a \<and> stage (aa_state a) = Executing \<and> aa_worker_id b = aa_worker_id a)
         \<or> x = oid \<and> u = UpdateWithActionStage Executing \<and> aa_worker_id b = mw)"
proof (rule mem.quiet_update_outcome [OF assms(1), of X cfg t smc clock oid mw u])
  assume "snd (inner_update_operation X (memory_db L cfg t) smc clock quiet oid mw u d) = d"
    and "db_look oid d = None \<or> (\<exists>a. db_look oid d = Some a \<and> refused mw a)"
  then show ?thesis using assms(1,2) by (auto simp: d'_def)
next
  fix a d1
  assume d1: "snd (inner_update_operation X (memory_db L cfg t) smc clock quiet oid mw u d) = d1" "db_ok L [] d1"
    and a: "db_look oid d = Some a" "\<not> refused mw a"
    and look: "\<forall>x. db_look x d1 = (if x = oid then Some (increment_version (apply_update X smc (clock 4) oid mw u a)) else db_look x d)"
  let ?b = "apply_update X smc (clock 4) oid mw u a"
  have nf: "\<not> is_finished (stage (aa_state a))" using a(2) by (simp add: refused_def)
  with assms(2) a(1) have "client_operation_id (aa_state a) = oid" by (simp add: self_named_def)
  with apply_update_named [of X smc "clock 4" oid mw u a] nf look assms(2) have "self_named d1"
    by (auto simp: self_named_def)
  moreover have "universe d1 = universe d" by (rule look_update_universe [OF a(1) _ look]) simp
  moreover have "(db_look x d = Some b \<and> (x = oid \<longrightarrow> refused mw b))
         \<or> (\<exists>a. x = oid \<and> u = Update_KeepAlive \<and> db_look x d = Some a \<and> stage (aa_state a) = Executing \<and> aa_worker_id b = aa_worker_id a)
         \<or> x = oid \<and> u = UpdateWithActionStage Executing \<and> aa_worker_id b = mw"
    if "db_look x d1 = Some b" "stage (aa_state b) = Executing" for x b
    using that look a(1) apply_update_cases [of X smc "clock 4" oid mw u a] by (cases "x = oid") auto
  ultimately show ?thesis using d1 by (simp add: d'_def)
qed

section \<open>Evicting a worker\<close>

text \<open>The error reports of an evicted worker: nothing it ran is left executing on it.\<close>

lemma fail_fold:
  assumes "db_ok L [] d" and "self_named d"
    and upd_def: "upd = update_operation X (memory_db L cfg t) smc clock quiet"
    and d'_def: "d' = foldl (\<lambda>d oid. snd (upd oid wid (UpdateWithError e) d)) d oids"
  shows "db_ok L [] d' \<and> self_named d' \<and> universe d' = universe d
    \<and> (\<forall>x b. db_look x d' = Some b \<longrightarrow> stage (aa_state b) = Executing \<longrightarrow>
         db_look x d = Some b \<and> (x \<in> set oids \<longrightarrow> refused (Some wid) b))"
  unfolding d'_def
proof (induction oids rule: rev_induct)
  case Nil
  with assms(1,2) show ?case by simp
next
  case (snoc oid oids)
  let ?d = "foldl (\<lambda>d oid. snd (upd oid wid (UpdateWithError e) d)) d oids"
  let ?d2 = "snd (inner_update_operation X (memory_db L cfg t) smc clock quiet oid (Some wid) (UpdateWithError e) ?d)"
  have eq: "foldl (\<lambda>d oid. snd (upd oid wid (UpdateWithError e) d)) d (oids @ [oid]) = ?d2"
    by (simp add: upd_def update_operation_def)
  from snoc.IH have "db_ok L [] ?d" "self_named ?d" by blast+
  note step = quiet_step [OF this refl, of X cfg t smc clock oid "Some wid" "UpdateWithError e"]
  have old: "db_look x ?d = Some b \<and> (x = oid \<longrightarrow> refused (Some wid) b)"
    if "db_look x ?d2 = Some b" "stage (aa_state b) = Executing" for x b
    using step that by auto
  have "db_look x d = Some b \<and> (x \<in> set (oids @ [oid]) \<longrightarrow> refused (Some wid) b)"
    if "db_look x ?d2 = Some b" "stage (aa_state b) = Executing" for x b
    using snoc.IH old [OF that] that(2) by auto
  then show ?case unfolding eq using snoc.IH step by auto
qed

lemma evict_ok:
  assumes "lru_cache P" and "sched_ok L P d s"
    and "immediate_evict_worker X P (update_operation X (memory_db L cfg t) smc clock quiet) wid e s d = Some (r, s', d')"
  shows "sched_ok L P d' s' \<and> universe d' = universe d \<and> running_on P s' = (running_on P s)(wid := {})"
proof -
  let ?upd = "update_operation X (memory_db L cfg t) smc clock quiet"
  from evict_pool [OF assms(1), of X ?upd wid e s d] assms(3) have
    pool: "pool P s' = drop_key wid (pool P s)" and d': "d' = (case map_of (pool P s) wid of None \<Rightarrow> d
      | Some w \<Rightarrow> foldl (\<lambda>d oid. snd (?upd oid wid (UpdateWithError e) d)) d (map fst (running_action_infos w)))"
    by auto
  have ok: "db_ok L [] d" "self_named d" "ids_ok P s" "orphan_free (running_on P s) d"
    using assms(2) by (simp_all add: sched_ok_def)
  have d'': "d' = foldl (\<lambda>d oid. snd (?upd oid wid (UpdateWithError e) d)) d
      (case map_of (pool P s) wid of None \<Rightarrow> [] | Some w \<Rightarrow> map fst (running_action_infos w))" (is "_ = foldl _ _ ?oids")
    unfolding d' by (auto split: option.split)
  have oids: "set ?oids = running_on P s wid" by (auto simp: running_on_def split: option.split)
  note fail = fail_fold [OF ok(1,2) refl d'']
  have "orphan_free (running_on P s') d'"
    unfolding orphan_free_def running_on_drop [OF pool]
  proof (intro allI impI)
    fix oid b assume b: "db_look oid d' = Some b" "stage (aa_state b) = Executing"
    with fail have old: "db_look oid d = Some b" "oid \<in> running_on P s wid \<longrightarrow> refused (Some wid) b"
      by (auto simp: oids)
    with ok(4) b(2) obtain w where w: "aa_worker_id b = Some w" "oid \<in> running_on P s w" by (auto simp: orphan_free_def)
    have "w \<noteq> wid" using w old(2) b(2) by (auto simp: refused_def is_finished_def)
    with w show "\<exists>w. aa_worker_id b = Some w \<and> oid \<in> ((running_on P s)(wid := {})) w" by auto
  qed
  with fail ids_ok_drop [OF ok(3) pool] running_on_drop [OF pool] show ?thesis by (simp add: sched_ok_def)
qed

section \<open>Reports of a worker\<close>

lemma quiet_result:
  assumes "db_ok L [] d" and "inner_update_operation X (memory_db L cfg t) smc clock quiet oid mw u d = (r, d')"
  shows "\<not> is_ok r \<Longrightarrow> d' = d" and "is_ok r \<Longrightarrow> db_look oid d = Some a \<Longrightarrow> \<not> refused mw a"
proof -
  consider "db_look oid d = None" | a where "db_look oid d = Some a" "refused mw a"
    | a where "db_look oid d = Some a" "\<not> refused mw a" by blast
  then show "\<not> is_ok r \<Longrightarrow> d' = d"
  proof cases
    case 1
    with mem.quiet_update(1) [OF assms(1) 1, of X cfg t smc clock mw u] assms(2) show "\<not> is_ok r \<Longrightarrow> d' = d" by simp
  next
    case 2
    from mem.quiet_update(2) [OF assms(1) 2, of X cfg t smc clock u] assms(2) show "\<not> is_ok r \<Longrightarrow> d' = d" by auto
  next
    case 3
    from mem.quiet_update(3) [OF assms(1) 3, of X cfg t smc clock u] assms(2) show "\<not> is_ok r \<Longrightarrow> d' = d" by auto
  qed
  show "is_ok r \<Longrightarrow> db_look oid d = Some a \<Longrightarrow> \<not> refused mw a"
    using mem.quiet_update(2) [OF assms(1), of oid a mw X cfg t smc clock u] assms(2) by auto
qed

lemma sched_ok_pool:
  assumes "sched_ok L P d s" and "ids_ok P s'" and "running_on P s' = running_on P s"
  shows "sched_ok L P d s'"
  using assms by (simp add: sched_ok_def)

lemma update_action_ok:
  assumes P: "lru_cache P" and ok: "sched_ok L P d s"
    and step: "update_action X P (update_operation X (memory_db L cfg t) smc clock quiet) wid oid u s d = Some (r, s', d')"
  shows "sched_ok L P d' s' \<and> universe d' = universe d"
proof -
  let ?upd = "update_operation X (memory_db L cfg t) smc clock quiet"
  have parts: "db_ok L [] d" "self_named d" "ids_ok P s" "orphan_free (running_on P s) d"
    using ok by (simp_all add: sched_ok_def)
  obtain c where get: "lru_get P wid (workers s) = (map_of (pool P s) wid, c)"
    and c: "map_of (lru_iter P c) = map_of (pool P s)" and ids: "ids_ok P (s\<lparr>workers := c\<rparr>)"
    using get_pool [OF P, of wid s s] parts(3) by blast
  let ?s1 = "s\<lparr>workers := c\<rparr>"
  have runs1: "running_on P ?s1 = running_on P s" using c by (intro running_on_cong) (simp add: pool_def)
  have ok1: "sched_ok L P d ?s1" by (rule sched_ok_pool [OF ok ids runs1])
  show ?thesis
  proof (cases "map_of (pool P s) wid")
    case None
    with step get ok1 show ?thesis by (auto simp: update_action_def)
  next
    case (Some w)
    show ?thesis
    proof (cases "map_of (running_action_infos w) oid")
      case None
      with step get Some obtain e r1 where "immediate_evict_worker X P ?upd wid e ?s1 d = Some (r1, s', d')"
        by (auto simp: update_action_def Let_def)
      from evict_ok [OF P ok1 this] show ?thesis by blast
    next
      case running: (Some info)
      then have here: "oid \<in> running_on P s wid"
        using Some map_of_SomeD [OF running] by (force simp: running_on_def)
      obtain ur d1 where upd: "inner_update_operation X (memory_db L cfg t) smc clock quiet oid (Some wid) u d = (ur, d1)"
        by fastforce
      note q = quiet_step [OF parts(1,2), of d1 X cfg t smc clock oid "Some wid" u, unfolded upd, simplified]
      have free: "orphan_free (running_on P s) d1"
        unfolding orphan_free_def
      proof (intro allI impI)
        fix x b assume b: "db_look x d1 = Some b" "stage (aa_state b) = Executing"
        from q b consider "db_look x d = Some b" | "x = oid" "aa_worker_id b = Some wid"
          | a where "x = oid" "db_look x d = Some a" "stage (aa_state a) = Executing" "aa_worker_id b = aa_worker_id a"
          by blast
        then show "\<exists>w. aa_worker_id b = Some w \<and> x \<in> running_on P s w"
          using parts(4) b(2) here by cases (auto simp: orphan_free_def)
      qed
      have out: "update_action X P ?upd wid oid u s d =
          (if \<not> is_ok ur \<or> \<not> update_finishes u then map_option (\<lambda>r. (r, ?s1, d1)) (Some (err_tip ''in update_operation on SimpleScheduler::update_action'' ur))
           else (case complete_action oid w of
                   None \<Rightarrow> None
                 | Some (complete_res, w1) \<Rightarrow>
                     Some (complete_res, ?s1\<lparr>workers := lru_write P wid
                        (if (\<not> can_accept_work w \<or> update_backpressure u) \<and> has_actions w1 then w1\<lparr>is_paused := True\<rparr> else w1) c,
                        change_permit := True\<rparr>, d1)))"
        using get Some running upd
        by (cases u; cases ur) (auto simp: update_action_def update_operation_def Let_def split: option.split)
      show ?thesis
      proof (cases "\<not> is_ok ur \<or> \<not> update_finishes u")
        case True
        with out step have "s' = ?s1" "d' = d1" by auto
        with q free ids runs1 show ?thesis by (simp add: sched_ok_def)
      next
        case False
        with out step obtain w1 where com: "complete_action oid w = Some (r, w1)"
          and s': "s' = ?s1\<lparr>workers := lru_write P wid
            (if (\<not> can_accept_work w \<or> update_backpressure u) \<and> has_actions w1 then w1\<lparr>is_paused := True\<rparr> else w1) c,
             change_permit := True\<rparr>" (is "_ = ?s1\<lparr>workers := lru_write P wid ?w2 c, change_permit := True\<rparr>")
          and d': "d' = d1" by (auto split: option.splits)
        have w1: "running_action_infos w1 = AList.delete oid (running_action_infos w)" "w_id w1 = w_id w"
          using com running by (auto simp: complete_action_def split: option.splits)
        have "w_id w = wid" using map_of_SomeD [OF Some] parts(3) by (auto simp: ids_ok_def)
        then have "ids_ok P s'" unfolding s'
          by (intro ids_ok_write [OF P ids, of ?w2 wid]) (simp_all add: w1)
        moreover have runs': "running_on P s' = (running_on P s)(wid := running_on P s wid - {oid})"
          using running_on_write [OF P c Some, of s' ?w2] w1 Some by (simp add: s' keys_delete running_on_def)
        moreover have "orphan_free (running_on P s') d1"
          unfolding orphan_free_def runs'
        proof (intro allI impI)
          fix x b assume b: "db_look x d1 = Some b" "stage (aa_state b) = Executing"
          have "x \<noteq> oid"
          proof
            assume "x = oid"
            with q b have "db_look oid d = Some b \<and> refused (Some wid) b \<or> u = Update_KeepAlive \<or> u = UpdateWithActionStage Executing"
              by blast
            with False have "db_look oid d = Some b" "refused (Some wid) b" by (auto simp: is_finished_def)
            with quiet_result(2) [OF parts(1) upd] False show False by simp
          qed
          with free b show "\<exists>w. aa_worker_id b = Some w \<and> x \<in> ((running_on P s)(wid := running_on P s wid - {oid})) w"
            unfolding orphan_free_def by fastforce
        qed
        ultimately show ?thesis using q d' by (simp add: sched_ok_def)
      qed
    qed
  qed
qed

section \<open>The matching engine\<close>

lemma keys_update: "fst ` set (AList.update k v al) = insert k (fst ` set al)"
  using update_conv' [of k v al] by (metis dom_map_of_conv_image_fst dom_fun_upd option.distinct(1))

lemma notify_ok:
  assumes P: "lru_cache P" and d: "db_ok L [] d" "self_named d" and ids: "ids_ok P s"
    and w: "map_of (pool P s) wid = Some w"
    and free: "orphan_free ((running_on P s)(wid := insert oid (running_on P s wid))) d"
    and step: "worker_notify_run_action X P (update_operation X (memory_db L cfg t) smc clock quiet) wid oid info s d = Some (r, s', d')"
  shows "sched_ok L P d' s' \<and> universe d' = universe d"
proof -
  obtain c where get: "lru_get P wid (workers s) = (map_of (pool P s) wid, c)"
    and c: "map_of (lru_iter P c) = map_of (pool P s)" and ids1: "ids_ok P (s\<lparr>workers := c\<rparr>)"
    using get_pool [OF P, of wid s s] ids by blast
  from step get w obtain r1 w1 where run: "run_action X oid info w = Some (r1, w1)"
    by (auto simp: worker_notify_run_action_def notify_update_def split: option.splits)
  let ?s1 = "s\<lparr>workers := lru_write P wid w1 c\<rparr>"
  have w1: "running_action_infos w1 = AList.update oid info (running_action_infos w)" "w_id w1 = w_id w"
    using run by (auto simp: run_action_def Let_def split_beta split: option.splits)
  have "w_id w = wid" using map_of_SomeD [OF w] ids by (auto simp: ids_ok_def)
  with w1 have "ids_ok P ?s1" by (intro ids_ok_write [OF P ids1, of w1 wid]) simp_all
  moreover have "running_on P ?s1 = (running_on P s)(wid := insert oid (running_on P s wid))"
    using running_on_write [OF P c w, of ?s1 w1] w1 w by (simp add: keys_update running_on_def)
  ultimately have ok1: "sched_ok L P d ?s1" using d free by (simp add: sched_ok_def)
  show ?thesis
  proof (cases "is_ok r1")
    case True
    with step get w run have "s' = ?s1" "d' = d"
      by (auto simp: worker_notify_run_action_def notify_update_def Let_def)
    with ok1 show ?thesis by simp
  next
    case False
    with step get w run obtain e r2 where
      "immediate_evict_worker X P (update_operation X (memory_db L cfg t) smc clock quiet) wid e ?s1 d = Some (r2, s', d')"
      by (auto simp: worker_notify_run_action_def notify_update_def Let_def)
    from evict_ok [OF P ok1 this] show ?thesis by blast
  qed
qed

text \<open>A worker that satisfies the properties can be charged with them.\<close>

lemma reduce_defined:
  "list_all (\<lambda>p. map_of parent (fst p) \<noteq> None) ps \<Longrightarrow> reduce_platform_properties parent ps \<noteq> None"
proof (induction ps arbitrary: parent)
  case Nil
  then show ?case by simp
next
  case (Cons p ps)
  obtain k v where p: "p = (k, v)" by fastforce
  have more: "list_all (\<lambda>p. map_of (AList.update k x parent) (fst p) \<noteq> None) ps" for x
    using Cons.prems by (auto simp: list_all_iff map_of_update)
  show ?case
    using Cons.prems Cons.IH [OF more] Cons.IH [of parent] p
    by (auto split: platform_property_value.split option.split)
qed

lemma satisfied_keys: "is_satisfied_by ps parent \<Longrightarrow> list_all (\<lambda>p. map_of parent (fst p) \<noteq> None) ps"
  by (induction ps) (auto split: option.splits if_splits)

lemma evict_defined:
  assumes "lru_cache P"
  shows "immediate_evict_worker X P upd wid e s d \<noteq> None"
  using evict_pool [OF assms, of X upd wid e s d] by auto

lemma find_in_pool:
  assumes "ids_ok P s" and "lru_cache P" and "inner_find_worker_for_action P strategy props s = Some wid"
  shows "\<exists>w. map_of (pool P s) wid = Some w \<and> worker_fits props w"
proof -
  have find: "y \<in> set xs \<and> Q y" if "List.find Q xs = Some y" for Q y and xs :: "(worker_id \<times> worker) list"
    using find_first [OF that] by auto
  from assms(3) obtain p where p: "p \<in> set (pool P s)" "worker_fits props (snd p)" "wid = w_id (snd p)"
    by (cases strategy) (fastforce simp: inner_find_worker_for_action_def pool_def dest: find)+
  with assms(1) have "wid = fst p" by (auto simp: ids_ok_def)
  with p(1) have "(wid, snd p) \<in> set (pool P s)" by simp
  with lru_cache.iter_distinct [OF assms(2), of "workers s"] have "map_of (pool P s) wid = Some (snd p)"
    by (simp add: pool_def)
  with p show ?thesis by blast
qed

lemma match_ok:
  assumes P: "lru_cache P" and ok: "sched_ok L P d s"
    and a: "db_look (saa_operation_id x) d = Some a" "\<not> is_finished (stage (aa_state a))"
  shows "\<exists>r d' s'. match_action_to_worker X P (memory_db L cfg t) sc clock quiet (Ok (sub_of x)) d s = Some (r, d', s')
    \<and> sched_ok L P d' s' \<and> universe d' = universe d"
proof -
  let ?D = "memory_db L cfg t" and ?oid = "saa_operation_id x"
  have parts: "db_ok L [] d" "self_named d" "ids_ok P s" "orphan_free (running_on P s) d"
    using ok by (simp_all add: sched_ok_def)
  have borrow: "adb_borrow ?D (sub_of x) d = Ok a"
    using a(1) by (simp add: memory_db_def sub_borrow_def sub_of_def db_look_def)
  have named: "client_operation_id (aa_state a) = ?oid" using parts(2) a by (simp add: self_named_def)
  show ?thesis
  proof (cases "make_platform_properties (sc_known_properties sc) (ai_platform_properties (aa_action_info a))")
    case (Inl e)
    with ok borrow show ?thesis by (simp add: match_action_to_worker_def as_action_info_def)
  next
    case (Inr props)
    show ?thesis
    proof (cases "inner_find_worker_for_action P (sc_allocation_strategy sc) props s")
      case None
      with ok borrow Inr show ?thesis by (simp add: match_action_to_worker_def as_action_info_def)
    next
      case (Some wid)
      from find_in_pool [OF parts(3) P Some] obtain w where w: "map_of (pool P s) wid = Some w" "worker_fits props w" by blast
      obtain ar d1 where assign: "inner_update_operation X ?D (sc_state_manager sc) clock quiet ?oid (Some wid)
          (UpdateWithActionStage Executing) d = (ar, d1)" by fastforce
      let ?info = "\<lparr>ap_inner = aa_action_info a, ap_platform_properties = props\<rparr>"
      have out: "match_action_to_worker X P ?D sc clock quiet (Ok (sub_of x)) d s =
          (case err_tip ''Failed to assign operation in do_try_match'' ar of
             Inl e \<Rightarrow> Some (if code e = Aborted then Ok () else Err e, d1, s)
           | Inr _ \<Rightarrow> map_option (\<lambda>(r, s', d'). (err_tip ''Failed to run worker_notify_run_action in SimpleScheduler::do_try_match'' r, d', s'))
               (worker_notify_run_action X P (update_operation X ?D (sc_state_manager sc) clock quiet) wid ?oid ?info s d1))"
        using borrow Inr Some assign named
        by (simp add: match_action_to_worker_def as_action_info_def as_state_def assign_operation_def)
      show ?thesis
      proof (cases ar)
        case (Inl e)
        with quiet_result(1) [OF parts(1) assign] have "d1 = d" by simp
        with out Inl ok show ?thesis by simp
      next
        case (Inr u)
        note q = quiet_step [OF parts(1,2), of d1 X cfg t "sc_state_manager sc" clock ?oid "Some wid"
            "UpdateWithActionStage Executing", unfolded assign, simplified]
        have free: "orphan_free ((running_on P s)(wid := insert ?oid (running_on P s wid))) d1"
          unfolding orphan_free_def
        proof (intro allI impI)
          fix y b assume b: "db_look y d1 = Some b" "stage (aa_state b) = Executing"
          from q b consider "db_look y d = Some b" | "y = ?oid" "aa_worker_id b = Some wid" by blast
          then show "\<exists>w. aa_worker_id b = Some w \<and> y \<in> ((running_on P s)(wid := insert ?oid (running_on P s wid))) w"
          proof cases
            case 1
            with parts(4) b(2) obtain w where "aa_worker_id b = Some w" "y \<in> running_on P s w" by (auto simp: orphan_free_def)
            then show ?thesis by auto
          qed auto
        qed
        have "reduce_platform_properties (w_platform_properties w) props \<noteq> None"
          using reduce_defined [OF satisfied_keys] w(2) by (simp add: worker_fits_def)
        then obtain r1 w1 where run: "run_action X ?oid ?info w = Some (r1, w1)"
          by (auto simp: run_action_def Let_def split_beta)
        obtain c where get: "lru_get P wid (workers s) = (map_of (pool P s) wid, c)"
          using get_pool [OF P, of wid s s] by blast
        obtain r s' d' where notify: "worker_notify_run_action X P
            (update_operation X ?D (sc_state_manager sc) clock quiet) wid ?oid ?info s d1 = Some (r, s', d')"
        proof (cases "is_ok r1")
          case True
          with get run w(1) that show thesis by (simp add: worker_notify_run_action_def notify_update_def Let_def)
        next
          case False
          obtain r2 s2 d2 where "immediate_evict_worker X P (update_operation X ?D (sc_state_manager sc) clock quiet) wid
              (make_err Internal ''Worker command failed, removing worker'') (s\<lparr>workers := lru_write P wid w1 c\<rparr>) d1 = Some (r2, s2, d2)"
            using evict_defined [OF P] by (metis not_None_eq prod_cases3)
          with False get run w(1) that show thesis
            by (simp add: worker_notify_run_action_def notify_update_def Let_def)
        qed
        have "sched_ok L P d' s' \<and> universe d' = universe d1"
          using q by (intro notify_ok [OF P _ _ parts(3) w(1) free notify]) blast+
        with q notify out Inr show ?thesis by simp
      qed
    qed
  qed
qed

lemma seen_ok:
  assumes "sched_ok L P d s" and "db_look oid d = Some a" and "db_ok L [] d1"
    and "\<forall>x. db_look x d1 = (if x = oid then Some (seen cfg now a) else db_look x d)"
  shows "sched_ok L P d1 s \<and> universe d1 = universe d"
proof -
  have parts: "self_named d" "ids_ok P s" "orphan_free (running_on P s) d"
    using assms(1) by (simp_all add: sched_ok_def)
  have "self_named d1"
    using parts(1) assms(2,4) by (auto simp: self_named_def seen_def split: if_splits)
  moreover have "orphan_free (running_on P s) d1"
    unfolding orphan_free_def
  proof (intro allI impI)
    fix x b assume b: "db_look x d1 = Some b" "stage (aa_state b) = Executing"
    have "db_look x d = Some b"
    proof (cases "x = oid")
      case True
      with b assms(4) have "b = seen cfg now a" by simp
      moreover have "stage (aa_state (given_up now a)) \<noteq> Executing" by (simp add: given_up_def)
      ultimately have "b = a" using b(2) by (auto simp: seen_def split: if_splits)
      with True assms(2) show ?thesis by simp
    next
      case False
      with b assms(4) show ?thesis by simp
    qed
    with parts(3) b(2) show "\<exists>w. aa_worker_id b = Some w \<and> x \<in> running_on P s w" by (simp add: orphan_free_def)
  qed
  moreover have "universe d1 = universe d" by (rule look_update_universe [OF assms(2) _ assms(4)]) simp
  ultimately show ?thesis using assms(3) parts(2) by (simp add: sched_ok_def)
qed

lemma queued_matches: "filter_matches queued_operations_filter a \<Longrightarrow> \<not> is_finished (stage (aa_state a))"
  by (cases "stage (aa_state a)")
    (simp_all add: filter_matches_def queued_operations_filter_def operation_filter_default_def flag_queued_def
      flag_completed_def flag_any_def is_finished_def)

lemma match_item_ok:
  assumes P: "lru_cache P" and ok: "sched_ok L P d s" and x: "x \<in> universe d"
  shows "flow_all (\<lambda>(d', s', r). sched_ok L P d' s' \<and> universe d' = universe d)
    (filter_item (memory_db L cfg t) smc now queued_operations_filter (match_body X P (memory_db L cfg t) sc clock quiet)
       (Ok (sub_of x)) (d, s, res))"
proof -
  let ?D = "memory_db L cfg t" and ?f = queued_operations_filter
  from x obtain a where a: "db_look (saa_operation_id x) d = Some a" by (auto simp: in_universe)
  have borrow: "adb_borrow ?D (sub_of x) d = Ok a"
    using a by (simp add: memory_db_def sub_borrow_def sub_of_def db_look_def)
  have "db_ok L [] d" using ok by (simp add: sched_ok_def)
  from mem.predicate_effect [OF this a, of cfg t smc now ?f] obtain d1 where
    d1: "apply_filter_predicate ?D smc now ?f a d = (\<not> abandoned smc now a \<and> filter_matches ?f a, d1)" "db_ok L [] d1"
    "\<forall>y. db_look y d1 = (if y = saa_operation_id x then Some (seen smc now a) else db_look y d)" by blast
  from seen_ok [OF ok a d1(2,3)] have ok1: "sched_ok L P d1 s" "universe d1 = universe d" by auto
  show ?thesis
  proof (cases "\<not> abandoned smc now a \<and> filter_matches ?f a")
    case False
    with borrow d1(1) ok1 show ?thesis by (auto simp: filter_item_def)
  next
    case True
    then have "db_look (saa_operation_id x) d1 = Some a" using d1(3) by (simp add: seen_def)
    from match_ok [OF P ok1(1) this queued_matches, of X cfg t sc clock] True obtain r d' s' where
      "match_action_to_worker X P ?D sc clock quiet (Ok (sub_of x)) d1 s = Some (r, d', s')"
      "sched_ok L P d' s'" "universe d' = universe d1" by blast
    with True borrow d1(1) ok1(2) show ?thesis by (simp add: filter_item_def match_body_def)
  qed
qed

lemma expected_universe: "expected_set d b \<subseteq> universe d"
  by (auto simp: in_expected_set in_universe db_look_def)

lemma finite_universe: "finite (universe d)" "card (universe d) \<le> length (operation_id_to_awaited_action d)"
proof -
  have "universe d \<subseteq> set (map (\<lambda>(oid, a). SortedAA (aa_sort_key a) oid) (operation_id_to_awaited_action d))"
    by (force simp: universe_def db_look_def dest: map_of_SomeD)
  then show "finite (universe d)" "card (universe d) \<le> length (operation_id_to_awaited_action d)"
    using finite_subset card_mono card_length by (metis finite_set, metis finite_set order_trans card_mono card_length length_map)
qed

lemma queue_progress:
  "chunk_progress (\<lambda>start stop (p :: 'l adb \<times> 'c api_sched \<times> unit result). range_of_actions_chunk Sorted_Queued True start stop (fst p))
     U (\<lambda>(d, s, r). sched_ok L P d s \<and> universe d = U) (\<lambda>start stop. start = Unbounded) (\<lambda>sub. \<exists>x \<in> U. sub = sub_of x)"
  unfolding chunk_progress_def
proof (intro allI impI)
  fix start stop :: "sorted_awaited_action bound" and st :: "'l adb \<times> 'c api_sched \<times> unit result"
  obtain d s r where st: "st = (d, s, r)" by (cases st)
  assume "case st of (d, s, r) \<Rightarrow> sched_ok L P d s \<and> universe d = U" and "start = Unbounded"
  then have t: "tables_ok d" and U: "universe d = U" and start: "start = Unbounded"
    by (auto simp: st sched_ok_def db_ok_def)
  define ys where "ys = rev (entries_between (expected_set d 2) Unbounded stop)"
  have set_ys: "set ys = {x \<in> expected_set d 2. below_end stop x}"
    using finite_expected_set [of d 2] by (simp add: ys_def entries_between_def)
  have chunk: "range_of_actions_chunk Sorted_Queued True Unbounded stop d
      = Some (Ok (if ys = [] then None else Some ((Unbounded, Excluded (last ys)), map sub_of ys)))"
    using range_chunk_eq [OF t, of Unbounded stop Sorted_Queued True] by (simp add: ys_def Let_def)
  show "range_of_actions_chunk Sorted_Queued True start stop (fst st) = Some (Ok None)
    \<or> (\<exists>start' stop' buffer. range_of_actions_chunk Sorted_Queued True start stop (fst st) = Some (Ok (Some ((start', stop'), buffer)))
       \<and> start' = Unbounded \<and> (\<forall>x \<in> set buffer. \<exists>y \<in> U. x = sub_of y)
       \<and> {x \<in> U. above_start start' x \<and> below_end stop' x} \<subset> {x \<in> U. above_start start x \<and> below_end stop x})"
  proof (cases "ys = []")
    case True
    with chunk show ?thesis by (simp add: st start)
  next
    case False
    then have "last ys \<in> set ys" by simp
    then have last: "last ys \<in> U" "below_end stop (last ys)" using set_ys expected_universe [of d 2] U by auto
    have mono: "below_end stop x" if "x < last ys" for x
      using last(2) that by (cases stop) auto
    have "{x \<in> U. above_start Unbounded x \<and> below_end (Excluded (last ys)) x} \<subset> {x \<in> U. above_start Unbounded x \<and> below_end stop x}"
      using last mono by auto
    moreover have "\<forall>x \<in> set (map sub_of ys). \<exists>y \<in> U. x = sub_of y"
      using set_ys expected_universe [of d 2] U by auto
    ultimately show ?thesis using False chunk by (simp add: st start)
  qed
qed

lemma match_goes_on: "goes_on (filter_item D smc now f (match_body X P D sc clock env) item st)"
proof -
  have "goes_on (match_body X P D sc clock env item st)" for item st
    by (simp add: match_body_def split: option.split)
  then show ?thesis by (simp add: filter_item_def Let_def split: sum.split prod.split)
qed

text \<open>The matching engine comes to an end, without a panic, and leaves a consistent scheduler.\<close>

lemma do_try_match_ok:
  assumes P: "lru_cache P" and ok: "sched_ok L P d s" and fuel: "length (operation_id_to_awaited_action d) < fuel"
  shows "\<exists>d' s' r. do_try_match X P (memory_db L cfg t) sc clock quiet fuel d s = Some (Continue (d', s', r))
    \<and> sched_ok L P d' s' \<and> universe d' = universe d"
proof -
  let ?D = "memory_db L cfg t"
  let ?body = "filter_item ?D (sc_state_manager sc) (clock 0) queued_operations_filter (match_body X P ?D sc clock quiet)"
  let ?I = "\<lambda>(d', s', r). sched_ok L P d' s' \<and> universe d' = universe d"
  let ?run = "run_chunked fuel
      (\<lambda>start stop p. range_of_actions_chunk Sorted_Queued True start stop (fst p)) ?body Unbounded Unbounded (d, s, Ok ())"
  have eq: "do_try_match X P ?D sc clock quiet fuel d s = ?run"
    by (simp add: do_try_match_def inner_filter_operations_def queued_operations_filter_def operation_filter_default_def
        sorted_awaited_action_state_for_flags_def flag_queued_def flag_cache_check_def memory_db_def)
  have "\<exists>fl. ?run = Some fl \<and> flow_all ?I fl"
  proof (rule run_chunked_inv [OF finite_universe(1) queue_progress [where L = L and P = P and U = "universe d"]])
    fix sub and st :: "'b adb \<times> 'a api_sched \<times> unit result"
    assume "\<exists>x \<in> universe d. sub = sub_of x" and I: "?I st"
    then obtain x where x: "x \<in> universe d" "sub = sub_of x" by blast
    obtain d1 s1 r1 where st: "st = (d1, s1, r1)" by (cases st)
    with I x show "flow_all ?I (?body (Ok sub) st)"
      using match_item_ok [OF P, of L d1 s1 x cfg t "sc_state_manager sc" "clock 0" X sc clock r1] by simp
  next
    have "card {x \<in> universe d. above_start Unbounded x \<and> below_end Unbounded x} \<le> length (operation_id_to_awaited_action d)"
      using finite_universe(2) by simp
    with fuel show "card {x \<in> universe d. above_start Unbounded x \<and> below_end Unbounded x} < fuel" by (rule order_le_less_trans [rotated])
  qed (use ok in simp_all)
  then obtain fl where fl: "?run = Some fl" "flow_all ?I fl" by blast
  have "goes_on fl" by (rule run_chunked_goes_on [OF match_goes_on fl(1)])
  with fl eq show ?thesis by (cases fl) auto
qed

section \<open>The other calls\<close>

lemma sched_ok_new: "lru_cache L \<Longrightarrow> lru_cache P \<Longrightarrow> sched_ok L P (adb_new L) (api_sched_new P)"
  by (simp add: sched_ok_def db_ok_new self_named_def orphan_free_def ids_ok_def pool_def api_sched_new_def db_look_def
      adb_new_def [of L] lru_cache.iter_unbounded) (simp add: db_ok_new [unfolded adb_new_def])

text \<open>Operations disappear, or a new one is queued.\<close>

lemma sched_ok_fewer:
  assumes "sched_ok L P d s" and "db_ok L [] d'" and "\<And>x a. db_look x d' = Some a \<Longrightarrow> db_look x d = Some a"
  shows "sched_ok L P d' s"
  using assms by (fastforce simp: sched_ok_def self_named_def orphan_free_def)

lemma event_look:
  "db_look x (handle_action_event L cfg now e d) = Some a \<Longrightarrow> db_look x d = Some a"
  by (cases e) (auto simp: handle_action_event.simps db_look_def Let_def alist_simps split: option.splits if_splits action_unique_qualifier.splits)

lemma cycle_look: "db_look x (action_events_cycle L cfg now d) = Some a \<Longrightarrow> db_look x d = Some a"
proof -
  have "db_look x (foldl (\<lambda>d e. handle_action_event L cfg now e d) d evs) = Some a \<Longrightarrow> db_look x d = Some a" for d evs
    by (induction evs arbitrary: d) (auto dest: event_look)
  from this [of "d\<lparr>action_events := drop 1024 (action_events d)\<rparr>"]
  show "db_look x (action_events_cycle L cfg now d) = Some a \<Longrightarrow> db_look x d = Some a"
    by (simp add: action_events_cycle_def handle_action_events_def db_look_def)
qed

lemma add_action_ok:
  assumes L: "lru_cache L" and ok: "sched_ok L P d s" and fresh: "db_look new_id d = None"
    and add: "db_add_action L cfg t now new_id cid info d = Some (r, d')"
  shows "sched_ok L P d' s"
proof -
  have parts: "db_ok L [] d" "self_named d" "ids_ok P s" "orphan_free (running_on P s) d" and t: "tables_ok d"
    using ok by (simp_all add: sched_ok_def db_ok_def)
  obtain r1 d1 where inner: "inner_add_action L cfg t now new_id cid info d = Some (r1, d1)"
    and d': "d' = d1 \<or> d' = d1\<lparr>tasks_change_permit := True\<rparr>"
    using add by (auto simp: db_add_action_def split: option.splits sum.splits)
  have "db_ok L [] d1" using db_ok_add [OF L parts(1) _ inner] fresh by (simp add: db_look_def)
  with d' have ok': "db_ok L [] d'" by (auto simp: db_ok_permit)
  have look': "db_look x d' = db_look x d1" for x using d' by (auto simp: db_look_def)
  have cases: "(\<forall>x. db_look x d1 = db_look x d)
      \<or> (\<exists>a. awaited_action_new new_id info now = Some a \<and> (\<forall>x. db_look x d1 = (if x = new_id then Some a else db_look x d)))"
  proof (cases "\<exists>key oid. unique_qualifier info = Cachable key \<and> action_info_hash_key_to_awaited_action d key = Some oid")
    case True
    then show ?thesis using inner
      by (auto simp: inner_add_action_def try_subscribe_cases [OF t] db_look_def)
  next
    case False
    then have absent: "action_info_hash_key_to_awaited_action d key = None" if "unique_qualifier info = Cachable key" for key
      using that by auto
    have "try_subscribe L cfg t cid (unique_qualifier info) d = (Ok None, d)"
      unfolding try_subscribe_cases [OF t] using absent by (auto split: action_unique_qualifier.split option.split)
    with inner obtain a where new: "awaited_action_new new_id info now = Some a"
      by (auto simp: inner_add_action_def split: option.splits)
    from add_action_cases [OF t _ new absent, of L cfg t cid] fresh inner new show ?thesis
      by (auto simp: db_look_def make_client_awaited_action_def map_of_update)
  qed
  have stage: "stage (aa_state a) = Queued \<and> client_operation_id (aa_state a) = new_id" if "awaited_action_new new_id info now = Some a" for a
    using that by (auto simp: awaited_action_new_def split: option.splits)
  have old: "db_look x d = Some b \<or> stage (aa_state b) = Queued \<and> client_operation_id (aa_state b) = x"
    if "db_look x d' = Some b" for x b
    using cases stage that look' by (metis option.inject)
  then have "self_named d'" "orphan_free (running_on P s) d'"
    using parts(2,4) unfolding self_named_def orphan_free_def by (metis action_stage.distinct)+
  with ok' parts(3) show ?thesis by (simp add: sched_ok_def)
qed

lemma quiet_sched_ok:
  assumes ok: "sched_ok L P d s" and u: "u \<noteq> UpdateWithActionStage Executing"
    and d': "d' = snd (inner_update_operation X (memory_db L cfg t) smc clock quiet oid mw u d)"
  shows "sched_ok L P d' s"
proof -
  have parts: "db_ok L [] d" "self_named d" "ids_ok P s" "orphan_free (running_on P s) d"
    using ok by (simp_all add: sched_ok_def)
  note q = quiet_step [OF parts(1,2) d']
  have "orphan_free (running_on P s) d'"
    unfolding orphan_free_def
  proof (intro allI impI)
    fix x b assume "db_look x d' = Some b" "stage (aa_state b) = Executing"
    with q u obtain a where "db_look x d = Some a" "stage (aa_state a) = Executing" "aa_worker_id b = aa_worker_id a" by metis
    with parts(4) show "\<exists>w. aa_worker_id b = Some w \<and> x \<in> running_on P s w" by (simp add: orphan_free_def)
  qed
  with q parts(3) show ?thesis by (simp add: sched_ok_def)
qed

lemma keep_alives_ok:
  assumes "sched_ok L P d s"
  shows "sched_ok L P (forward_keep_alives (update_operation X (memory_db L cfg t) smc clock quiet) msgs d) s"
  using assms
proof (induction msgs arbitrary: d)
  case Nil
  then show ?case by simp
next
  case (Cons m msgs)
  obtain oid wid where m: "m = (oid, wid)" by fastforce
  have "sched_ok L P (snd (update_operation X (memory_db L cfg t) smc clock quiet oid wid Update_KeepAlive d)) s"
    unfolding update_operation_def by (rule quiet_sched_ok [OF Cons.prems _ refl]) simp
  from Cons.IH [OF this] show ?case by (simp add: m)
qed

lemma timeout_ok:
  assumes "sched_ok L P d s" and "timeout_operation_id X (memory_db L cfg t) smc clock elapsed quiet oid d = (r, d')"
  shows "sched_ok L P d' s"
proof -
  consider "d' = d" | e where "d' = snd (inner_update_operation X (memory_db L cfg t) smc clock quiet oid None (UpdateWithError e) d)"
    using assms(2)
    by (auto simp: timeout_operation_id_def assign_operation_def Let_def split: sum.splits option.splits if_splits)
      (metis snd_conv)+
  then show ?thesis
  proof cases
    case 1
    with assms(1) show ?thesis by simp
  next
    case 2
    show ?thesis by (rule quiet_sched_ok [OF assms(1) _ 2]) simp
  qed
qed

lemma evict_all_ok:
  assumes P: "lru_cache P" and "sched_ok L P d s"
    and "evict_all X P (update_operation X (memory_db L cfg t) smc clock quiet) wids res s d = Some (r, s', d')"
  shows "sched_ok L P d' s'"
  using assms(2,3)
proof (induction wids arbitrary: res s d)
  case Nil
  then show ?case by simp
next
  case (Cons wid wids)
  then obtain r1 s1 d1 where
    "immediate_evict_worker X P (update_operation X (memory_db L cfg t) smc clock quiet) wid
       (make_err Internal ''Worker timed out, removing from pool'') s d = Some (r1, s1, d1)"
    "evict_all X P (update_operation X (memory_db L cfg t) smc clock quiet) wids (result_merge res r1) s1 d1 = Some (r, s', d')"
    by (auto split: option.splits)
  with evict_ok [OF P Cons.prems(1)] Cons.IH show ?case by blast
qed

lemma add_worker_ok:
  assumes P: "lru_cache P" and ok: "sched_ok L P d s"
    and fresh: "map_of (pool P s) (w_id w) = None" and idle: "running_action_infos w = []"
    and add: "add_worker X P (update_operation X (memory_db L cfg t) smc clock quiet) w s d = Some (r, s', d')"
  shows "sched_ok L P d' s'"
proof -
  obtain old c where put: "lru_put P (w_id w) w (workers s) = (old, c)" by fastforce
  have iter: "lru_iter P c = (w_id w, w) # pool P s"
    using lru_cache.put_iter [OF P, of "w_id w" w "workers s"] put fresh by (simp add: pool_def)
  obtain r1 w1 where init: "send_initial_connection_result X w = (r1, w1)" by fastforce
  have w1: "running_action_infos w1 = []" "w_id w1 = w_id w"
    using init idle by (auto simp: send_initial_connection_result_def split_beta Let_def)
  let ?s1 = "s\<lparr>workers := lru_write P (w_id w) w1 c, change_permit := True\<rparr>"
  have pool1: "pool P ?s1 = (w_id w, w1) # pool P s"
  proof -
    have "w_id w \<notin> fst ` set (pool P s)" using fresh by (simp add: map_of_eq_None_iff)
    then show ?thesis by (simp add: pool_def lru_cache.write_iter [OF P] iter write_key_def map_idI image_iff)
        (auto simp: pool_def intro!: map_idI)
  qed
  have "running_on P ?s1 = running_on P s"
    using fresh w1 by (auto simp: running_on_def pool1 fun_eq_iff)
  moreover have "ids_ok P ?s1" using ok w1 by (simp add: sched_ok_def ids_ok_def pool1)
  ultimately have ok1: "sched_ok L P d ?s1" by (intro sched_ok_pool [OF ok])
  have inner: "inner_add_worker X P w s = Some (err_tip ''Failed to send initial connection result to worker'' r1, ?s1)"
    using put iter init by (simp add: inner_add_worker_def lru_cache.peek_value [OF P])
  show ?thesis
  proof (cases r1)
    case (Inl e)
    with add inner obtain e1 r2 where
      "immediate_evict_worker X P (update_operation X (memory_db L cfg t) smc clock quiet) (w_id w) e1 ?s1 d = Some (r2, s', d')"
      by (auto simp: add_worker_def)
    from evict_ok [OF P ok1 this] show ?thesis by blast
  next
    case (Inr u)
    with add inner ok1 show ?thesis by (auto simp: add_worker_def)
  qed
qed

text \<open>Calls that touch one worker's record and not what it runs.\<close>

lemma touch_worker_ok:
  assumes "lru_cache P" and "sched_ok L P d s" and "ids_ok P (s\<lparr>workers := c\<rparr>)"
    and "map_of (lru_iter P c) = map_of (pool P s)" and "map_of (pool P s) wid = Some w"
    and "running_action_infos w' = running_action_infos w" and "w_id w' = w_id w"
    and "workers s' = lru_write P wid w' c"
  shows "sched_ok L P d s'"
proof (rule sched_ok_pool [OF assms(2)])
  have "w_id w = wid" using map_of_SomeD [OF assms(5)] assms(2) by (auto simp: sched_ok_def ids_ok_def)
  with assms show "ids_ok P s'" by (intro ids_ok_write [OF assms(1,3) _ assms(8)]) simp
  show "running_on P s' = running_on P s"
    using running_on_write [OF assms(1,4,5,8)] assms(5,6) by (auto simp: running_on_def fun_eq_iff)
qed

lemma set_drain_ok:
  assumes P: "lru_cache P" and ok: "sched_ok L P d s" and step: "set_drain_worker P wid b s = (r, s')"
  shows "sched_ok L P d s'"
proof -
  have ids: "ids_ok P s" using ok by (simp add: sched_ok_def)
  obtain c where c: "lru_get P wid (workers s) = (map_of (pool P s) wid, c)" "map_of (lru_iter P c) = map_of (pool P s)"
    "ids_ok P (s\<lparr>workers := c\<rparr>)"
    using get_pool [OF P, of wid s s] ids by metis
  show ?thesis
  proof (cases "map_of (pool P s) wid")
    case None
    with step c have s': "s' = s\<lparr>workers := c\<rparr>" by (simp add: set_drain_worker_def)
    have "running_on P s' = running_on P s" using c(2) by (intro running_on_cong) (simp add: s' pool_def)
    with c(3) show ?thesis by (intro sched_ok_pool [OF ok]) (simp_all add: s')
  next
    case (Some w)
    with step c have "workers s' = lru_write P wid (w\<lparr>is_draining := b\<rparr>) c" by (auto simp: set_drain_worker_def)
    from touch_worker_ok [OF P ok c(3,2) Some _ _ this] show ?thesis by simp
  qed
qed

lemma refresh_ok:
  assumes P: "lru_cache P" and ok: "sched_ok L P d s" and step: "worker_keep_alive_received P wid ts s = (r, s')"
  shows "sched_ok L P d s'"
proof -
  have peek: "lru_peek P wid (workers s) = map_of (pool P s) wid" by (simp add: lru_cache.peek_value [OF P] pool_def)
  consider "s' = s" | w where "map_of (pool P s) wid = Some w"
      "workers s' = lru_write P wid (w\<lparr>last_update_timestamp := ts\<rparr>) (workers s)"
    using step by (auto simp: worker_keep_alive_received_def refresh_lifetime_def peek split: option.splits if_splits)
  then show ?thesis
  proof cases
    case 1
    with ok show ?thesis by simp
  next
    case 2
    have "ids_ok P (s\<lparr>workers := workers s\<rparr>)" using ok by (simp add: sched_ok_def)
    from touch_worker_ok [OF P ok this _ 2(1) _ _ 2(2)] show ?thesis by (simp add: pool_def)
  qed
qed

section \<open>Interleavings\<close>

text \<open>
  The states the scheduler can come to. Each call is one step: a client's request, a worker's message,
  the eviction of workers, a run of the matching engine, a listing that looks at one operation, the
  time-out of an operation, and the background task of the database. The random id of a new operation
  is fresh, and a worker that connects has a fresh id and runs nothing.
\<close>

inductive sched_reach ::
  "'w ext \<Rightarrow> 'l client_lru \<Rightarrow> 'c pool_ops \<Rightarrow> em_config \<Rightarrow> scheduler_config \<Rightarrow> 'l adb \<Rightarrow> 'c api_sched \<Rightarrow> bool"
  for X L P cfg sc where
  new: "sched_reach X L P cfg sc (adb_new L) (api_sched_new P)"
| add_action: "sched_reach X L P cfg sc d s \<Longrightarrow> db_look new_id d = None
    \<Longrightarrow> sched_add_action (memory_db L cfg t) now new_id cid info d = Some (r, d') \<Longrightarrow> sched_reach X L P cfg sc d' s"
| find_action: "sched_reach X L P cfg sc d s \<Longrightarrow> get_awaited_action_by_id L cfg t cid d = (r', d')
    \<Longrightarrow> sched_reach X L P cfg sc d' s"
| add_worker: "sched_reach X L P cfg sc d s \<Longrightarrow> map_of (pool P s) (w_id w) = None \<Longrightarrow> running_action_infos w = []
    \<Longrightarrow> sched_add_worker X P (memory_db L cfg t) sc clock quiet w s d = Some (r'', s', d') \<Longrightarrow> sched_reach X L P cfg sc d' s'"
| update_action: "sched_reach X L P cfg sc d s
    \<Longrightarrow> sched_update_action X P (memory_db L cfg t) sc clock quiet wid oid u s d = Some (r'', s', d') \<Longrightarrow> sched_reach X L P cfg sc d' s'"
| remove_worker: "sched_reach X L P cfg sc d s
    \<Longrightarrow> sched_remove_worker X P (memory_db L cfg t) sc clock quiet wid s d = Some (r'', s', d') \<Longrightarrow> sched_reach X L P cfg sc d' s'"
| remove_timedout: "sched_reach X L P cfg sc d s
    \<Longrightarrow> sched_remove_timedout_workers X P (memory_db L cfg t) sc clock quiet now_s s d = Some (r'', s', d') \<Longrightarrow> sched_reach X L P cfg sc d' s'"
| drain_worker: "sched_reach X L P cfg sc d s \<Longrightarrow> set_drain_worker P wid b s = (r'', s') \<Longrightarrow> sched_reach X L P cfg sc d s'"
| keep_alive: "sched_reach X L P cfg sc d s \<Longrightarrow> worker_keep_alive_received P wid ts s = (r'', s') \<Longrightarrow> sched_reach X L P cfg sc d s'"
| forward_keep_alives: "sched_reach X L P cfg sc d s
    \<Longrightarrow> keep_alive_batch (update_operation X (memory_db L cfg t) (sc_state_manager sc) clock quiet) s d = (s', d') \<Longrightarrow> sched_reach X L P cfg sc d' s'"
| try_match: "sched_reach X L P cfg sc d s
    \<Longrightarrow> do_try_match X P (memory_db L cfg t) sc clock quiet fuel d s = Some (Continue (d', s', r'')) \<Longrightarrow> length (operation_id_to_awaited_action d) < fuel
    \<Longrightarrow> sched_reach X L P cfg sc d' s'"
| list_action: "sched_reach X L P cfg sc d s \<Longrightarrow> db_look oid d = Some a
    \<Longrightarrow> apply_filter_predicate (memory_db L cfg t) (sc_state_manager sc) now f a d = (b, d') \<Longrightarrow> sched_reach X L P cfg sc d' s"
| time_out: "sched_reach X L P cfg sc d s
    \<Longrightarrow> timeout_operation_id X (memory_db L cfg t) (sc_state_manager sc) clock elapsed quiet oid d = (r'', d') \<Longrightarrow> sched_reach X L P cfg sc d' s"
| events: "sched_reach X L P cfg sc d s \<Longrightarrow> sched_reach X L P cfg sc (action_events_cycle L cfg t d) s"
| client_keep_alive: "sched_reach X L P cfg sc d s
    \<Longrightarrow> sched_reach X L P cfg sc (d\<lparr>action_events := action_events d @ [ClientKeepAlive cid]\<rparr>) s"

lemma sched_reach_ok:
  assumes L: "lru_cache L" and P: "lru_cache P"
  shows "sched_reach X L P cfg sc d s \<Longrightarrow> sched_ok L P d s"
proof (induction rule: sched_reach.induct)
  case new
  show ?case by (rule sched_ok_new [OF L P])
next
  case (add_action d s new_id t now cid info r d')
  then obtain r1 where "db_add_action L cfg t now new_id cid info d = Some (r1, d')"
    by (auto simp: sched_add_action_def inner_add_operation_def memory_db_def)
  from add_action_ok [OF L add_action.IH add_action.hyps(2) this] show ?case .
next
  case (find_action d s t cid r' d')
  then have "d' = snd (with_clients (em_get L client_entry cfg t cid) d)"
    by (auto simp: get_awaited_action_by_id_def split_beta Let_def split: option.splits)
  then have "db_look x d' = db_look x d" for x by (simp add: db_look_def)
  with db_ok_get [OF L, of "[]" d cfg t cid] find_action show ?case
    by (intro sched_ok_fewer [OF find_action.IH]) (simp_all add: sched_ok_def)
next
  case (add_worker d s w t clock r'' s' d')
  then show ?case by (intro add_worker_ok [OF P add_worker.IH]) (simp_all add: sched_add_worker_def)
next
  case (update_action d s t clock wid oid u r'' s' d')
  from update_action_ok [OF P update_action.IH update_action.hyps(2) [unfolded sched_update_action_def]] show ?case ..
next
  case (remove_worker d s t clock wid r'' s' d')
  from evict_ok [OF P remove_worker.IH remove_worker.hyps(2) [unfolded sched_remove_worker_def remove_worker_def]]
  show ?case ..
next
  case (remove_timedout d s t clock now_s r'' s' d')
  from evict_all_ok [OF P remove_timedout.IH
      remove_timedout.hyps(2) [unfolded sched_remove_timedout_workers_def remove_timedout_workers_def]]
  show ?case .
next
  case (drain_worker d s wid b r'' s')
  then show ?case by (intro set_drain_ok [OF P drain_worker.IH])
next
  case (keep_alive d s wid ts r'' s')
  then show ?case by (intro refresh_ok [OF P keep_alive.IH])
next
  case (forward_keep_alives d s t clock s' d')
  have "sched_ok L P d (s\<lparr>keep_alive_queue := drop 256 (keep_alive_queue s)\<rparr>)"
    using forward_keep_alives.IH by (intro sched_ok_pool [OF forward_keep_alives.IH])
      (simp_all add: sched_ok_def ids_ok_def pool_def running_on_def fun_eq_iff)
  from keep_alives_ok [OF this] forward_keep_alives.hyps(2) show ?case by (auto simp: keep_alive_batch_def)
next
  case (try_match d s t clock fuel d' s' r'')
  from do_try_match_ok [OF P try_match.IH try_match.hyps(3), of X cfg t sc clock] try_match.hyps(2) show ?case by auto
next
  case (list_action d s oid a t now f b d')
  from list_action.IH have "db_ok L [] d" by (simp add: sched_ok_def)
  from mem.predicate_effect [OF this list_action.hyps(2), of cfg t "sc_state_manager sc" now f] list_action.hyps(3)
  have "db_ok L [] d'" "\<forall>x. db_look x d' = (if x = oid then Some (seen (sc_state_manager sc) now a) else db_look x d)"
    by auto
  from seen_ok [OF list_action.IH list_action.hyps(2) this] show ?case by simp
next
  case (time_out d s t clock elapsed oid r'' d')
  then show ?case by (intro timeout_ok [OF time_out.IH])
next
  case (events d s t)
  then show ?case
    by (intro sched_ok_fewer [OF events.IH] db_ok_cycle [OF L]) (auto simp: sched_ok_def dest: cycle_look)
next
  case (client_keep_alive d s cid)
  let ?d = "d\<lparr>action_events := action_events d @ [ClientKeepAlive cid]\<rparr>"
  have "db_ok L [] ?d" using client_keep_alive.IH tables_cong [of ?d d]
    by (simp add: sched_ok_def db_ok_def client_count_def live_clients_def)
  then show ?case by (intro sched_ok_fewer [OF client_keep_alive.IH]) (simp_all add: db_look_def)
qed

section \<open>Properties\<close>


text \<open>
  C2. A run of the matching engine ends. From every state the scheduler can come to, \<open>do_try_match\<close> goes
  through the queue in a number of chunks bounded by the number of operations, and no call panics on
  the way: no lookup meets an operation without its entry, and reserving a worker's properties finds
  each of them. The operations of the database are the same afterwards.
\<close>

theorem do_try_match_ends:
  assumes "lru_cache L" and "lru_cache P" and "sched_reach X L P cfg sc d s"
    and "length (operation_id_to_awaited_action d) < fuel"
  shows "\<exists>d' s' r. do_try_match X P (memory_db L cfg t) sc clock quiet fuel d s = Some (Continue (d', s', r))
    \<and> (\<forall>oid. db_look oid d' = None \<longleftrightarrow> db_look oid d = None)"
proof -
  from do_try_match_ok [OF assms(2) sched_reach_ok [OF assms(1-3)] assms(4)] obtain d' s' r where
    run: "do_try_match X P (memory_db L cfg t) sc clock quiet fuel d s = Some (Continue (d', s', r))"
    and same: "universe d' = universe d" by blast
  have known: "db_look oid e = None \<longleftrightarrow> (\<forall>k. SortedAA k oid \<notin> universe e)" for oid and e :: "'a adb"
    by (auto simp: universe_def)
  show ?thesis using run same by (simp add: known)
qed

text \<open>A worker without properties, alone in the pool, and the same worker with the queued action.\<close>

definition idle_worker :: worker where
  "idle_worker = worker_new (WorkerId 3) [] \<lparr>tx_open = True, tx_sent = []\<rparr> 0"

definition sample_sched :: scheduler_config where
  "sample_sched = \<lparr>sc_known_properties = Map.empty, sc_allocation_strategy = Least_recently_used,
     sc_worker_timeout_s = 5, sc_state_manager = sample_sm\<rparr>"

definition idle_pool :: "(worker_id \<times> worker) list api_sched" where
  "idle_pool = (api_sched_new list_lru)\<lparr>
     workers := [(WorkerId 3, snd (send_initial_connection_result ref_ext idle_worker))], change_permit := True\<rparr>"

abbreviation sample_reach ::
  "(operation_id \<times> operation_id eviction_item) list adb \<Rightarrow> (worker_id \<times> worker) list api_sched \<Rightarrow> bool" where
  "sample_reach \<equiv> sched_reach ref_ext list_lru list_lru no_limits sample_sched"

lemma idle_pool_reach: "sample_reach sample_db idle_pool"
proof -
  have "db_look (Op_Uuid 1) (adb_new list_lru) = None" by (simp add: db_look_def adb_new_def)
  from sched_reach.add_action [OF sched_reach.new this, of no_limits 0 0 "Op_String ''c1''" sample_info] sample_db_add
  have "sample_reach sample_db (api_sched_new list_lru)"
    by (auto simp: sched_add_action_def inner_add_operation_def memory_db_def)
  from sched_reach.add_worker [OF this, of idle_worker 0 "\<lambda>_. 9"] show ?thesis
    by (simp add: pool_def list_lru_def api_sched_new_def idle_worker_def worker_new_def sched_add_worker_def add_worker_def
        inner_add_worker_def send_initial_connection_result_def send_msg_to_worker_def idle_pool_def write_key_def
        drop_key_def)
qed


lemma sample_match:
  "\<exists>s'. do_try_match ref_ext list_lru (memory_db list_lru no_limits 0) sample_sched (\<lambda>_. 9) quiet 2 sample_db idle_pool
     = Some (Continue (running_db, s', Ok ()))"
proof -
  let ?D = "memory_db list_lru no_limits 0" and ?x = "SortedAA (aa_sort_key sample_action) (Op_Uuid 1)"
  let ?f = queued_operations_filter
  let ?upd = "inner_update_operation ref_ext ?D sample_sm (\<lambda>_. 9) quiet (Op_Uuid 1) (Some (WorkerId 3)) (UpdateWithActionStage Executing)"
  have ok: "db_ok list_lru [] sample_db" "tables_ok sample_db" "tables_ok running_db"
    using sample_db_ok running_db_look(1) by (simp_all add: db_ok_def)
  have upd: "?upd sample_db = (Ok (), running_db)" and same: "universe running_db = {?x}"
  proof -
    from mem.quiet_update(3) [OF sample_db_ok sample_db_look sample_action_free(1), of ref_ext no_limits 0 sample_sm "\<lambda>_. 9"
        "Some (WorkerId 3)" "UpdateWithActionStage Executing"]
    show upd: "?upd sample_db = (Ok (), running_db)" by (auto simp: running_db_def)
    have "self_named sample_db" using sched_reach_ok [OF ll.lru_cache_axioms ll.lru_cache_axioms idle_pool_reach]
      by (simp add: sched_ok_def)
    from quiet_step [OF sample_db_ok this, of running_db] upd have "universe running_db = universe sample_db" by (metis snd_conv)
    then show "universe running_db = {?x}" by (auto simp: universe_def sample_db_add db_look_def split: if_splits)
  qed
  have "expected_set sample_db (stage_bucket Sorted_Queued) = {?x}"
    using sample_action_fields by (auto simp: expected_set_def sample_db_add split: if_splits)
  then have chunk1: "range_of_actions_chunk Sorted_Queued True Unbounded Unbounded sample_db
      = Some (Ok (Some ((Unbounded, Excluded ?x), [sub_of ?x])))"
    using range_chunk_eq [OF ok(2), of Unbounded Unbounded Sorted_Queued True] by (simp add: entries_between_def)
  have "entries_between (expected_set running_db 2) Unbounded (Excluded ?x) = []"
    using expected_universe [of running_db 2] finite_expected_set [of running_db 2] by (auto simp: entries_between_def same)
  then have chunk2: "range_of_actions_chunk Sorted_Queued True Unbounded (Excluded ?x) running_db = Some (Ok None)"
    using range_chunk_eq [OF ok(3), of Unbounded "Excluded ?x" Sorted_Queued True] by simp
  have borrow: "adb_borrow ?D (sub_of ?x) sample_db = Ok sample_action"
    using sample_db_look by (simp add: memory_db_def sub_borrow_def sub_of_def db_look_def)
  have alive: "aa_last_client_keepalive_timestamp sample_action = 0" "client_operation_id (aa_state sample_action) = Op_Uuid 1"
    by (simp_all add: sample_action_def awaited_action_new_def sort_key_new_with_unique_key_def duration_since_def sample_info_def)
  have keep: "apply_filter_predicate ?D sample_sm 9 ?f sample_action sample_db = (True, sample_db)"
    using alive sample_action_fields
    by (simp add: apply_filter_predicate_def filter_matches_def queued_operations_filter_def operation_filter_default_def
        flag_queued_def sample_sm_def)
  have find: "inner_find_worker_for_action list_lru Least_recently_used [] idle_pool = Some (WorkerId 3)"
    by (simp add: inner_find_worker_for_action_def idle_pool_def list_lru_def idle_worker_def worker_new_def
        send_initial_connection_result_def send_msg_to_worker_def worker_fits_def can_accept_work_def)
  obtain s' where match: "match_action_to_worker ref_ext list_lru ?D sample_sched (\<lambda>_. 9) quiet (Ok (sub_of ?x)) sample_db idle_pool
      = Some (Ok (), running_db, s')"
    using borrow alive(2) upd find sample_action_fields(3)
    by (simp add: match_action_to_worker_def as_action_info_def as_state_def sample_sched_def sample_info_def
        make_platform_properties_def assign_operation_def worker_notify_run_action_def idle_pool_def list_lru_def
        notify_update_def run_action_def idle_worker_def worker_new_def send_initial_connection_result_def
        send_msg_to_worker_def Let_def)
  show ?thesis
    using chunk1 chunk2 borrow keep match
    by (simp add: do_try_match_def inner_filter_operations_def queued_operations_filter_def operation_filter_default_def
        sorted_awaited_action_state_for_flags_def flag_queued_def flag_cache_check_def memory_db_def numeral_2_eq_2
        filter_item_def match_body_def sample_sched_def)
qed


theorem do_try_match_ends_witness:
  "\<exists>d' s' r. do_try_match ref_ext list_lru (memory_db list_lru no_limits 0) sample_sched (\<lambda>_. 9) quiet 2 sample_db idle_pool
     = Some (Continue (d', s', r)) \<and> db_look (Op_Uuid 1) d' \<noteq> None"
proof -
  from do_try_match_ends [OF ll.lru_cache_axioms ll.lru_cache_axioms idle_pool_reach sample_db_length] obtain d' s' r where
    "do_try_match ref_ext list_lru (memory_db list_lru no_limits 0) sample_sched (\<lambda>_. 9) quiet 2 sample_db idle_pool
       = Some (Continue (d', s', r))" "db_look (Op_Uuid 1) d' = None \<longleftrightarrow> db_look (Op_Uuid 1) sample_db = None" by blast
  with sample_db_look show ?thesis by auto
qed

end
