(* ===== verification/Resource_Info.thy ===== *)
theory Resource_Info
  imports NL_Error Rust_Std
begin

text \<open>
  \<open>ResourceInfo\<close> (nativelink-util/src/resource_info.rs): the names of blobs in the byte-stream service,
  \<open>{instance_name/}{uploads/{uuid}/}blobs/{digest_function/}{hash}/{size}{/metadata}\<close> and the form with
  \<open>compressed-blobs/{compressor}\<close>. The parser walks backwards over the parts until it meets the word
  \<open>blobs\<close> and fills the fields on its way back. Indexing a string out of range is a panic.
\<close>

section \<open>Splitting from the end\<close>

text \<open>\<open>str::rsplitn\<close>: at most \<open>n\<close> parts, the last of them the unsplit rest.\<close>

definition rsplit_once :: "char \<Rightarrow> string \<Rightarrow> (string \<times> string) option" where
  "rsplit_once sep s =
     map_option (\<lambda>(b, a). (rev a, rev b)) (split_once sep (rev s))"

fun rsplitn :: "nat \<Rightarrow> char \<Rightarrow> string \<Rightarrow> string list" where
  "rsplitn 0 sep s = []"
| "rsplitn (Suc 0) sep s = [s]"
| "rsplitn (Suc (Suc n)) sep s =
     (case rsplit_once sep s of None \<Rightarrow> [s] | Some (a, b) \<Rightarrow> b # rsplitn (Suc n) sep a)"

section \<open>The parser\<close>

record resource_info =
  ri_instance_name :: string
  ri_uuid :: "string option"
  ri_compressor :: "string option"
  ri_digest_function :: "string option"
  ri_hash :: string
  ri_size :: string
  ri_expected_size :: u64
  ri_optional_metadata :: "string option"

definition resource_info_default :: resource_info where
  "resource_info_default =
     \<lparr>ri_instance_name = [], ri_uuid = None, ri_compressor = None, ri_digest_function = None, ri_hash = [],
      ri_size = [], ri_expected_size = 0, ri_optional_metadata = None\<rparr>"

definition error_msg :: string where
  "error_msg = ''Expected resource_name to be of pattern ''
     @ ''{?instance_name/}(?uploads/{uuid}/)blobs/{?/digest_function}{/hash}/{size}{?/optional_metadata} or ''
     @ ''{?instance_name/}(?uploads/{uuid}/)compressed-blobs{?/compressor}{?/digest_function}{/hash}/{size}{?/optional_metadata}''"

definition compressors :: "string list" where
  "compressors = [''identity'', ''zstd'', ''deflate'', ''brotli'']"

definition digest_functions :: "string list" where
  "digest_functions =
     [''sha256'', ''sha1'', ''md5'', ''vso'', ''sha384'', ''sha512'', ''murmur3'', ''sha256tree'', ''blake3'']"

definition slash_size :: nat where
  "slash_size = 1"

datatype parse_state = PS_Unknown | PS_Compressor | PS_DigestFunction | PS_Hash | PS_Size | PS_OptionalMetadata

text \<open>The loop of \<open>recursive_parse\<close>: the digest function is optional, so its state can fall through to the hash.\<close>

function parse_part :: "string \<Rightarrow> parse_state \<Rightarrow> resource_info \<Rightarrow> nat \<Rightarrow> (parse_state \<times> resource_info \<times> nat) result" where
  "parse_part part PS_Unknown out n =
     Err (make_input_err ''Unknown state should never be reached in ResourceInfo::new'')"
| "parse_part part PS_Compressor out n =
     (if part \<in> set compressors
      then Ok (PS_DigestFunction, out\<lparr>ri_compressor := Some part\<rparr>, n + (length part + slash_size))
      else Err (make_input_err ''Expected compressor''))"
| "parse_part part PS_DigestFunction out n =
     (if part \<in> set digest_functions
      then Ok (PS_Hash, out\<lparr>ri_digest_function := Some part\<rparr>, n + (length part + slash_size))
      else parse_part part PS_Hash out n)"
| "parse_part part PS_Hash out n = Ok (PS_Size, out\<lparr>ri_hash := part\<rparr>, n + (length part + slash_size))"
| "parse_part part PS_Size out n =
     (case parse_u64 part of
        None \<Rightarrow> Err (make_input_err ''Digest size_bytes was not convertible to usize'')
      | Some v \<Rightarrow> Ok (PS_OptionalMetadata, out\<lparr>ri_size := part, ri_expected_size := v\<rparr>, n + length part))"
| "parse_part part PS_OptionalMetadata out n =
     Ok (PS_OptionalMetadata, out\<lparr>ri_optional_metadata := Some part\<rparr>, n + (length part + slash_size))"
  by pat_completeness auto

termination
  by (relation "measure (\<lambda>(part, st, out, n). if st = PS_DigestFunction then 1 else 0)") auto

fun recursive_parse ::
  "string list \<Rightarrow> resource_info \<Rightarrow> parse_state \<Rightarrow> nat \<Rightarrow> (parse_state \<times> resource_info \<times> nat) result" where
  "recursive_parse [] out state n = opt_err_tip ''on rparts.next()'' None"
| "recursive_parse (part # rparts) out state n =
     (if state = PS_Unknown
      then if part = ''blobs'' then Ok (PS_DigestFunction, out, length part + slash_size)
           else if part = ''compressed-blobs'' then Ok (PS_Compressor, out, length part + slash_size)
           else try_bind (recursive_parse rparts out state n) (\<lambda>(state', out', n'). parse_part part state' out' n')
      else parse_part part state out n)"

text \<open>The \<open>uploads\<close> section in front of the blob.\<close>

definition parse_uploads :: "string \<Rightarrow> resource_info \<Rightarrow> resource_info result" where
  "parse_uploads beginning_part out =
     (case rsplitn 3 (CHR ''/'') beginning_part of
        [] \<Rightarrow> opt_err_tip error_msg None
      | [uuid] \<Rightarrow> opt_err_tip error_msg None
      | uuid # uploads # rest \<Rightarrow>
          if uploads \<noteq> ''uploads''
          then Err (make_err InvalidArgument ''Expected part to be uploads'')
          else Ok (case rest of
                     [] \<Rightarrow> out\<lparr>ri_uuid := Some uuid\<rparr>
                   | instance_name # _ \<Rightarrow> out\<lparr>ri_uuid := Some uuid, ri_instance_name := instance_name\<rparr>))"

definition resource_info_new :: "string \<Rightarrow> bool \<Rightarrow> resource_info result option" where
  "resource_info_new resource_name is_upload =
     (case err_tip error_msg
             (recursive_parse (rsplitn 7 (CHR ''/'') resource_name) resource_info_default PS_Unknown 0) of
        Inl e \<Rightarrow> Some (Err e)
      | Inr (end_state, output, end_bytes_processed) \<Rightarrow>
          if end_state \<noteq> PS_OptionalMetadata
          then Some (Err (make_err InvalidArgument ''Expected the final state to be OptionalMetadata''))
          else if end_bytes_processed \<noteq> length resource_name \<and> length resource_name < end_bytes_processed + slash_size
          then None
          else let beginning_part =
                 (if end_bytes_processed = length resource_name then []
                  else take (length resource_name - end_bytes_processed - slash_size) resource_name)
               in Some (if \<not> is_upload then Ok (output\<lparr>ri_instance_name := beginning_part\<rparr>)
                        else parse_uploads beginning_part output))"

definition resource_info_to_string :: "resource_info \<Rightarrow> bool \<Rightarrow> string" where
  "resource_info_to_string r is_upload =
     join ''/''
       (filter (\<lambda>part. part \<noteq> [])
          (List.map_filter id
             [Some (ri_instance_name r),
              if is_upload then Some ''uploads'' else None,
              ri_uuid r,
              Some (case ri_compressor r of None \<Rightarrow> ''blobs'' | Some _ \<Rightarrow> ''compressed-blobs''),
              ri_compressor r,
              ri_digest_function r,
              Some (ri_hash r),
              Some (ri_size r),
              ri_optional_metadata r]))"

section \<open>Joining and splitting\<close>

lemma rsplit_once_fresh: "sep \<notin> set b \<Longrightarrow> rsplit_once sep (a @ sep # b) = Some (a, b)"
  by (simp add: rsplit_once_def split_once_fresh)

lemma rsplit_once_Some: "rsplit_once sep s = Some (a, b) \<Longrightarrow> s = a @ sep # b \<and> sep \<notin> set b"
  by (auto simp: rsplit_once_def dest!: split_once_Some) (metis append_assoc append_Cons append_Nil rev_append rev_rev_ident rev.simps(2))

lemma rsplit_once_None: "rsplit_once sep s = None \<longleftrightarrow> sep \<notin> set s"
  by (simp add: rsplit_once_def split_once_None)

lemma join_snoc: "xs \<noteq> [] \<Longrightarrow> join sep (xs @ [x]) = join sep xs @ sep @ x"
  by (induction sep xs rule: join.induct) auto

lemma join_append: "xs \<noteq> [] \<Longrightarrow> ys \<noteq> [] \<Longrightarrow> join sep (xs @ ys) = join sep xs @ sep @ join sep ys"
  by (induction sep xs rule: join.induct) (auto simp: neq_Nil_conv)

text \<open>The parts of a split are the split string, backwards.\<close>

lemma join_rsplitn: "0 < n \<Longrightarrow> rsplitn n sep s \<noteq> [] \<and> join [sep] (rev (rsplitn n sep s)) = s"
proof (induction n sep s rule: rsplitn.induct)
  case (3 n sep s)
  then show ?case by (auto split: option.split simp: join_snoc dest: rsplit_once_Some)
qed simp_all

lemma rsplitn_join:
  assumes "\<forall>x \<in> set xs. sep \<notin> set x" and "xs \<noteq> []" and "length xs \<le> n"
  shows "rsplitn n sep (join [sep] xs) = rev xs"
  using assms
proof (induction xs arbitrary: n rule: rev_induct)
  case (snoc x xs)
  show ?case
  proof (cases "xs = []")
    case True
    with snoc.prems show ?thesis by (cases "(n, sep, x)" rule: rsplitn.cases) (auto simp: rsplit_once_None [THEN iffD2])
  next
    case False
    then obtain m where n: "n = Suc (Suc m)" using snoc.prems(3) by (cases n; cases "n - 1") (auto simp: neq_Nil_conv)
    have "rsplitn (Suc m) sep (join [sep] xs) = rev xs" using snoc False by (simp add: n)
    with snoc.prems(1) False show ?thesis by (simp add: n join_snoc rsplit_once_fresh)
  qed
qed simp

lemma rsplitn_prefix:
  assumes "\<forall>x \<in> set xs. sep \<notin> set x" and "xs \<noteq> []" and "length xs < n"
  shows "rsplitn n sep (pre @ sep # join [sep] xs) = rev xs @ rsplitn (n - length xs) sep pre"
  using assms
proof (induction xs arbitrary: n rule: rev_induct)
  case (snoc x xs)
  then obtain m where n: "n = Suc (Suc m)" by (cases n; cases "n - 1") auto
  show ?case
  proof (cases "xs = []")
    case True
    with snoc.prems show ?thesis by (simp add: n rsplit_once_fresh)
  next
    case False
    have "rsplitn (Suc m) sep (pre @ sep # join [sep] xs) = rev xs @ rsplitn (Suc m - length xs) sep pre"
      using snoc False by (simp add: n)
    moreover have "pre @ sep # join [sep] (xs @ [x]) = (pre @ sep # join [sep] xs) @ sep # x"
      using False by (simp add: join_snoc)
    ultimately show ?thesis using snoc.prems(1) by (simp add: n rsplit_once_fresh del: append_assoc append_Cons)
  qed
qed simp

section \<open>Runs of the parser\<close>

text \<open>The way back, from the word \<open>blobs\<close> to the end of the name.\<close>

fun parse_parts :: "string list \<Rightarrow> parse_state \<times> resource_info \<times> nat \<Rightarrow> (parse_state \<times> resource_info \<times> nat) result" where
  "parse_parts [] cur = Ok cur"
| "parse_parts (x # xs) (st, out, n) = try_bind (parse_part x st out n) (parse_parts xs)"

definition blob_word :: "string \<Rightarrow> bool" where
  "blob_word part \<longleftrightarrow> part = ''blobs'' \<or> part = ''compressed-blobs''"

definition after_word :: "string \<Rightarrow> resource_info \<Rightarrow> parse_state \<times> resource_info \<times> nat" where
  "after_word word out = (if word = ''blobs'' then PS_DigestFunction else PS_Compressor, out, length word + 1)"

lemma parse_parts_snoc:
  "parse_parts (xs @ [x]) cur = try_bind (parse_parts xs cur) (\<lambda>(st, out, n). parse_part x st out n)"
proof (induction xs arbitrary: cur)
  case Nil
  then show ?case by (cases cur; cases "parse_part x (fst cur) (fst (snd cur)) (snd (snd cur))") auto
next
  case (Cons y ys)
  obtain st out n where "cur = (st, out, n)" by (cases cur)
  then show ?case using Cons by (cases "parse_part y st out n") simp_all
qed

lemma recursive_parse_forward:
  assumes "blob_word word" and "\<forall>x \<in> set xs. \<not> blob_word x"
  shows "recursive_parse (rev xs @ word # rest) out PS_Unknown n = parse_parts xs (after_word word out)"
  using assms(2)
proof (induction xs rule: rev_induct)
  case Nil
  then show ?case using assms(1) by (auto simp: blob_word_def after_word_def slash_size_def)
next
  case (snoc x xs)
  then show ?case by (simp add: parse_parts_snoc) (auto simp: blob_word_def)
qed

lemma recursive_parse_Ok:
  "recursive_parse parts out PS_Unknown n = Ok cur \<Longrightarrow>
     \<exists>xs word rest. parts = rev xs @ word # rest \<and> blob_word word \<and> parse_parts xs (after_word word out) = Ok cur"
proof (induction parts arbitrary: cur)
  case Nil
  then show ?case by simp
next
  case (Cons part parts)
  show ?case
  proof (cases "blob_word part")
    case True
    with Cons.prems have "parse_parts [] (after_word part out) = Ok cur"
      by (auto simp: blob_word_def after_word_def slash_size_def split: if_splits)
    with True show ?thesis by (metis append_Nil rev.simps(1))
  next
    case False
    with Cons.prems obtain st out' n' where
      "recursive_parse parts out PS_Unknown n = Ok (st, out', n')" and last: "parse_part part st out' n' = Ok cur"
      by (auto simp: blob_word_def try_bind_Ok_iff split: if_splits)
    with Cons.IH obtain xs word rest where
      "parts = rev xs @ word # rest" "blob_word word" "parse_parts xs (after_word word out) = Ok (st, out', n')" by blast
    with last have "part # parts = rev (xs @ [part]) @ word # rest \<and> blob_word word
        \<and> parse_parts (xs @ [part]) (after_word word out) = Ok cur"
      by (simp add: parse_parts_snoc)
    then show ?thesis by blast
  qed
qed

text \<open>What a name consists of, from the word on; all but the last part after the size are dropped.\<close>

definition opt_part :: "string option \<Rightarrow> string list" where
  "opt_part p = (case p of None \<Rightarrow> [] | Some x \<Rightarrow> [x])"

lemma opt_part_simps [simp]: "opt_part None = []" "opt_part (Some x) = [x]"
  by (simp_all add: opt_part_def)

definition blob_parts :: "resource_info \<Rightarrow> string list \<Rightarrow> string list" where
  "blob_parts r dropped =
     (case ri_compressor r of None \<Rightarrow> [''blobs''] | Some c \<Rightarrow> [''compressed-blobs'', c])
     @ opt_part (ri_digest_function r) @ [ri_hash r, ri_size r]
     @ (case ri_optional_metadata r of None \<Rightarrow> [] | Some m \<Rightarrow> dropped @ [m])"

definition total :: "string list \<Rightarrow> nat" where
  "total xs = sum_list (map (\<lambda>x. length x + 1) xs)"

lemma total_simps [simp]: "total [] = 0" "total (x # xs) = length x + 1 + total xs" "total (xs @ ys) = total xs + total ys"
  by (simp_all add: total_def)

lemma length_join: "length (join ''/'' (x # xs)) = length x + total xs"
  by (induction xs arbitrary: x) simp_all

lemma parts_metadata:
  "parse_parts xs (PS_OptionalMetadata, out, n) = Ok (st, r, n') \<Longrightarrow>
     st = PS_OptionalMetadata \<and> n' = n + total xs
     \<and> r = (if xs = [] then out else out\<lparr>ri_optional_metadata := Some (last xs)\<rparr>)"
proof (induction xs arbitrary: out n)
  case (Cons x xs)
  from Cons.IH [of "out\<lparr>ri_optional_metadata := Some x\<rparr>" "n + (length x + slash_size)"] Cons.prems
  show ?case by (auto simp: slash_size_def)
qed auto

text \<open>A run from each of the other states that ends in the final one.\<close>

definition metadata_parts :: "resource_info \<Rightarrow> string list \<Rightarrow> string list" where
  "metadata_parts r dropped = (case ri_optional_metadata r of None \<Rightarrow> [] | Some m \<Rightarrow> dropped @ [m])"

definition same_head :: "resource_info \<Rightarrow> resource_info \<Rightarrow> bool" where
  "same_head r out \<longleftrightarrow> ri_instance_name r = ri_instance_name out \<and> ri_uuid r = ri_uuid out \<and> ri_compressor r = ri_compressor out"

lemma parts_size:
  assumes "parse_parts xs (PS_Size, out, n) = Ok (PS_OptionalMetadata, r, n')" and "ri_optional_metadata out = None"
  shows "\<exists>dropped. xs = ri_size r # metadata_parts r dropped \<and> n' + 1 = n + total xs
    \<and> parse_u64 (ri_size r) = Some (ri_expected_size r) \<and> same_head r out
    \<and> ri_digest_function r = ri_digest_function out \<and> ri_hash r = ri_hash out"
proof -
  from assms(1) obtain x ys v where x: "xs = x # ys" "parse_u64 x = Some v"
    and ys: "parse_parts ys (PS_OptionalMetadata, out\<lparr>ri_size := x, ri_expected_size := v\<rparr>, n + length x) = Ok (PS_OptionalMetadata, r, n')"
    by (cases xs) (auto split: option.splits)
  note parts_metadata [OF ys]
  then show ?thesis
    by (intro exI [of _ "butlast ys"]) (use x assms(2) in \<open>auto simp: metadata_parts_def same_head_def\<close>)
qed

lemma parts_hash:
  assumes "parse_parts xs (PS_Hash, out, n) = Ok (PS_OptionalMetadata, r, n')" and "ri_optional_metadata out = None"
  shows "\<exists>dropped. xs = ri_hash r # ri_size r # metadata_parts r dropped \<and> n' + 1 = n + total xs
    \<and> parse_u64 (ri_size r) = Some (ri_expected_size r) \<and> same_head r out \<and> ri_digest_function r = ri_digest_function out"
proof -
  from assms(1) obtain x ys where x: "xs = x # ys"
    and ys: "parse_parts ys (PS_Size, out\<lparr>ri_hash := x\<rparr>, n + (length x + 1)) = Ok (PS_OptionalMetadata, r, n')"
    by (cases xs) (auto simp: slash_size_def)
  from parts_size [OF ys] assms(2) obtain dropped where
    "ys = ri_size r # metadata_parts r dropped" "n' + 1 = n + (length x + 1) + total ys"
    "parse_u64 (ri_size r) = Some (ri_expected_size r)" "same_head r (out\<lparr>ri_hash := x\<rparr>)"
    "ri_digest_function r = ri_digest_function out" "ri_hash r = x" by auto
  then show ?thesis using x by (auto simp: same_head_def)
qed

lemma parts_digest_function:
  assumes "parse_parts xs (PS_DigestFunction, out, n) = Ok (PS_OptionalMetadata, r, n')"
    and "ri_optional_metadata out = None" and "ri_digest_function out = None"
  shows "\<exists>dropped. xs = opt_part (ri_digest_function r) @ ri_hash r # ri_size r # metadata_parts r dropped
    \<and> n' + 1 = n + total xs \<and> parse_u64 (ri_size r) = Some (ri_expected_size r) \<and> same_head r out"
proof -
  from assms(1) obtain x ys where x: "xs = x # ys" by (cases xs) auto
  show ?thesis
  proof (cases "x \<in> set digest_functions")
    case True
    let ?out = "out\<lparr>ri_digest_function := Some x\<rparr>"
    have "parse_parts ys (PS_Hash, ?out, n + (length x + 1)) = Ok (PS_OptionalMetadata, r, n')"
      using assms(1) x True by (simp add: slash_size_def)
    from parts_hash [OF this] assms(2) obtain dropped where
      "ys = ri_hash r # ri_size r # metadata_parts r dropped" "n' + 1 = n + (length x + 1) + total ys"
      "parse_u64 (ri_size r) = Some (ri_expected_size r)" "same_head r ?out" "ri_digest_function r = Some x" by auto
    then show ?thesis using x by (intro exI [of _ dropped]) (simp add: same_head_def)
  next
    case False
    then have "parse_parts xs (PS_Hash, out, n) = Ok (PS_OptionalMetadata, r, n')" using assms(1) x by simp
    from parts_hash [OF this assms(2)] assms(3) show ?thesis by auto
  qed
qed

lemma parts_blob:
  assumes "blob_word word" and "parse_parts xs (after_word word resource_info_default) = Ok (PS_OptionalMetadata, r, n)"
  shows "\<exists>dropped. word # xs = blob_parts r dropped \<and> n = length (join ''/'' (word # xs))
    \<and> parse_u64 (ri_size r) = Some (ri_expected_size r) \<and> ri_instance_name r = [] \<and> ri_uuid r = None"
proof (cases "word = ''blobs''")
  case True
  with assms(2) have "parse_parts xs (PS_DigestFunction, resource_info_default, length word + 1) = Ok (PS_OptionalMetadata, r, n)"
    by (simp add: after_word_def)
  from parts_digest_function [OF this] True show ?thesis
    by (auto simp: resource_info_default_def same_head_def blob_parts_def metadata_parts_def length_join)
next
  case False
  with assms obtain x ys where word: "word = ''compressed-blobs''" and x: "xs = x # ys" "x \<in> set compressors"
    and ys: "parse_parts ys (PS_DigestFunction, resource_info_default\<lparr>ri_compressor := Some x\<rparr>, length word + 1 + (length x + 1))
      = Ok (PS_OptionalMetadata, r, n)"
    by (cases xs) (auto simp: after_word_def blob_word_def slash_size_def split: if_splits)
  from parts_digest_function [OF ys] x word show ?thesis
    by (auto simp: resource_info_default_def same_head_def blob_parts_def metadata_parts_def length_join)
qed

lemma parse_digits_chars: "parse_digits acc s = Some v \<Longrightarrow> c \<in> set s \<Longrightarrow> char_digit c \<noteq> None"
  by (induction acc s rule: parse_digits.induct) (auto split: option.splits)

lemma parse_u64_chars:
  assumes "parse_u64 s = Some v"
  shows "s \<noteq> []" and "c \<in> set s \<Longrightarrow> c = CHR ''+'' \<or> char_digit c \<noteq> None"
  using assms parse_digits_chars [where c = c]
  by (auto simp: parse_u64_def parse_unsigned_def Let_def split: list.splits if_splits option.splits)

lemma parse_u64_part:
  assumes "parse_u64 s = Some v"
  shows "CHR ''/'' \<notin> set s" and "\<not> blob_word s"
proof -
  show "CHR ''/'' \<notin> set s" using parse_u64_chars(2) [OF assms] by (force simp: char_digit_def)
  have "CHR ''b'' \<notin> set s" using parse_u64_chars(2) [OF assms] by (force simp: char_digit_def)
  then show "\<not> blob_word s" by (auto simp: blob_word_def)
qed

lemma parse_uploads_Ok:
  assumes "parse_uploads b out = Ok r"
  shows "\<exists>uuid i pre. r = out\<lparr>ri_uuid := Some uuid, ri_instance_name := i\<rparr> \<and> b = pre @ ''uploads/'' @ uuid
    \<and> (pre = i @ ''/'' \<or> pre = [] \<and> i = ri_instance_name out)"
proof -
  from assms obtain uuid more where b: "rsplitn 3 (CHR ''/'') b = uuid # ''uploads'' # more"
    and r: "r = (case more of [] \<Rightarrow> out\<lparr>ri_uuid := Some uuid\<rparr>
      | instance_name # _ \<Rightarrow> out\<lparr>ri_uuid := Some uuid, ri_instance_name := instance_name\<rparr>)"
    by (auto simp: parse_uploads_def split: list.splits if_splits)
  then have "length more \<le> 1" by (auto simp: numeral_3_eq_3 split: option.splits)
  then consider "more = []" | i where "more = [i]" by (cases more) auto
  then show ?thesis
  proof cases
    case 1
    have "b = ''uploads/'' @ uuid" using join_rsplitn [of 3 "CHR ''/''" b] b 1 by simp
    with r 1 show ?thesis by (intro exI [of _ uuid] exI [of _ "ri_instance_name out"] exI [of _ "[]"]) simp
  next
    case 2
    have "b = i @ ''/uploads/'' @ uuid" using join_rsplitn [of 3 "CHR ''/''" b] b 2 by simp
    with r 2 show ?thesis by (intro exI [of _ uuid] exI [of _ i] exI [of _ "i @ ''/''"]) simp
  qed
qed

section \<open>Properties\<close>

text \<open>Names that can be written: parts without slashes that are not mistaken for another part.\<close>

definition plain_part :: "string \<Rightarrow> bool" where
  "plain_part p \<longleftrightarrow> p \<noteq> [] \<and> CHR ''/'' \<notin> set p \<and> \<not> blob_word p"

definition resource_ok :: "resource_info \<Rightarrow> bool \<Rightarrow> bool" where
  "resource_ok r is_upload \<longleftrightarrow>
     (case ri_uuid r of None \<Rightarrow> \<not> is_upload | Some uuid \<Rightarrow> is_upload \<and> uuid \<noteq> [] \<and> CHR ''/'' \<notin> set uuid)
     \<and> list_all (\<lambda>c. c \<in> set compressors) (opt_part (ri_compressor r))
     \<and> list_all (\<lambda>f. f \<in> set digest_functions) (opt_part (ri_digest_function r))
     \<and> plain_part (ri_hash r) \<and> ri_hash r \<notin> set digest_functions
     \<and> parse_u64 (ri_size r) = Some (ri_expected_size r)
     \<and> list_all plain_part (opt_part (ri_optional_metadata r))"

text \<open>The part of the name in front of the blob.\<close>

definition head_parts :: "resource_info \<Rightarrow> string list" where
  "head_parts r =
     (if ri_instance_name r = [] then [] else [ri_instance_name r])
     @ (case ri_uuid r of None \<Rightarrow> [] | Some uuid \<Rightarrow> [''uploads'', uuid])"

lemma known_plain: "x \<in> set compressors \<Longrightarrow> plain_part x" "x \<in> set digest_functions \<Longrightarrow> plain_part x"
  by (auto simp: compressors_def digest_functions_def plain_part_def blob_word_def)

lemma to_string_parts:
  assumes "resource_ok r u"
  shows "resource_info_to_string r u = join ''/'' (head_parts r @ blob_parts r [])"
proof -
  have size: "ri_size r \<noteq> []" using assms parse_u64_chars(1) by (auto simp: resource_ok_def)
  show ?thesis
    using assms size unfolding resource_info_to_string_def
    by (auto simp: map_filter_simps resource_ok_def head_parts_def blob_parts_def opt_part_def plain_part_def
        split: option.splits dest: known_plain intro!: arg_cong [where f = "join ''/''"])
qed

lemma blob_parts_run:
  assumes "resource_ok r u"
  obtains word xs where "blob_parts r [] = word # xs" "blob_word word" "\<forall>x \<in> set xs. \<not> blob_word x"
    "length (word # xs) < 7" "\<forall>x \<in> set (word # xs). CHR ''/'' \<notin> set x"
    "parse_parts xs (after_word word resource_info_default)
       = Ok (PS_OptionalMetadata, r\<lparr>ri_instance_name := [], ri_uuid := None\<rparr>, length (join ''/'' (word # xs)))"
proof -
  define word where "word = hd (blob_parts r [])"
  define xs where "xs = tl (blob_parts r [])"
  note size = parse_u64_part [of "ri_size r" "ri_expected_size r"]
  have parts: "blob_parts r [] = word # xs" by (simp add: word_def xs_def blob_parts_def split: option.split)
  have word: "blob_word word" "CHR ''/'' \<notin> set word" by (simp_all add: word_def blob_parts_def blob_word_def split: option.split)
  have plain: "\<forall>x \<in> set xs. \<not> blob_word x \<and> CHR ''/'' \<notin> set x"
    using assms size
    by (auto simp: xs_def blob_parts_def resource_ok_def opt_part_def plain_part_def split: option.splits dest!: known_plain)
  have len: "length (word # xs) < 7"
    by (simp flip: parts) (simp add: blob_parts_def opt_part_def split: option.split)
  have "parse_parts xs (after_word word resource_info_default)
      = Ok (PS_OptionalMetadata, r\<lparr>ri_instance_name := [], ri_uuid := None\<rparr>, length (join ''/'' (word # xs)))"
    using assms unfolding length_join
    by (cases r)
      (auto simp: word_def xs_def blob_parts_def after_word_def resource_ok_def opt_part_def slash_size_def
        resource_info_default_def split: option.splits)
  with that [OF parts word(1) _ len] plain word(2) show thesis by simp
qed

text \<open>
  C23. Names survive the round trip. Writing a resource with or without the upload prefix and parsing
  the name gives the same resource back, for every instance name, slashes and reserved words
  included, every known compressor and digest function, and every plain hash, size and metadata.
\<close>

theorem resource_info_roundtrip:
  assumes "resource_ok r is_upload"
  shows "resource_info_new (resource_info_to_string r is_upload) is_upload = Some (Ok r)"
proof -
  let ?name = "resource_info_to_string r is_upload" and ?head = "join ''/'' (head_parts r)"
  from blob_parts_run [OF assms] obtain word xs where parts: "blob_parts r [] = word # xs" "blob_word word"
    "\<forall>x \<in> set xs. \<not> blob_word x" "length (word # xs) < 7" "\<forall>x \<in> set (word # xs). CHR ''/'' \<notin> set x"
    and run: "parse_parts xs (after_word word resource_info_default)
       = Ok (PS_OptionalMetadata, r\<lparr>ri_instance_name := [], ri_uuid := None\<rparr>, length (join ''/'' (word # xs)))"
    by blast
  let ?blob = "join ''/'' (word # xs)"
  have name: "?name = (if head_parts r = [] then ?blob else ?head @ ''/'' @ ?blob)"
    using parts(1) by (auto simp: to_string_parts [OF assms] join_append)
  have "rsplitn 7 (CHR ''/'') ?name
      = rev (word # xs) @ (if head_parts r = [] then [] else rsplitn (7 - length (word # xs)) (CHR ''/'') ?head)"
    using rsplitn_join [OF parts(5), of 7] rsplitn_prefix [OF parts(5), of 7 ?head] parts(4) by (auto simp: name)
  then have "recursive_parse (rsplitn 7 (CHR ''/'') ?name) resource_info_default PS_Unknown 0
      = Ok (PS_OptionalMetadata, r\<lparr>ri_instance_name := [], ri_uuid := None\<rparr>, length ?blob)"
    using recursive_parse_forward [OF parts(2,3)] run by simp
  then have new: "resource_info_new ?name is_upload
      = (let out = r\<lparr>ri_instance_name := [], ri_uuid := None\<rparr>
         in Some (if \<not> is_upload then Ok (out\<lparr>ri_instance_name := ?head\<rparr>) else parse_uploads ?head out))"
    by (simp add: resource_info_new_def name slash_size_def Let_def)
  show ?thesis
  proof (cases "ri_uuid r")
    case None
    with assms new show ?thesis by (cases r) (auto simp: resource_ok_def head_parts_def)
  next
    case (Some uuid)
    then have ok: "is_upload" "uuid \<noteq> []" "CHR ''/'' \<notin> set uuid" using assms by (auto simp: resource_ok_def)
    then have "\<forall>x \<in> set [''uploads'', uuid]. CHR ''/'' \<notin> set x" by simp
    from rsplitn_join [OF this, of 3] rsplitn_prefix [OF this, of 3 "ri_instance_name r"]
    have "rsplitn 3 (CHR ''/'') ?head
        = uuid # ''uploads'' # (if ri_instance_name r = [] then [] else [ri_instance_name r])"
      using Some by (simp add: head_parts_def)
    with Some ok(1) new show ?thesis by (cases r) (auto simp: parse_uploads_def)
  qed
qed

definition sample_resource :: resource_info where
  "sample_resource =
     \<lparr>ri_instance_name = ''a/blobs'', ri_uuid = Some ''u1'', ri_compressor = Some ''zstd'', ri_digest_function = Some ''sha256'',
      ri_hash = ''ab12'', ri_size = ''35'', ri_expected_size = 35, ri_optional_metadata = Some ''m''\<rparr>"

theorem resource_info_roundtrip_witness:
  "resource_info_new ''a/blobs/uploads/u1/compressed-blobs/zstd/sha256/ab12/35/m'' True = Some (Ok sample_resource)"
proof -
  have "resource_ok sample_resource True"
    by (simp add: resource_ok_def sample_resource_def compressors_def digest_functions_def plain_part_def blob_word_def
        parse_u64_def parse_unsigned_def char_digit_def)
  from resource_info_roundtrip [OF this] show ?thesis
    by (simp add: resource_info_to_string_def sample_resource_def map_filter_simps)
qed

text \<open>
  C24. What a name is read as. No name makes the parser panic: the bytes it has counted never reach
  beyond the name. A name it accepts is the instance name (which may be absent), the upload prefix
  exactly when one was asked for, and the parts of the blob, with the fields in their places; a
  metadata part replaces the ones before it.
\<close>

theorem resource_info_new_sound:
  "case resource_info_new name is_upload of
     None \<Rightarrow> False
   | Some (Inl e) \<Rightarrow> True
   | Some (Inr r) \<Rightarrow>
       (\<exists>pre dropped.
          (pre = ri_instance_name r @ ''/'' \<or> pre = [] \<and> ri_instance_name r = [])
          \<and> name = pre @ join ''/'' ((case ri_uuid r of None \<Rightarrow> [] | Some uuid \<Rightarrow> [''uploads'', uuid]) @ blob_parts r dropped)
          \<and> (is_upload \<longleftrightarrow> (\<exists>uuid. ri_uuid r = Some uuid))
          \<and> parse_u64 (ri_size r) = Some (ri_expected_size r))"
proof (cases "recursive_parse (rsplitn 7 (CHR ''/'') name) resource_info_default PS_Unknown 0")
  case (Inl e)
  then show ?thesis by (simp add: resource_info_new_def)
next
  case (Inr cur)
  obtain st out n where cur: "cur = (st, out, n)" by (cases cur)
  show ?thesis
  proof (cases "st = PS_OptionalMetadata")
    case False
    with Inr cur show ?thesis by (simp add: resource_info_new_def)
  next
    case True
    from recursive_parse_Ok [OF Inr] cur True obtain xs word rest where
      split: "rsplitn 7 (CHR ''/'') name = rev xs @ word # rest" and word: "blob_word word"
      and run: "parse_parts xs (after_word word resource_info_default) = Ok (PS_OptionalMetadata, out, n)" by auto
    from parts_blob [OF word run] obtain dropped where
      out: "word # xs = blob_parts out dropped" "parse_u64 (ri_size out) = Some (ri_expected_size out)"
      "ri_instance_name out = []" "ri_uuid out = None" and n: "n = length (join ''/'' (word # xs))" by blast
    define head where "head = join ''/'' (rev rest)"
    have name: "name = (if rest = [] then join ''/'' (word # xs) else head @ ''/'' @ join ''/'' (word # xs))"
      using join_rsplitn [of 7 "CHR ''/''" name] split join_append [of "rev rest" "word # xs" "''/''"]
      by (cases "rest = []") (simp_all add: head_def)
    have blob: "blob_parts (out\<lparr>ri_instance_name := i, ri_uuid := u\<rparr>) dropped = blob_parts out dropped" for i u
      by (simp add: blob_parts_def)
    have new: "resource_info_new name is_upload = Some (let b = (if rest = [] then [] else head) in
        if \<not> is_upload then Ok (out\<lparr>ri_instance_name := b\<rparr>) else parse_uploads b out)"
      using Inr cur True name n by (simp add: resource_info_new_def slash_size_def Let_def)
    show ?thesis
    proof (cases is_upload)
      case False
      then have "resource_info_new name is_upload = Some (Ok (out\<lparr>ri_instance_name := if rest = [] then [] else head\<rparr>))"
        using new by simp
      moreover have "blob_parts (out\<lparr>ri_instance_name := i\<rparr>) dropped = word # xs" for i
        using out(1) by (simp add: blob_parts_def)
      ultimately show ?thesis using False out name
        by (auto intro!: exI [of _ "if rest = [] then [] else head @ ''/''"] exI [of _ dropped])
    next
      case True
      let ?b = "if rest = [] then [] else head"
      have parse: "resource_info_new name is_upload = Some (parse_uploads ?b out)" using new True by simp
      show ?thesis
      proof (cases "parse_uploads ?b out")
        case (Inl e)
        with parse show ?thesis by simp
      next
        case (Inr r)
        from parse_uploads_Ok [OF Inr] obtain uuid i pre where
          r: "r = out\<lparr>ri_uuid := Some uuid, ri_instance_name := i\<rparr>" "pre = i @ ''/'' \<or> pre = [] \<and> i = []"
          "?b = pre @ ''uploads/'' @ uuid" using out(3) by metis
        then have "name = pre @ join ''/'' ([''uploads'', uuid] @ word # xs)"
          using name join_append [of "[''uploads'', uuid]" "word # xs" "''/''"] by (auto split: if_splits)
        moreover have "blob_parts r dropped = word # xs" using out(1) r(1) by (simp add: blob_parts_def)
        ultimately show ?thesis using parse Inr True r out(2) by (auto intro!: exI [of _ pre] exI [of _ dropped])
      qed
    qed
  qed
qed

end
