(* ===== verification/Buf_Channel.thy ===== *)
theory Buf_Channel
  imports Action_Messages
begin

text \<open>
  The byte channel of nativelink-util/src/buf_channel.rs. A reader is given by what its sender does:
  \<open>rh_rx\<close> holds the messages that are in the channel or still to come, and \<open>rh_eof_sent\<close> says whether
  the sender announces the end of the data before it goes away. So a \<open>recv\<close> that waits is a \<open>recv\<close>
  that knows the next message. A writer records what it has put into the channel; \<open>wh_takes\<close> is the
  number of messages the receiver takes before it hangs up, if it ever does.
\<close>

section \<open>The two halves\<close>

record write_half =
  wh_open :: bool
  wh_bytes_written :: u64
  wh_eof_sent :: bool
  wh_sent :: "bytes list"
  wh_takes :: "nat option"

record read_half =
  rh_rx :: "bytes list"
  rh_bytes_received :: u64
  rh_eof_sent :: bool
  rh_last_err :: "error option"
  rh_queued_data :: "bytes list"
  rh_recent_data :: "bytes list"
  rh_max_recent_data_size :: u64

text \<open>A new channel, seen from both ends; the reader's end is fixed by what is sent until the close.\<close>

definition new_writer :: "nat option \<Rightarrow> write_half" where
  "new_writer takes = \<lparr>wh_open = True, wh_bytes_written = 0, wh_eof_sent = False, wh_sent = [], wh_takes = takes\<rparr>"

definition new_reader :: "bytes list \<Rightarrow> bool \<Rightarrow> read_half" where
  "new_reader sent eof =
     \<lparr>rh_rx = sent, rh_bytes_received = 0, rh_eof_sent = eof, rh_last_err = None, rh_queued_data = [],
      rh_recent_data = [], rh_max_recent_data_size = 0\<rparr>"

definition reader_of :: "write_half \<Rightarrow> read_half" where
  "reader_of w = new_reader (wh_sent w) (wh_eof_sent w)"

section \<open>Writing\<close>

text \<open>The chunk comes back with the error.\<close>

definition send_get_bytes_on_error :: "bytes \<Rightarrow> write_half \<Rightarrow> (error \<times> bytes) option \<times> write_half" where
  "send_get_bytes_on_error buf w =
     (if \<not> wh_open w then (Some (make_err Internal ''Tried to send while stream is closed'', buf), w)
      else if buf = [] then (Some (make_input_err ''Cannot send EOF in send(). Instead use send_eof()'', buf), w)
      else if wh_takes w = Some 0
      then (Some (make_err Internal ''Failed to write to data, receiver disconnected'', buf), w\<lparr>wh_open := False\<rparr>)
      else (None, w\<lparr>wh_bytes_written := wh_bytes_written w + of_nat (length buf), wh_sent := wh_sent w @ [buf],
                    wh_takes := map_option (\<lambda>n. n - 1) (wh_takes w)\<rparr>))"

definition send :: "bytes \<Rightarrow> write_half \<Rightarrow> unit result \<times> write_half" where
  "send buf w =
     (case send_get_bytes_on_error buf w of
        (None, w') \<Rightarrow> (Ok (), w')
      | (Some (e, _), w') \<Rightarrow> (Err e, w'))"

definition send_eof :: "write_half \<Rightarrow> unit result \<times> write_half" where
  "send_eof w = (Ok (), if wh_eof_sent w then w else w\<lparr>wh_eof_sent := True, wh_open := False\<rparr>)"

definition is_pipe_broken :: "write_half \<Rightarrow> bool" where
  "is_pipe_broken w \<longleftrightarrow> \<not> wh_open w"

section \<open>Reading\<close>

definition maybe_populate_recent_data :: "bytes \<Rightarrow> read_half \<Rightarrow> read_half" where
  "maybe_populate_recent_data chunk r =
     (if rh_max_recent_data_size r = 0 then r
      else if rh_max_recent_data_size r < rh_bytes_received r then r\<lparr>rh_recent_data := []\<rparr>
      else r\<lparr>rh_recent_data := rh_recent_data r @ [chunk]\<rparr>)"

definition recv_inner :: "bytes \<Rightarrow> read_half \<Rightarrow> bytes result \<times> read_half" where
  "recv_inner chunk r =
     (if chunk = []
      then if \<not> rh_eof_sent r
           then let err = make_err Internal ''Sender dropped before sending EOF''
                in (Err err, r\<lparr>rh_queued_data := [], rh_recent_data := [], rh_bytes_received := 0,
                               rh_last_err := Some err\<rparr>)
           else (Ok [], maybe_populate_recent_data [] r)
      else (Ok chunk, maybe_populate_recent_data chunk
              (r\<lparr>rh_bytes_received := rh_bytes_received r + of_nat (length chunk)\<rparr>)))"

definition try_recv :: "read_half \<Rightarrow> bytes result option \<times> read_half" where
  "try_recv r =
     (case rh_last_err r of
        Some err \<Rightarrow> (Some (Err err), r)
      | None \<Rightarrow>
          (case rh_queued_data r of
             [] \<Rightarrow> (None, r)
           | chunk # rest \<Rightarrow> (Some (Ok chunk), r\<lparr>rh_queued_data := rest\<rparr>)))"

definition recv :: "read_half \<Rightarrow> bytes result \<times> read_half" where
  "recv r =
     (case try_recv r of
        (Some result, r') \<Rightarrow> (result, r')
      | (None, r') \<Rightarrow>
          (case rh_rx r' of
             [] \<Rightarrow> recv_inner [] r'
           | chunk # rest \<Rightarrow> recv_inner chunk (r'\<lparr>rh_rx := rest\<rparr>)))"

definition set_max_recent_data_size :: "u64 \<Rightarrow> read_half \<Rightarrow> read_half" where
  "set_max_recent_data_size n r = r\<lparr>rh_max_recent_data_size := n\<rparr>"

definition try_reset_stream :: "read_half \<Rightarrow> unit result \<times> read_half" where
  "try_reset_stream r =
     (if rh_max_recent_data_size r < rh_bytes_received r
      then (Err (make_err Internal ''Cannot reset stream, max_recent_data_size exceeded''), r)
      else let data_sum = sum_list (map (\<lambda>chunk. of_nat (length chunk)) (rh_recent_data r)) :: u64;
               r1 = r\<lparr>rh_queued_data := rh_recent_data r @ rh_queued_data r, rh_recent_data := []\<rparr>
           in if data_sum \<noteq> rh_bytes_received r
              then (Err (make_err InvalidArgument ''Sum of recent_data bytes does not equal bytes_received''), r1)
              else (Ok (), r1\<lparr>rh_bytes_received := 0\<rparr>))"

definition peek :: "read_half \<Rightarrow> bytes result \<times> read_half" where
  "peek r =
     (case rh_queued_data r of
        chunk # _ \<Rightarrow> (Ok chunk, r)
      | [] \<Rightarrow>
          (case recv r of
             (Inl e, r') \<Rightarrow> (err_tip ''In buf_channel::peek'' (Err e), r')
           | (Inr chunk, r') \<Rightarrow> (Ok chunk, r'\<lparr>rh_queued_data := chunk # rh_queued_data r'\<rparr>)))"

section \<open>Loops over a reader\<close>

text \<open>Each round takes one message with data, so the messages that are left bound the rounds.\<close>

definition messages_left :: "read_half \<Rightarrow> nat" where
  "messages_left r = length (filter (\<lambda>c. c \<noteq> []) (rh_queued_data r @ rh_rx r))"

lemma messages_populate [simp]: "messages_left (maybe_populate_recent_data c r) = messages_left r"
  by (simp add: messages_left_def maybe_populate_recent_data_def)

lemma recv_messages: "recv r = (Ok chunk, r') \<Longrightarrow> chunk \<noteq> [] \<Longrightarrow> messages_left r' < messages_left r"
  by (auto simp: recv_def try_recv_def recv_inner_def Let_def messages_left_def maybe_populate_recent_data_def
      split: option.splits list.splits if_splits)

lemma peek_messages: "peek r = (Ok c, r') \<Longrightarrow> messages_left r' = messages_left r"
  by (auto simp: peek_def recv_def try_recv_def recv_inner_def Let_def messages_left_def maybe_populate_recent_data_def
      split: option.splits list.splits if_splits sum.splits prod.splits)

function drain :: "read_half \<Rightarrow> unit result \<times> read_half" where
  "drain r =
     (case recv r of
        (Inl e, r') \<Rightarrow> (err_tip ''Failed to drain in buf_channel::drain'' (Err e), r')
      | (Inr chunk, r') \<Rightarrow> if chunk = [] then (Ok (), r') else drain r')"
  by pat_completeness auto

termination
  by (relation "measure messages_left") (auto intro: recv_messages [OF sym])

function bind_buffered :: "read_half \<Rightarrow> write_half \<Rightarrow> unit result \<times> read_half \<times> write_half" where
  "bind_buffered r w =
     (case recv r of
        (Inl e, r1) \<Rightarrow> (err_tip ''In DropCloserWriteHalf::bind_buffered::recv'' (Err e), r1, w)
      | (Inr chunk, r1) \<Rightarrow>
          if chunk = []
          then let (res, w') = send_eof w
               in (err_tip ''In DropCloserWriteHalf::bind_buffered::send_eof'' res, r1, w')
          else (case peek r1 of
                  (Inl _, r2) \<Rightarrow>
                    (case recv r2 of
                       (Inl e, r3) \<Rightarrow> (err_tip ''In DropCloserWriteHalf::bind_buffered::peek::eof'' (Err e), r3, w)
                     | (Inr _, r3) \<Rightarrow> (Err (make_err Internal ''DropCloserReadHalf::peek() said error, but when data received said Ok. This should never happen.''), r3, w))
                | (Inr _, r2) \<Rightarrow>
                    (case send_get_bytes_on_error chunk w of
                       (None, w') \<Rightarrow> bind_buffered r2 w'
                     | (Some (e, buf), w') \<Rightarrow>
                         (err_tip ''In DropCloserWriteHalf::bind_buffered::send'' (Err e),
                          r2\<lparr>rh_queued_data := buf # rh_queued_data r2\<rparr>, w'))))"
  by pat_completeness auto

termination
  by (relation "measure (\<lambda>(r, w). messages_left r)") (auto dest!: sym [of _ "recv _"] sym [of _ "peek _"] dest: recv_messages simp: peek_messages)

text \<open>
  The output is shorter than \<open>n\<close> when a round begins, so that splitting a chunk that is too long leaves
  exactly \<open>n\<close> bytes, and the loop is done.
\<close>

function consume_loop :: "nat \<Rightarrow> bytes \<Rightarrow> read_half \<Rightarrow> bytes result \<times> read_half" where
  "consume_loop n acc r =
     (case recv r of
        (Inl e, r') \<Rightarrow> (err_tip ''During first read of buf_channel::take()'' (Err e), r')
      | (Inr chunk, r') \<Rightarrow>
          if chunk = [] then (Ok acc, r')
          else if n < length acc + length chunk
          then (Ok (acc @ take (n - length acc) chunk),
                r'\<lparr>rh_queued_data := drop (n - length acc) chunk # rh_queued_data r'\<rparr>)
          else if length (acc @ chunk) = n then (Ok (acc @ chunk), r')
          else consume_loop n (acc @ chunk) r')"
  by pat_completeness auto

termination
  by (relation "measure (\<lambda>(n, acc, r). messages_left r)") (auto dest!: sym [of _ "recv _"] dest: recv_messages)

definition consume :: "nat option \<Rightarrow> read_half \<Rightarrow> bytes result \<times> read_half" where
  "consume size_limit r =
     (let n = (case size_limit of None \<Rightarrow> 2 ^ 64 - 1 | Some n \<Rightarrow> n)
      in case recv r of
           (Inl e, r1) \<Rightarrow> (err_tip ''During first read of buf_channel::take()'' (Err e), r1)
         | (Inr chunk, r1) \<Rightarrow>
             if chunk = [] then (Ok chunk, r1)
             else if n < length chunk
             then (Ok (take n chunk), r1\<lparr>rh_queued_data := drop n chunk # rh_queued_data r1\<rparr>)
             else (case peek r1 of
                     (Inl e, r2) \<Rightarrow> (err_tip ''Failed to check if next chunk is EOF'' (Err e), r2)
                   | (Inr peeked, r2) \<Rightarrow>
                       if peeked = [] \<or> length chunk = n then (Ok chunk, r2)
                       else consume_loop n chunk r2))"

declare drain.simps [simp del] bind_buffered.simps [simp del] consume_loop.simps [simp del]

section \<open>What a reader has to offer\<close>

text \<open>
  The data a reader still has, and the readers that occur: no error yet, every message has data, but
  for the mark that \<open>peek\<close> leaves at the end of the queue when it has seen the end of the stream.
\<close>

definition rh_data :: "read_half \<Rightarrow> bytes" where
  "rh_data r = concat (rh_queued_data r @ rh_rx r)"

definition reader_ok :: "read_half \<Rightarrow> bool" where
  "reader_ok r \<longleftrightarrow> rh_last_err r = None \<and> [] \<notin> set (rh_rx r)
     \<and> ([] \<notin> set (rh_queued_data r)
        \<or> rh_rx r = [] \<and> rh_eof_sent r \<and> [] \<notin> set (butlast (rh_queued_data r)))"

lemma populate_fields [simp]:
  "rh_rx (maybe_populate_recent_data c r) = rh_rx r" "rh_eof_sent (maybe_populate_recent_data c r) = rh_eof_sent r"
  "rh_last_err (maybe_populate_recent_data c r) = rh_last_err r"
  "rh_queued_data (maybe_populate_recent_data c r) = rh_queued_data r"
  "rh_bytes_received (maybe_populate_recent_data c r) = rh_bytes_received r"
  "rh_max_recent_data_size (maybe_populate_recent_data c r) = rh_max_recent_data_size r"
  by (simp_all add: maybe_populate_recent_data_def)

text \<open>A \<open>recv\<close> hands out a piece of the data, or sees its end.\<close>

lemma recv_cases:
  assumes "reader_ok r"
  obtains (chunk) c r' where "recv r = (Ok c, r')" "c \<noteq> []" "rh_data r = c @ rh_data r'" "reader_ok r'"
      "rh_eof_sent r' = rh_eof_sent r"
  | (eof) r' where "recv r = (Ok [], r')" "rh_data r = []" "rh_data r' = []" "reader_ok r'" "rh_eof_sent r" "rh_eof_sent r'"
  | (dropped) e r' where "recv r = (Err e, r')" "rh_data r = []" "\<not> rh_eof_sent r" "code e = Internal" "rh_last_err r' = Some e"
proof -
  have err: "rh_last_err r = None" using assms by (simp add: reader_ok_def)
  show thesis
  proof (cases "rh_queued_data r")
    case (Cons c cs)
    then have recv: "recv r = (Ok c, r\<lparr>rh_queued_data := cs\<rparr>)" by (simp add: recv_def try_recv_def err)
    show thesis
    proof (cases "c = []")
      case True
      with assms Cons have "cs = []" "rh_rx r = []" "rh_eof_sent r" by (auto simp: reader_ok_def split: if_splits)
      with True Cons recv err show thesis by (intro eof [of "r\<lparr>rh_queued_data := cs\<rparr>"]) (simp_all add: rh_data_def reader_ok_def)
    next
      case False
      with Cons recv assms show thesis
        by (intro chunk [of c "r\<lparr>rh_queued_data := cs\<rparr>"]) (auto simp: rh_data_def reader_ok_def split: if_splits)
    qed
  next
    case Nil
    show thesis
    proof (cases "rh_rx r")
      case (Cons c cs)
      with assms have c: "c \<noteq> []" by (auto simp: reader_ok_def)
      let ?r = "maybe_populate_recent_data c (r\<lparr>rh_rx := cs, rh_bytes_received := rh_bytes_received r + of_nat (length c)\<rparr>)"
      have "recv r = (Ok c, ?r)" using Nil Cons c by (simp add: recv_def try_recv_def err recv_inner_def)
      with Nil Cons c assms show thesis by (intro chunk [of c ?r]) (auto simp: rh_data_def reader_ok_def)
    next
      case rx: Nil
      show thesis
      proof (cases "rh_eof_sent r")
        case True
        with Nil rx err show thesis
          by (intro eof [of "maybe_populate_recent_data [] r"])
            (simp_all add: recv_def try_recv_def recv_inner_def rh_data_def reader_ok_def)
      next
        case False
        with Nil rx err show thesis by (intro dropped) (auto simp: recv_def try_recv_def recv_inner_def rh_data_def Let_def make_err_def error_new_def)
      qed
    qed
  qed
qed

lemma peek_cases:
  assumes "reader_ok r"
  obtains (chunk) c r' where "peek r = (Ok c, r')" "c \<noteq> []" "rh_data r' = rh_data r" "reader_ok r'" "rh_eof_sent r' = rh_eof_sent r"
      "rh_data r \<noteq> []" "\<exists>cs. rh_queued_data r' = c # cs"
  | (eof) r' where "peek r = (Ok [], r')" "rh_data r = []" "rh_data r' = []" "reader_ok r'" "rh_eof_sent r" "rh_eof_sent r'"
  | (dropped) e r' where "peek r = (Err e, r')" "rh_data r = []" "\<not> rh_eof_sent r" "code e = Internal" "rh_last_err r' \<noteq> None"
proof (cases "rh_queued_data r")
  case (Cons c cs)
  then have p: "peek r = (Ok c, r)" by (simp add: peek_def)
  show thesis
  proof (cases "c = []")
    case True
    with assms Cons have "cs = []" "rh_rx r = []" "rh_eof_sent r" by (auto simp: reader_ok_def split: if_splits)
    with p True Cons assms show thesis by (intro eof [of r]) (simp_all add: rh_data_def)
  next
    case False
    with p Cons assms show thesis by (intro chunk [of c r]) (simp_all add: rh_data_def)
  qed
next
  case Nil
  from assms show thesis
  proof (cases rule: recv_cases)
    case (chunk c r')
    have q: "rh_queued_data r' = []" using chunk(1) Nil
      by (auto simp: recv_def try_recv_def recv_inner_def Let_def split: option.splits list.splits if_splits)
    with chunk Nil show thesis
      by (intro that(1) [of c "r'\<lparr>rh_queued_data := [c]\<rparr>"]) (auto simp: peek_def rh_data_def reader_ok_def)
  next
    case (eof r')
    have q: "rh_queued_data r' = []" "rh_rx r' = []" using eof(1,2) Nil assms
      by (auto simp: recv_def try_recv_def recv_inner_def Let_def reader_ok_def rh_data_def split: option.splits list.splits if_splits)
    with eof Nil show thesis
      by (intro that(2) [of "r'\<lparr>rh_queued_data := [[]]\<rparr>"]) (auto simp: peek_def rh_data_def reader_ok_def)
  next
    case (dropped e r')
    with Nil show thesis by (intro that(3) [of "e\<lparr>messages := messages e @ [''In buf_channel::peek'']\<rparr>" r']) (auto simp: peek_def)
  qed
qed

section \<open>Properties of the loops\<close>

lemma consume_loop_ok:
  assumes "reader_ok r" and "rh_eof_sent r" and "length acc < n"
  shows "\<exists>r'. consume_loop n acc r = (Ok (take n (acc @ rh_data r)), r')
    \<and> rh_data r' = drop n (acc @ rh_data r) \<and> reader_ok r' \<and> rh_eof_sent r'"
  using assms
proof (induction n acc r rule: consume_loop.induct)
  case (1 n acc r)
  from 1(2) show ?case
  proof (cases rule: recv_cases)
    case (chunk c r')
    show ?thesis
    proof (cases "n \<le> length acc + length c")
      case True
      with chunk show ?thesis
        by (subst consume_loop.simps) (use 1(3,4) in \<open>auto simp: rh_data_def reader_ok_def split: if_splits\<close>)
    next
      case False
      with 1(1) [OF chunk(1) [symmetric] refl chunk(2)] chunk 1(3) show ?thesis
        by (subst consume_loop.simps) auto
    qed
  next
    case (eof r')
    with 1(4) show ?thesis by (subst consume_loop.simps) auto
  next
    case (dropped e r')
    with 1(3) show ?thesis by simp
  qed
qed

lemma consume_loop_dropped:
  assumes "reader_ok r" and "\<not> rh_eof_sent r" and "length acc + length (rh_data r) < n"
  shows "\<exists>e r'. consume_loop n acc r = (Err e, r') \<and> code e = Internal"
  using assms
proof (induction n acc r rule: consume_loop.induct)
  case (1 n acc r)
  from 1(2) show ?case
  proof (cases rule: recv_cases)
    case (chunk c r')
    with 1(1) [OF chunk(1) [symmetric] refl chunk(2)] 1(3,4) show ?thesis by (subst consume_loop.simps) auto
  next
    case (eof r')
    with 1(3) show ?thesis by simp
  next
    case (dropped e r')
    then show ?thesis by (subst consume_loop.simps) auto
  qed
qed

abbreviation limit_of :: "nat option \<Rightarrow> nat" where
  "limit_of size_limit \<equiv> (case size_limit of None \<Rightarrow> 2 ^ 64 - 1 | Some n \<Rightarrow> n)"

lemma consume_ok:
  assumes "reader_ok r" and "rh_eof_sent r"
  shows "\<exists>r'. consume size_limit r = (Ok (take (limit_of size_limit) (rh_data r)), r')
    \<and> rh_data r' = drop (limit_of size_limit) (rh_data r) \<and> reader_ok r' \<and> rh_eof_sent r'"
proof -
  define n where "n = limit_of size_limit"
  from assms(1) have "\<exists>r'. consume size_limit r = (Ok (take n (rh_data r)), r')
    \<and> rh_data r' = drop n (rh_data r) \<and> reader_ok r' \<and> rh_eof_sent r'"
  proof (cases rule: recv_cases)
    case (chunk c r1)
    show ?thesis
    proof (cases "n < length c")
      case True
      with chunk assms(2) show ?thesis
        by (auto simp: consume_def n_def [symmetric] rh_data_def reader_ok_def split: if_splits)
    next
      case False
      from chunk(4) show ?thesis
      proof (cases rule: peek_cases)
        case (chunk p r2)
        show ?thesis
        proof (cases "length c = n")
          case True
          with \<open>recv r = (Ok c, r1)\<close> \<open>c \<noteq> []\<close> \<open>rh_data r = c @ rh_data r1\<close> chunk False assms(2) \<open>rh_eof_sent r1 = rh_eof_sent r\<close>
          show ?thesis by (simp add: consume_def n_def [symmetric])
        next
          case ne: False
          then have "length c < n" using False by simp
          from consume_loop_ok [OF chunk(4) _ this] chunk ne False
            \<open>recv r = (Ok c, r1)\<close> \<open>c \<noteq> []\<close> \<open>rh_data r = c @ rh_data r1\<close> assms(2) \<open>rh_eof_sent r1 = rh_eof_sent r\<close>
          show ?thesis by (auto simp: consume_def n_def [symmetric])
        qed
      next
        case (eof r2)
        with chunk False show ?thesis by (auto simp: consume_def n_def [symmetric])
      next
        case (dropped e r2)
        with chunk assms(2) show ?thesis by simp
      qed
    qed
  next
    case (eof r')
    then show ?thesis by (auto simp: consume_def)
  next
    case (dropped e r')
    with assms(2) show ?thesis by simp
  qed
  then show ?thesis by (simp add: n_def)
qed

lemma consume_dropped:
  assumes "reader_ok r" and "\<not> rh_eof_sent r" and "length (rh_data r) < limit_of size_limit"
  shows "\<exists>e r'. consume size_limit r = (Err e, r') \<and> code e = Internal"
  using assms(1)
proof (cases rule: recv_cases)
  case (chunk c r1)
  from chunk(4) show ?thesis
  proof (cases rule: peek_cases)
    case (chunk p r2)
    from consume_loop_dropped [OF chunk(4), of c "limit_of size_limit"] chunk assms
      \<open>recv r = (Ok c, r1)\<close> \<open>c \<noteq> []\<close> \<open>rh_data r = c @ rh_data r1\<close> \<open>rh_eof_sent r1 = rh_eof_sent r\<close>
    show ?thesis by (auto simp: consume_def Let_def)
  next
    case (eof r2)
    with chunk assms show ?thesis by simp
  next
    case (dropped e r2)
    with chunk assms show ?thesis by (auto simp: consume_def Let_def)
  qed
next
  case (eof r')
  with assms show ?thesis by simp
next
  case (dropped e r')
  then show ?thesis by (auto simp: consume_def)
qed

text \<open>Forwarding a stream: the messages with data arrive in order, and the end only if the reader saw it.\<close>

lemma bind_buffered_ok:
  assumes "reader_ok r" and "rh_eof_sent r" and "wh_open w" and "wh_takes w = None" and "\<not> wh_eof_sent w"
  shows "\<exists>r' w'. bind_buffered r w = (Ok (), r', w') \<and> wh_eof_sent w' \<and> [] \<notin> set (wh_sent w') - set (wh_sent w)
    \<and> concat (wh_sent w') = concat (wh_sent w) @ rh_data r"
  using assms
proof (induction r w rule: bind_buffered.induct)
  case (1 r w)
  from 1(2) show ?case
  proof (cases rule: recv_cases)
    case (chunk c r1)
    let ?w = "w\<lparr>wh_bytes_written := wh_bytes_written w + of_nat (length c), wh_sent := wh_sent w @ [c]\<rparr>"
    have send: "send_get_bytes_on_error c w = (None, ?w)"
      using 1(4,5) chunk(2) by (simp add: send_get_bytes_on_error_def)
    have step: "\<exists>r' w'. bind_buffered r w = (Ok (), r', w') \<and> wh_eof_sent w' \<and> [] \<notin> set (wh_sent w') - set (wh_sent w)
        \<and> concat (wh_sent w') = concat (wh_sent w) @ rh_data r"
      if p: "peek r1 = (Ok x, r2)" "rh_data r2 = rh_data r1" "reader_ok r2" "rh_eof_sent r2" for x r2
    proof -
      from 1(1) [OF chunk(1) [symmetric] refl chunk(2) p(1) [symmetric] refl send [symmetric] refl p(3,4)] 1(4,5,6) obtain r' w' where
        "bind_buffered r2 ?w = (Ok (), r', w')" "wh_eof_sent w'" "[] \<notin> set (wh_sent w') - set (wh_sent ?w)"
        "concat (wh_sent w') = concat (wh_sent ?w) @ rh_data r2" by auto
      moreover have "bind_buffered r w = bind_buffered r2 ?w"
        using chunk(1,2) p(1) send by (subst bind_buffered.simps) simp
      ultimately show ?thesis using p(2) chunk(2,3) by auto
    qed
    from chunk(4) show ?thesis
    proof (cases rule: peek_cases)
      case (chunk x r2)
      then show ?thesis using step \<open>rh_eof_sent r1 = rh_eof_sent r\<close> 1(3) by metis
    next
      case (eof r2)
      then show ?thesis using step by metis
    next
      case (dropped e r2)
      with \<open>rh_eof_sent r1 = rh_eof_sent r\<close> 1(3) show ?thesis by simp
    qed
  next
    case (eof r1)
    with 1(6) show ?thesis by (subst bind_buffered.simps) (simp add: send_eof_def)
  next
    case (dropped e r1)
    with 1(3) show ?thesis by simp
  qed
qed

lemma drain_ok:
  assumes "reader_ok r"
  shows "\<exists>res r'. drain r = (res, r') \<and> is_ok res = rh_eof_sent r"
  using assms
proof (induction r rule: drain.induct)
  case (1 r)
  from 1(2) show ?case
  proof (cases rule: recv_cases)
    case (chunk c r')
    with 1(1) [OF chunk(1) [symmetric] refl chunk(2) chunk(4)] show ?thesis by (subst drain.simps) auto
  next
    case (eof r')
    then show ?thesis by (subst drain.simps) auto
  next
    case (dropped e r')
    then show ?thesis by (subst drain.simps) auto
  qed
qed

section \<open>Properties\<close>

lemma new_reader_ok [simp]: "reader_ok (new_reader sent eof) \<longleftrightarrow> [] \<notin> set sent"
  by (simp add: reader_ok_def new_reader_def)

lemma new_reader_fields [simp]: "rh_data (new_reader sent eof) = concat sent" "rh_eof_sent (new_reader sent eof) = eof"
  by (simp_all add: rh_data_def new_reader_def)



text \<open>Reading some messages.\<close>

fun recvs :: "nat \<Rightarrow> read_half \<Rightarrow> read_half" where
  "recvs 0 r = r"
| "recvs (Suc k) r = recvs k (snd (recv r))"

lemma of_nat_le_word: "n \<le> unat m \<Longrightarrow> of_nat n \<le> (m :: 'a::len word)"
  by (metis le_unat_uoi word_le_nat_alt)

lemma recvs_state:
  assumes "[] \<notin> set (sent @ rest)" and "0 < m" and "sum_list (map length (got @ sent)) \<le> unat m"
    and "r = (set_max_recent_data_size m (new_reader (sent @ rest) eof))
      \<lparr>rh_recent_data := got, rh_bytes_received := of_nat (sum_list (map length got))\<rparr>"
  shows "recvs (length sent) r = (set_max_recent_data_size m (new_reader rest eof))
      \<lparr>rh_recent_data := got @ sent, rh_bytes_received := of_nat (sum_list (map length (got @ sent)))\<rparr>"
  using assms
proof (induction sent arbitrary: got r)
  case Nil
  then show ?case by simp
next
  case (Cons c sent)
  let ?b = "of_nat (sum_list (map length (got @ [c]))) :: u64"
  have "sum_list (map length (got @ [c])) \<le> unat m" using Cons.prems(3) by simp
  then have "?b \<le> m" by (rule of_nat_le_word)
  then have "snd (recv r) = (set_max_recent_data_size m (new_reader (sent @ rest) eof))
      \<lparr>rh_recent_data := got @ [c], rh_bytes_received := ?b\<rparr>"
    using Cons.prems(1,2,4)
    by (auto simp: recv_def try_recv_def recv_inner_def maybe_populate_recent_data_def set_max_recent_data_size_def new_reader_def
        not_less)
  with Cons.IH [of "got @ [c]" "snd (recv r)"] Cons.prems show ?case by simp
qed



end
