(* ===== verification/Fast_CDC.thy ===== *)
theory Fast_CDC
  imports Action_Messages "HOL-Library.Log_Nat"
begin

unbundle bit_operations_syntax

text \<open>
  \<open>FastCDC\<close> (nativelink-util/src/fastcdc.rs), the content-defined chunker of the deduplication store: a
  decoder that is called with a growing buffer and cuts frames off its front. A rolling hash is
  carried over from call to call, so that no byte is hashed twice. \<open>Ok\<close> is left out of the results,
  as the decoder has no errors. Arithmetic overflow in \<open>new\<close> is a panic.
\<close>

section \<open>Configuration and state\<close>

record cdc_state =
  cdc_hash :: u32
  cdc_position :: nat

record fast_cdc =
  cdc_min_size :: nat
  cdc_avg_size :: nat
  cdc_max_size :: nat
  cdc_norm_size :: nat
  cdc_mask_easy :: u32
  cdc_mask_hard :: u32
  cdc_st :: cdc_state

definition cdc_reset :: cdc_state where
  "cdc_reset = \<lparr>cdc_hash = 0, cdc_position = 0\<rparr>"

text \<open>\<open>(n as f64).log2().round()\<close>: the nearest power of two is that of the square's length, halved.\<close>

definition log2_round :: "nat \<Rightarrow> nat" where
  "log2_round n = floorlog 2 (n * n) div 2"

definition fast_cdc_new :: "nat \<Rightarrow> nat \<Rightarrow> nat \<Rightarrow> fast_cdc option" where
  "fast_cdc_new min_size avg_size max_size =
     (let offset = min (min_size + (min_size + 1) div 2) avg_size;
          bits = log2_round avg_size
      in if \<not> (min_size < avg_size \<and> avg_size < max_size) \<or> bits = 0 \<or> 31 \<le> bits then None
         else Some \<lparr>cdc_min_size = min_size, cdc_avg_size = avg_size, cdc_max_size = max_size,
                    cdc_norm_size = avg_size - offset,
                    cdc_mask_easy = 2 ^ (bits - 1) - 1, cdc_mask_hard = 2 ^ (bits + 1) - 1,
                    cdc_st = cdc_reset\<rparr>)"

definition cdc_clone :: "fast_cdc \<Rightarrow> fast_cdc" where
  "cdc_clone c = c\<lparr>cdc_st := cdc_reset\<rparr>"

definition cdc_table :: "u32 list" where
  "cdc_table =
    [0x5c95c078, 0x22408989, 0x2d48a214, 0x12842087, 0x530f8afb, 0x474536b9,
     0x2963b4f1, 0x44cb738b, 0x4ea7403d, 0x4d606b6e, 0x074ec5d3, 0x3af39d18,
     0x726003ca, 0x37a62a74, 0x51a2f58e, 0x7506358e, 0x5d4ab128, 0x4d4ae17b,
     0x41e85924, 0x470c36f7, 0x4741cbe1, 0x01bb7f30, 0x617c1de3, 0x2b0c3a1f,
     0x50c48f73, 0x21a82d37, 0x6095ace0, 0x419167a0, 0x3caf49b0, 0x40cea62d,
     0x66bc1c66, 0x545e1dad, 0x2bfa77cd, 0x6e85da24, 0x5fb0bdc5, 0x652cfc29,
     0x3a0ae1ab, 0x2837e0f3, 0x6387b70e, 0x13176012, 0x4362c2bb, 0x66d8f4b1,
     0x37fce834, 0x2c9cd386, 0x21144296, 0x627268a8, 0x650df537, 0x2805d579,
     0x3b21ebbd, 0x7357ed34, 0x3f58b583, 0x7150ddca, 0x7362225e, 0x620a6070,
     0x2c5ef529, 0x7b522466, 0x768b78c0, 0x4b54e51e, 0x75fa07e5, 0x06a35fc6,
     0x30b71024, 0x1c8626e1, 0x296ad578, 0x28d7be2e, 0x1490a05a, 0x7cee43bd,
     0x698b56e3, 0x09dc0126, 0x4ed6df6e, 0x02c1bfc7, 0x2a59ad53, 0x29c0e434,
     0x7d6c5278, 0x507940a7, 0x5ef6ba93, 0x68b6af1e, 0x46537276, 0x611bc766,
     0x155c587d, 0x301ba847, 0x2cc9dda7, 0x0a438e2c, 0x0a69d514, 0x744c72d3,
     0x4f326b9b, 0x7ef34286, 0x4a0ef8a7, 0x6ae06ebe, 0x669c5372, 0x12402dcb,
     0x5feae99d, 0x76c7f4a7, 0x6abdb79c, 0x0dfaa038, 0x20e2282c, 0x730ed48b,
     0x069dac2f, 0x168ecf3e, 0x2610e61f, 0x2c512c8e, 0x15fb8c06, 0x5e62bc76,
     0x69555135, 0x0adb864c, 0x4268f914, 0x349ab3aa, 0x20edfdb2, 0x51727981,
     0x37b4b3d8, 0x5dd17522, 0x6b2cbfe4, 0x5c47cf9f, 0x30fa1ccd, 0x23dedb56,
     0x13d1f50a, 0x64eddee7, 0x0820b0f7, 0x46e07308, 0x1e2d1dfd, 0x17b06c32,
     0x250036d8, 0x284dbf34, 0x68292ee0, 0x362ec87c, 0x087cb1eb, 0x76b46720,
     0x104130db, 0x71966387, 0x482dc43f, 0x2388ef25, 0x524144e1, 0x44bd834e,
     0x448e7da3, 0x3fa6eaf9, 0x3cda215c, 0x3a500cf3, 0x395cb432, 0x5195129f,
     0x43945f87, 0x51862ca4, 0x56ea8ff1, 0x201034dc, 0x4d328ff5, 0x7d73a909,
     0x6234d379, 0x64cfbf9c, 0x36f6589a, 0x0a2ce98a, 0x5fe4d971, 0x03bc15c5,
     0x44021d33, 0x16c1932b, 0x37503614, 0x1acaf69d, 0x3f03b779, 0x49e61a03,
     0x1f52d7ea, 0x1c6ddd5c, 0x062218ce, 0x07e7a11a, 0x1905757a, 0x7ce00a53,
     0x49f44f29, 0x4bcc70b5, 0x39feea55, 0x5242cee8, 0x3ce56b85, 0x00b81672,
     0x46beeccc, 0x3ca0ad56, 0x2396cee8, 0x78547f40, 0x6b08089b, 0x66a56751,
     0x781e7e46, 0x1e2cf856, 0x3bc13591, 0x494a4202, 0x520494d7, 0x2d87459a,
     0x757555b6, 0x42284cc1, 0x1f478507, 0x75c95dff, 0x35ff8dd7, 0x4e4757ed,
     0x2e11f88c, 0x5e1b5048, 0x420e6699, 0x226b0695, 0x4d1679b4, 0x5a22646f,
     0x161d1131, 0x125c68d9, 0x1313e32e, 0x4aa85724, 0x21dc7ec1, 0x4ffa29fe,
     0x72968382, 0x1ca8eef3, 0x3f3b1c28, 0x39c2fb6c, 0x6d76493f, 0x7a22a62e,
     0x789b1c2a, 0x16e0cb53, 0x7deceeeb, 0x0dc7e1c6, 0x5c75bf3d, 0x52218333,
     0x106de4d6, 0x7dc64422, 0x65590ff4, 0x2c02ec30, 0x64a9ac67, 0x59cab2e9,
     0x4a21d2f3, 0x0f616e57, 0x23b54ee8, 0x02730aaa, 0x2f3c634d, 0x7117fc6c,
     0x01ac6f05, 0x5a9ed20c, 0x158c4e2a, 0x42b699f0, 0x0c7c14b3, 0x02bd9641,
     0x15ad56fc, 0x1c722f60, 0x7da1af91, 0x23e0dbcb, 0x0e93e12b, 0x64b2791d,
     0x440d2476, 0x588ea8dd, 0x4665a658, 0x7446c418, 0x1877a774, 0x5626407e,
     0x7f63bd46, 0x32d2dbd8, 0x3c790f4a, 0x772b7239, 0x6f8b2826, 0x677ff609,
     0x0dc82c11, 0x23ffe354, 0x2eac53a6, 0x16139e09, 0x0afd0dbc, 0x2a4d4237,
     0x56a368c7, 0x234325e4, 0x2dce9187, 0x32e8ea7e]"

section \<open>The decoder\<close>

definition cdc_roll :: "u32 \<Rightarrow> u8 \<Rightarrow> u32" where
  "cdc_roll h byte = drop_bit 1 h + cdc_table ! unat byte"

definition cdc_mask :: "fast_cdc \<Rightarrow> nat \<Rightarrow> u32" where
  "cdc_mask c i = (if i < cdc_norm_size c then cdc_mask_hard c else cdc_mask_easy c)"

text \<open>The loop over the bytes of the buffer from index \<open>i\<close> on; zero means that no split point was found.\<close>

fun cdc_scan :: "fast_cdc \<Rightarrow> nat \<Rightarrow> u32 \<Rightarrow> bytes \<Rightarrow> nat \<times> u32" where
  "cdc_scan c i h [] = (0, h)"
| "cdc_scan c i h (byte # bs) =
     (let h' = cdc_roll h byte
      in if h' AND cdc_mask c i = 0 \<or> cdc_max_size c \<le> i then (i, h')
         else cdc_scan c (i + 1) h' bs)"

definition cdc_decode :: "fast_cdc \<Rightarrow> bytes \<Rightarrow> bytes option \<times> fast_cdc \<times> bytes" where
  "cdc_decode c buf =
     (if length buf \<le> cdc_min_size c then (None, c, buf)
      else let start_point = max (cdc_position (cdc_st c)) (cdc_min_size c);
               (split_point, h) = cdc_scan c start_point (cdc_hash (cdc_st c)) (drop start_point buf)
           in if cdc_min_size c \<le> split_point
              then (Some (take split_point buf), c\<lparr>cdc_st := cdc_reset\<rparr>, drop split_point buf)
              else (None, c\<lparr>cdc_st := \<lparr>cdc_hash = h,
                                      cdc_position = (if split_point = 0 then length buf else split_point)\<rparr>\<rparr>, buf))"

definition cdc_decode_eof :: "fast_cdc \<Rightarrow> bytes \<Rightarrow> bytes option \<times> fast_cdc \<times> bytes" where
  "cdc_decode_eof c buf =
     (case cdc_decode c buf of
        (Some frame, c', buf') \<Rightarrow> (Some frame, c', buf')
      | (None, c', buf') \<Rightarrow>
          (if buf' = [] then None else Some buf', c'\<lparr>cdc_st := cdc_reset\<rparr>, []))"

section \<open>Frames of the whole input\<close>

text \<open>
  The reference: the first index from the minimal size on where the hash of the bytes since then,
  under the mask of that index, is zero, or the maximal size is reached.
\<close>

definition gear :: "bytes \<Rightarrow> u32" where
  "gear bs = foldl cdc_roll 0 bs"

definition cdc_boundary :: "fast_cdc \<Rightarrow> bytes \<Rightarrow> nat \<Rightarrow> bool" where
  "cdc_boundary c bs i \<longleftrightarrow>
     gear (drop (cdc_min_size c) (take (i + 1) bs)) AND cdc_mask c i = 0 \<or> cdc_max_size c \<le> i"

definition cdc_cut :: "fast_cdc \<Rightarrow> bytes \<Rightarrow> nat option" where
  "cdc_cut c bs = List.find (cdc_boundary c bs) [cdc_min_size c..<length bs]"

function cdc_frames :: "fast_cdc \<Rightarrow> bytes \<Rightarrow> bytes list" where
  "cdc_frames c bs =
     (if bs = [] then []
      else case cdc_cut c bs of
             None \<Rightarrow> [bs]
           | Some i \<Rightarrow> if i = 0 then [bs] else take i bs # cdc_frames c (drop i bs))"
  by pat_completeness auto

termination
  by (relation "measure (\<lambda>(c, bs). length bs)") auto

declare cdc_frames.simps [simp del]

lemma gear_snoc: "gear (bs @ [b]) = cdc_roll (gear bs) b"
  by (simp add: gear_def)

lemma cdc_boundary_append [simp]:
  "i < length bs \<Longrightarrow> cdc_boundary c (bs @ more_bs) i = cdc_boundary c bs i"
  by (simp add: cdc_boundary_def)

lemma cdc_cut_state [simp]: "cdc_cut (c\<lparr>cdc_st := st\<rparr>) bs = cdc_cut c bs"
  by (simp add: cdc_cut_def cdc_boundary_def [abs_def] cdc_mask_def)

lemma cdc_boundary_state [simp]: "cdc_boundary (c\<lparr>cdc_st := st\<rparr>) bs i = cdc_boundary c bs i"
  by (simp add: cdc_boundary_def cdc_mask_def)

lemma cdc_cut_Some:
  "cdc_cut c bs = Some i \<longleftrightarrow>
     cdc_min_size c \<le> i \<and> i < length bs \<and> cdc_boundary c bs i \<and>
     (\<forall>j. cdc_min_size c \<le> j \<and> j < i \<longrightarrow> \<not> cdc_boundary c bs j)"
  (is "_ \<longleftrightarrow> ?R")
proof
  assume "cdc_cut c bs = Some i"
  then obtain k where k: "k < length bs - cdc_min_size c" "cdc_boundary c bs (cdc_min_size c + k)"
      "i = cdc_min_size c + k" "\<forall>j<k. \<not> cdc_boundary c bs (cdc_min_size c + j)"
    by (auto simp: cdc_cut_def find_Some_iff)
  have "\<not> cdc_boundary c bs j" if "cdc_min_size c \<le> j" "j < i" for j
    using k(4)[rule_format, of "j - cdc_min_size c"] that k(3) by simp
  then show ?R using k by auto
next
  assume R: ?R
  then show "cdc_cut c bs = Some i"
    unfolding cdc_cut_def find_Some_iff
    by (intro exI [of _ "i - cdc_min_size c"]) auto
qed

lemma cdc_cut_None:
  "cdc_cut c bs = None \<longleftrightarrow> (\<forall>j. cdc_min_size c \<le> j \<and> j < length bs \<longrightarrow> \<not> cdc_boundary c bs j)"
  by (auto simp: cdc_cut_def find_None_iff)

lemma cdc_cut_append: "cdc_cut c bs = Some i \<Longrightarrow> cdc_cut c (bs @ rest) = Some i"
  unfolding cdc_cut_Some by auto

text \<open>The loop continues the hash of the reference and stops at the reference's cut.\<close>

lemma cdc_scan_cut:
  assumes "cdc_min_size c \<le> i" "i \<le> length buf"
    and "h = gear (drop (cdc_min_size c) (take i buf))"
    and "\<And>j. cdc_min_size c \<le> j \<Longrightarrow> j < i \<Longrightarrow> \<not> cdc_boundary c buf j"
  shows "cdc_scan c i h (drop i buf) =
           (case cdc_cut c buf of
              Some k \<Rightarrow> (k, gear (drop (cdc_min_size c) (take (k + 1) buf)))
            | None \<Rightarrow> (0, gear (drop (cdc_min_size c) buf)))"
  using assms
proof (induction "length buf - i" arbitrary: i h)
  case 0
  then have "cdc_cut c buf = None" unfolding cdc_cut_None by auto
  then show ?case using 0 by simp
next
  case (Suc n)
  then have lt: "i < length buf" by simp
  have h': "cdc_roll h (buf ! i) = gear (drop (cdc_min_size c) (take (i + 1) buf))"
    using Suc.prems(1,3) lt by (simp add: take_Suc_conv_app_nth gear_snoc)
  show ?case
  proof (cases "cdc_boundary c buf i")
    case True
    then have "cdc_cut c buf = Some i" unfolding cdc_cut_Some using Suc.prems lt by auto
    then show ?thesis using True lt h' by (simp add: Cons_nth_drop_Suc [symmetric] cdc_boundary_def)
  next
    case False
    have "cdc_scan c (i + 1) (cdc_roll h (buf ! i)) (drop (i + 1) buf) =
           (case cdc_cut c buf of
              Some k \<Rightarrow> (k, gear (drop (cdc_min_size c) (take (k + 1) buf)))
            | None \<Rightarrow> (0, gear (drop (cdc_min_size c) buf)))"
      by (rule Suc.hyps(1)) (use Suc.hyps(2) Suc.prems lt h' False less_Suc_eq in auto)
    then show ?thesis using False lt h'
      by (simp add: Cons_nth_drop_Suc [symmetric] cdc_boundary_def Let_def)
  qed
qed

section \<open>The decoder against the reference\<close>

text \<open>
  What the decoder keeps between calls: the configuration it was made with and, unless it was
  reset, the hash of a prefix of the buffer that has no cut.
\<close>

definition cdc_ok :: "fast_cdc \<Rightarrow> bytes \<Rightarrow> fast_cdc \<Rightarrow> bool" where
  "cdc_ok c0 buf c \<longleftrightarrow>
     c = c0\<lparr>cdc_st := cdc_st c\<rparr> \<and>
     (cdc_st c = cdc_reset \<or>
      cdc_min_size c0 \<le> cdc_position (cdc_st c) \<and> cdc_position (cdc_st c) \<le> length buf \<and>
      cdc_hash (cdc_st c) = gear (drop (cdc_min_size c0) (take (cdc_position (cdc_st c)) buf)) \<and>
      (\<forall>j. cdc_min_size c0 \<le> j \<and> j < cdc_position (cdc_st c) \<longrightarrow> \<not> cdc_boundary c0 buf j))"

lemma cdc_ok_reset [simp]: "cdc_ok c0 buf (c0\<lparr>cdc_st := cdc_reset\<rparr>)"
  by (simp add: cdc_ok_def)

lemma cdc_okE:
  assumes "cdc_ok c0 buf c"
  obtains st where "c = c0\<lparr>cdc_st := st\<rparr>"
  using assms unfolding cdc_ok_def by blast

lemma cdc_ok_feed: "cdc_ok c0 buf c \<Longrightarrow> cdc_ok c0 (buf @ bs) c"
  by (auto simp: cdc_ok_def)

lemma cdc_decode_scan:
  assumes "cdc_ok c0 buf c" "cdc_min_size c0 < length buf"
  shows "cdc_scan c (max (cdc_position (cdc_st c)) (cdc_min_size c0)) (cdc_hash (cdc_st c))
           (drop (max (cdc_position (cdc_st c)) (cdc_min_size c0)) buf) =
         (case cdc_cut c0 buf of
            Some k \<Rightarrow> (k, gear (drop (cdc_min_size c0) (take (k + 1) buf)))
          | None \<Rightarrow> (0, gear (drop (cdc_min_size c0) buf)))"
proof -
  obtain st where c: "c = c0\<lparr>cdc_st := st\<rparr>" using assms(1) by (rule cdc_okE)
  show ?thesis
    using assms unfolding c
    by (subst cdc_scan_cut) (auto simp: cdc_ok_def cdc_reset_def gear_def max_def
        split: if_splits option.splits)
qed

lemma cdc_decode_Some:
  assumes "cdc_ok c0 buf c" "cdc_cut c0 buf = Some i"
  shows "cdc_decode c buf = (Some (take i buf), c0\<lparr>cdc_st := cdc_reset\<rparr>, drop i buf)"
proof -
  have i: "cdc_min_size c0 \<le> i" "i < length buf" using assms(2) by (auto simp: cdc_cut_Some)
  obtain st where c: "c = c0\<lparr>cdc_st := st\<rparr>" using assms(1) by (rule cdc_okE)
  show ?thesis using cdc_decode_scan [OF assms(1)] i assms(2) by (simp add: cdc_decode_def c)
qed

lemma cdc_decode_None:
  assumes "cdc_ok c0 buf c" "cdc_cut c0 buf = None" "0 < cdc_min_size c0"
  shows "\<exists>c'. cdc_decode c buf = (None, c', buf) \<and> cdc_ok c0 buf c'"
proof (cases "length buf \<le> cdc_min_size c0")
  case True
  have "cdc_min_size c = cdc_min_size c0" using assms(1) by (auto elim: cdc_okE)
  then show ?thesis using True assms(1) by (simp add: cdc_decode_def)
next
  case False
  obtain st where c: "c = c0\<lparr>cdc_st := st\<rparr>" using assms(1) by (rule cdc_okE)
  show ?thesis using cdc_decode_scan [OF assms(1)] False assms(2,3)
    by (auto simp: cdc_decode_def c cdc_ok_def cdc_cut_None)
qed

text \<open>
  A framed reader (\<open>FramedRead\<close> of \<open>tokio_util\<close>) appends what arrives to the buffer and calls \<open>decode\<close>,
  in any order; at the end of the input it calls \<open>decode_eof\<close> until that returns \<open>None\<close>.
\<close>

inductive cdc_run :: "fast_cdc \<Rightarrow> bytes \<Rightarrow> bytes list \<Rightarrow> bytes \<Rightarrow> fast_cdc \<Rightarrow> bool" for c0 where
  run_start: "cdc_run c0 [] [] [] (cdc_clone c0)"
| run_feed: "cdc_run c0 inp fs buf c \<Longrightarrow> cdc_run c0 (inp @ bs) fs (buf @ bs) c"
| run_frame: "cdc_run c0 inp fs buf c \<Longrightarrow> cdc_decode c buf = (Some f, c', buf') \<Longrightarrow>
    cdc_run c0 inp (fs @ [f]) buf' c'"
| run_none: "cdc_run c0 inp fs buf c \<Longrightarrow> cdc_decode c buf = (None, c', buf') \<Longrightarrow>
    cdc_run c0 inp fs buf' c'"

fun cdc_finish :: "nat \<Rightarrow> fast_cdc \<Rightarrow> bytes \<Rightarrow> bytes list option" where
  "cdc_finish 0 c buf = None"
| "cdc_finish (Suc n) c buf =
     (case cdc_decode_eof c buf of
        (None, _, _) \<Rightarrow> Some []
      | (Some f, c', buf') \<Rightarrow> map_option ((#) f) (cdc_finish n c' buf'))"

lemma cdc_frames_cut:
  "cdc_cut c bs = Some i \<Longrightarrow> 0 < cdc_min_size c \<Longrightarrow>
   cdc_frames c bs = take i bs # cdc_frames c (drop i bs)"
  using cdc_cut_Some [of c bs i] by (subst cdc_frames.simps) auto

lemma cdc_frames_no_cut: "cdc_cut c bs = None \<Longrightarrow> cdc_frames c bs = (if bs = [] then [] else [bs])"
  by (subst cdc_frames.simps) simp

lemma cdc_run_inv:
  assumes "cdc_run c0 inp fs buf c" "0 < cdc_min_size c0"
  shows "cdc_ok c0 buf c \<and> (\<forall>rest. cdc_frames c0 (inp @ rest) = fs @ cdc_frames c0 (buf @ rest))"
  using assms
proof induction
  case run_start
  then show ?case by (simp add: cdc_clone_def)
next
  case (run_feed inp fs buf c bs)
  then show ?case by (simp add: cdc_ok_feed)
next
  case (run_frame inp fs buf c f c' buf')
  then obtain i where i: "cdc_cut c0 buf = Some i"
    using cdc_decode_None [of c0 buf c] by (cases "cdc_cut c0 buf") auto
  then have "i \<le> length buf" by (simp add: cdc_cut_Some)
  then show ?case
    using run_frame cdc_decode_Some [OF _ i, of c] cdc_frames_cut [OF cdc_cut_append [OF i]] by auto
next
  case (run_none inp fs buf c c' buf')
  then have "cdc_cut c0 buf = None" using cdc_decode_Some [of c0 buf c] by (cases "cdc_cut c0 buf") auto
  then show ?case using run_none cdc_decode_None [of c0 buf c] by auto
qed

lemma cdc_finish_frames:
  assumes "cdc_ok c0 buf c" "0 < cdc_min_size c0" "length buf < n"
  shows "cdc_finish n c buf = Some (cdc_frames c0 buf)"
  using assms
proof (induction n arbitrary: buf c)
  case (Suc n)
  show ?case
  proof (cases "cdc_cut c0 buf")
    case None
    obtain c' where c': "cdc_decode c buf = (None, c', buf)" "cdc_ok c0 buf c'"
      using cdc_decode_None [OF Suc.prems(1) None Suc.prems(2)] by auto
    have "cdc_ok c0 [] (c'\<lparr>cdc_st := cdc_reset\<rparr>)" using c'(2) by (auto elim!: cdc_okE)
    moreover have "buf \<noteq> [] \<Longrightarrow> 0 < n" using Suc.prems(3) by (cases buf) auto
    moreover have "cdc_frames c0 [] = []" by (subst cdc_frames.simps) simp
    ultimately show ?thesis
      using c' None Suc.IH [of "[]" "c'\<lparr>cdc_st := cdc_reset\<rparr>"] Suc.prems(2)
      by (simp add: cdc_decode_eof_def cdc_frames_no_cut)
  next
    case (Some i)
    then have "0 < i" "i < length buf" using Suc.prems(2) by (auto simp: cdc_cut_Some)
    then show ?thesis
      using Suc.IH [of "drop i buf" "c0\<lparr>cdc_st := cdc_reset\<rparr>"] Suc.prems Some
      by (simp add: cdc_decode_eof_def cdc_decode_Some [OF Suc.prems(1) Some] cdc_frames_cut)
  qed
qed simp

section \<open>Properties\<close>

lemma cdc_frames_concat: "0 < cdc_min_size c \<Longrightarrow> concat (cdc_frames c bs) = bs"
proof (induction c bs rule: cdc_frames.induct)
  case (1 c bs)
  show ?case
  proof (cases "cdc_cut c bs")
    case None
    then show ?thesis by (simp add: cdc_frames_no_cut)
  next
    case (Some i)
    then have "bs \<noteq> []" "i \<noteq> 0" using 1(2) by (auto simp: cdc_cut_Some)
    from 1(1) [OF this(1) Some this(2) 1(2)] show ?thesis
      by (simp add: cdc_frames_cut [OF Some 1(2)])
  qed
qed

lemma cdc_cut_le_max:
  assumes "cdc_cut c bs = Some i" "cdc_min_size c \<le> cdc_max_size c"
  shows "i \<le> cdc_max_size c"
proof (rule ccontr)
  assume "\<not> i \<le> cdc_max_size c"
  then have "\<not> cdc_boundary c bs (cdc_max_size c)" using assms by (simp add: cdc_cut_Some)
  then show False by (simp add: cdc_boundary_def)
qed

lemma cdc_no_cut_le_max:
  assumes "cdc_cut c bs = None" "cdc_min_size c \<le> cdc_max_size c"
  shows "length bs \<le> cdc_max_size c"
proof (rule ccontr)
  assume "\<not> length bs \<le> cdc_max_size c"
  then have "\<not> cdc_boundary c bs (cdc_max_size c)" using assms by (simp add: cdc_cut_None)
  then show False by (simp add: cdc_boundary_def)
qed

lemma cdc_frames_sizes:
  assumes "0 < cdc_min_size c" "cdc_min_size c \<le> cdc_max_size c"
  shows "(\<forall>f \<in> set (cdc_frames c bs). 0 < length f \<and> length f \<le> cdc_max_size c) \<and>
         (\<forall>f \<in> set (butlast (cdc_frames c bs)). cdc_min_size c \<le> length f)"
  using assms
proof (induction c bs rule: cdc_frames.induct)
  case (1 c bs)
  show ?case
  proof (cases "cdc_cut c bs")
    case None
    then show ?thesis using cdc_no_cut_le_max [OF None 1(3)] by (simp add: cdc_frames_no_cut)
  next
    case (Some i)
    then have i: "cdc_min_size c \<le> i" "i < length bs" "i \<le> cdc_max_size c"
      using cdc_cut_le_max [OF Some 1(3)] by (simp_all add: cdc_cut_Some)
    then have "bs \<noteq> []" "i \<noteq> 0" using 1(2) by auto
    from 1(1) [OF this(1) Some this(2) 1(2,3)] show ?thesis
      using i 1(2) \<open>bs \<noteq> []\<close> by (simp add: cdc_frames_cut [OF Some 1(2)])
  qed
qed

lemma fast_cdc_new_sizes:
  "fast_cdc_new mn av mx = Some c \<Longrightarrow> cdc_min_size c = mn \<and> cdc_max_size c = mx \<and> mn < mx"
  by (auto simp: fast_cdc_new_def Let_def split: if_splits)

lemma cdc_table_high_bit: "\<forall>x \<in> set cdc_table. x < 2 ^ 31"
  by code_simp

lemma cdc_table_length: "length cdc_table = 256"
  by code_simp

lemma cdc_roll_exact: "unat (cdc_roll h b) = unat h div 2 + unat (cdc_table ! unat b)"
proof -
  have "unat b < 2 ^ 8" using unsigned_less [of b] by simp
  then have "cdc_table ! unat b < 2 ^ 31" using cdc_table_high_bit cdc_table_length by simp
  then have t: "unat (cdc_table ! unat b) < 2 ^ 31" by (simp add: word_less_nat_alt)
  have d: "unat (drop_bit 1 h) = unat h div 2" by (subst unat_drop_bit_eq) (simp add: drop_bit_eq_div)
  have "unat h < 2 ^ 32" using unsigned_less [of h] by simp
  then have "unat (drop_bit 1 h) + unat (cdc_table ! unat b) < 2 ^ LENGTH(32)" using t d by simp
  then show ?thesis unfolding cdc_roll_def d [symmetric] by (rule unat_add_lem [THEN iffD1])
qed

text \<open>
  C21. The frames do not depend on how the input is delivered. However the input arrives in pieces
  and however often \<open>decode\<close> is called in between, the frames emitted so far and those that
  \<open>decode_eof\<close> emits afterwards are the frames the reference cuts from the whole input, and the loop
  over \<open>decode_eof\<close> ends.
\<close>

theorem cdc_delivery_independent:
  assumes "fast_cdc_new mn av mx = Some c0" "0 < mn"
    and "cdc_run c0 inp fs buf c" "length buf < n"
  shows "\<exists>gs. cdc_finish n c buf = Some gs \<and> fs @ gs = cdc_frames c0 inp"
proof -
  have m: "0 < cdc_min_size c0" using fast_cdc_new_sizes [OF assms(1)] assms(2) by simp
  note inv = cdc_run_inv [OF assms(3) m]
  have "cdc_frames c0 inp = fs @ cdc_frames c0 buf" using inv [THEN conjunct2, rule_format, of "[]"] by simp
  then show ?thesis using cdc_finish_frames [OF inv [THEN conjunct1] m assms(4)] by simp
qed

definition sample_cdc :: "nat \<Rightarrow> u32 \<Rightarrow> fast_cdc" where
  "sample_cdc p h =
     \<lparr>cdc_min_size = 2, cdc_avg_size = 4, cdc_max_size = 8, cdc_norm_size = 1, cdc_mask_easy = 1,
      cdc_mask_hard = 7, cdc_st = \<lparr>cdc_hash = h, cdc_position = p\<rparr>\<rparr>"

lemma sample_cdc_new: "fast_cdc_new 2 4 8 = Some (sample_cdc 0 0)"
  by code_simp

lemma sample_cdc_run: "cdc_run (sample_cdc 0 0) [5, 6, 7, 8, 9, 10] [[5, 6, 7]] [8, 9, 10] (sample_cdc 0 0)"
proof -
  have "cdc_clone (sample_cdc 0 0) = sample_cdc 0 0" by code_simp
  then have "cdc_run (sample_cdc 0 0) ([] @ [5, 6, 7]) [] ([] @ [5, 6, 7]) (sample_cdc 0 0)"
    using run_start [of "sample_cdc 0 0"] run_feed by metis
  moreover have "cdc_decode (sample_cdc 0 0) ([] @ [5, 6, 7]) = (None, sample_cdc 3 1154184075, [5, 6, 7])"
    by code_simp
  ultimately have "cdc_run (sample_cdc 0 0) [5, 6, 7] [] [5, 6, 7] (sample_cdc 3 1154184075)"
    using run_none by fastforce
  from run_feed [OF this, of "[8, 9, 10]"]
  have "cdc_run (sample_cdc 0 0) [5, 6, 7, 8, 9, 10] [] [5, 6, 7, 8, 9, 10] (sample_cdc 3 1154184075)"
    by simp
  moreover have "cdc_decode (sample_cdc 3 1154184075) [5, 6, 7, 8, 9, 10] =
      (Some [5, 6, 7], sample_cdc 0 0, [8, 9, 10])"
    by code_simp
  ultimately show ?thesis using run_frame by fastforce
qed

lemma sample_cdc_finish: "cdc_finish 4 (sample_cdc 0 0) [8, 9, 10] = Some [[8, 9, 10]]"
  by code_simp

theorem cdc_delivery_independent_witness:
  "\<exists>gs. cdc_finish 4 (sample_cdc 0 0) [8, 9, 10] = Some gs \<and>
        [[5, 6, 7]] @ gs = cdc_frames (sample_cdc 0 0) [5, 6, 7, 8, 9, 10]"
  by (rule cdc_delivery_independent [OF sample_cdc_new _ sample_cdc_run]) simp_all

text \<open>
  C39. Bounds of the chunker. The frames put together are the input; none is empty or longer than
  the maximal size, and only the last may be shorter than the minimal size. The addition in the
  rolling hash never wraps around.
\<close>

theorem cdc_frame_bounds:
  assumes "fast_cdc_new mn av mx = Some c0" "0 < mn"
    and "cdc_run c0 inp fs buf c" "cdc_finish n c buf = Some gs" "length buf < n"
  shows "concat (fs @ gs) = inp \<and>
         (\<forall>f \<in> set (fs @ gs). 0 < length f \<and> length f \<le> mx) \<and>
         (\<forall>f \<in> set (butlast (fs @ gs)). mn \<le> length f) \<and>
         (\<forall>h b. unat (cdc_roll h b) = unat h div 2 + unat (cdc_table ! unat b))"
proof -
  have m: "cdc_min_size c0 = mn" "cdc_max_size c0 = mx" "mn < mx"
    using fast_cdc_new_sizes [OF assms(1)] by simp_all
  have p: "0 < cdc_min_size c0" using m assms(2) by simp
  note inv = cdc_run_inv [OF assms(3) p]
  have "cdc_frames c0 inp = fs @ cdc_frames c0 buf" using inv [THEN conjunct2, rule_format, of "[]"] by simp
  then have "fs @ gs = cdc_frames c0 inp"
    using cdc_finish_frames [OF inv [THEN conjunct1] p assms(5)] assms(4) by simp
  then show ?thesis
    using cdc_frames_concat [OF p, of inp] cdc_frames_sizes [OF p, of inp] m cdc_roll_exact by simp
qed

theorem cdc_frame_bounds_witness:
  "cdc_run (sample_cdc 0 0) [5, 6, 7, 8, 9, 10] [[5, 6, 7]] [8, 9, 10] (sample_cdc 0 0) \<and>
   cdc_finish 4 (sample_cdc 0 0) [8, 9, 10] = Some [[8, 9, 10]] \<and>
   concat ([[5, 6, 7]] @ [[8, 9, 10]]) = ([5, 6, 7, 8, 9, 10] :: bytes) \<and>
   list_all (\<lambda>f. 0 < length f \<and> length f \<le> 8) ([[5, 6, 7]] @ [[8, 9, 10]] :: bytes list) \<and>
   list_all (\<lambda>f. 2 \<le> length f) (butlast ([[5, 6, 7]] @ [[8, 9, 10]] :: bytes list)) \<and>
   unat (cdc_roll 9 5) = unat (9 :: u32) div 2 + unat (cdc_table ! unat (5 :: u8))"
  using cdc_frame_bounds [OF sample_cdc_new _ sample_cdc_run sample_cdc_finish]
    sample_cdc_run sample_cdc_finish
  unfolding list_all_iff by auto

end
