(* ===== verification/Store_Trait.thy ===== *)
theory Store_Trait
  imports Buf_Channel
begin

text \<open>
  The interface of all stores (nativelink-util/src/store_trait.rs), with the hashers they use
  (nativelink-util/src/digest_hasher.rs). A driver is a record of the methods a store implements,
  over the state of that store; the methods that the trait gives to every store are defined from
  them. The hash functions are those of the \<open>sha2\<close> and \<open>blake3\<close> crates, a parameter \<open>H\<close>.
\<close>

section \<open>Hashers\<close>

record digest_hasher =
  dh_hashed_size :: u64
  dh_func :: digest_hasher_func
  dh_input :: bytes

type_synonym hash_funcs = "digest_hasher_func \<Rightarrow> bytes \<Rightarrow> u8 list"

definition hasher_new :: "digest_hasher_func \<Rightarrow> digest_hasher" where
  "hasher_new f = \<lparr>dh_hashed_size = 0, dh_func = f, dh_input = []\<rparr>"

definition hasher_update :: "bytes \<Rightarrow> digest_hasher \<Rightarrow> digest_hasher" where
  "hasher_update input h =
     h\<lparr>dh_hashed_size := dh_hashed_size h + of_nat (length input), dh_input := dh_input h @ input\<rparr>"

text \<open>Only the SHA-256 hasher forgets its input.\<close>

definition finalize_digest :: "hash_funcs \<Rightarrow> digest_hasher \<Rightarrow> digest_info \<times> digest_hasher" where
  "finalize_digest H h =
     (DigestInfo (H (dh_func h) (dh_input h)) (dh_hashed_size h),
      case dh_func h of Sha256 \<Rightarrow> h\<lparr>dh_input := []\<rparr> | Blake3 \<Rightarrow> h)"

section \<open>Keys\<close>

datatype upload_size_info = ExactSize u64 | MaxSize u64

datatype store_optimizations = FileUpdates | NoopUpdates | NoopDownloads

datatype store_key = Str string | Digest digest_info

definition str_bytes :: "string \<Rightarrow> bytes" where
  "str_bytes s = map (\<lambda>c. of_nat (of_char c)) s"

definition into_digest :: "hash_funcs \<Rightarrow> store_key \<Rightarrow> digest_info" where
  "into_digest H key =
     (case key of
        Digest digest \<Rightarrow> digest
      | Str s \<Rightarrow> fst (finalize_digest H (hasher_update (str_bytes s) (hasher_new Blake3))))"

instantiation store_key :: linorder
begin

fun less_eq_store_key :: "store_key \<Rightarrow> store_key \<Rightarrow> bool" where
  "less_eq_store_key (Str a) (Str b) = (a \<le> b)"
| "less_eq_store_key (Digest a) (Digest b) = (a \<le> b)"
| "less_eq_store_key (Str a) (Digest b) = True"
| "less_eq_store_key (Digest a) (Str b) = False"

definition less_store_key :: "store_key \<Rightarrow> store_key \<Rightarrow> bool" where
  "less_store_key a b \<longleftrightarrow> a \<le> b \<and> \<not> b \<le> a"

instance
proof
  fix x y z :: store_key
  show "x < y \<longleftrightarrow> x \<le> y \<and> \<not> y \<le> x" by (rule less_store_key_def)
  show "x \<le> x" by (cases x) auto
  show "x \<le> y \<Longrightarrow> y \<le> z \<Longrightarrow> x \<le> z" by (cases x; cases y; cases z) auto
  show "x \<le> y \<Longrightarrow> y \<le> x \<Longrightarrow> x = y" by (cases x; cases y) auto
  show "x \<le> y \<or> y \<le> x" by (cases x; cases y) auto
qed

end

section \<open>Drivers\<close>

text \<open>
  \<open>sd_has\<close> fills the slice of results it is given; \<open>sd_update\<close> owns its reader; \<open>sd_get_part\<close> writes to a
  writer that stays with the caller. \<open>sd_optimized_for key\<close> is \<open>inner_store(key).optimized_for\<close>.
\<close>

record 's store_driver =
  sd_has :: "store_key list \<Rightarrow> u64 option list \<Rightarrow> 's \<Rightarrow> unit result \<times> u64 option list \<times> 's"
  sd_update :: "store_key \<Rightarrow> read_half \<Rightarrow> upload_size_info \<Rightarrow> 's \<Rightarrow> unit result \<times> 's"
  sd_get_part :: "store_key \<Rightarrow> write_half \<Rightarrow> u64 \<Rightarrow> u64 option \<Rightarrow> 's \<Rightarrow> unit result \<times> write_half \<times> 's"
  sd_optimized_for :: "store_key option \<Rightarrow> store_optimizations \<Rightarrow> bool"

definition store_has :: "'s store_driver \<Rightarrow> store_key \<Rightarrow> 's \<Rightarrow> u64 option result \<times> 's" where
  "store_has D key s =
     (case sd_has D [key] [None] s of
        (Inl e, _, s') \<Rightarrow> (Err e, s')
      | (Inr _, results, s') \<Rightarrow> (Ok (hd results), s'))"

definition store_has_many :: "'s store_driver \<Rightarrow> store_key list \<Rightarrow> 's \<Rightarrow> u64 option list result \<times> 's" where
  "store_has_many D keys s =
     (case sd_has D keys (replicate (length keys) None) s of
        (Inl e, _, s') \<Rightarrow> (Err e, s')
      | (Inr _, results, s') \<Rightarrow> (Ok results, s'))"

text \<open>
  The channel has room for the only message, so that the sender is done before the store is asked.
\<close>

definition update_oneshot :: "'s store_driver \<Rightarrow> store_key \<Rightarrow> bytes \<Rightarrow> 's \<Rightarrow> unit result \<times> 's" where
  "update_oneshot D key d s =
     sd_update D key (new_reader (if d = [] then [] else [d]) True) (ExactSize (of_nat (length d))) s"

definition store_get :: "'s store_driver \<Rightarrow> store_key \<Rightarrow> write_half \<Rightarrow> 's \<Rightarrow> unit result \<times> write_half \<times> 's" where
  "store_get D key w s = sd_get_part D key w 0 None s"

definition get_part_unchunked ::
  "'s store_driver \<Rightarrow> store_key \<Rightarrow> u64 \<Rightarrow> u64 option \<Rightarrow> 's \<Rightarrow> bytes result \<times> 's" where
  "get_part_unchunked D key offset len s =
     (let (get_part_res, tx, s') = sd_get_part D key (new_writer None) offset len s;
          (data_res, _) = consume (map_option unat len) (reader_of tx)
      in (result_merge (err_tip ''Failed to get_part in get_part_unchunked'' get_part_res)
            (err_tip ''Failed to read stream to completion in get_part_unchunked'' data_res), s'))"

datatype health_status =
  Health_Ok string
| Health_Initializing string
| Health_Warning string
| Health_Failed string

text \<open>The health check; its random data, which depends on the names only, is an argument.\<close>

definition check_health ::
  "hash_funcs \<Rightarrow> digest_hasher_func \<Rightarrow> bytes \<Rightarrow> 's store_driver \<Rightarrow> 's \<Rightarrow> health_status \<times> 's" where
  "check_health H f digest_data D s =
     (let digest_data_len = of_nat (length digest_data);
          key = Digest (fst (finalize_digest H (hasher_update digest_data (hasher_new f))))
      in case update_oneshot D key digest_data s of
           (Inl _, s1) \<Rightarrow> (Health_Failed ''Store.update_oneshot() failed'', s1)
         | (Inr _, s1) \<Rightarrow>
             (case store_has D key s1 of
                (Inl _, s2) \<Rightarrow> (Health_Failed ''Store.has() failed'', s2)
              | (Inr None, s2) \<Rightarrow> (Health_Failed ''Store.has() size not found'', s2)
              | (Inr (Some n), s2) \<Rightarrow>
                  if n \<noteq> digest_data_len then (Health_Failed ''Store.has() size mismatch'', s2)
                  else (case get_part_unchunked D key 0 (Some digest_data_len) s2 of
                          (Inl _, s3) \<Rightarrow> (Health_Failed ''Store.get_part_unchunked() failed'', s3)
                        | (Inr b, s3) \<Rightarrow>
                            if b \<noteq> digest_data then (Health_Failed ''Store.get_part_unchunked() data mismatch'', s3)
                            else (Health_Ok ''Successfully store health check'', s3))))"

section \<open>The empty blob\<close>

text \<open>
  nativelink-store/src/cas_utils.rs: the SHA-256 and the BLAKE3 digest of no bytes. The arrays of 32
  bytes are written as one number, the first byte being the highest.
\<close>

definition hash_bytes :: "256 word \<Rightarrow> u8 list" where
  "hash_bytes w = map (\<lambda>i. ucast (drop_bit (8 * (31 - i)) w)) [0..<32]"

definition ZERO_BYTE_DIGESTS :: "digest_info list" where
  "ZERO_BYTE_DIGESTS =
     [DigestInfo (hash_bytes 0xe3b0c44298fc1c149afbf4c8996fb92427ae41e4649b934ca495991b7852b855) 0,
      DigestInfo (hash_bytes 0xaf1349b9f5f9a1a6a0404dea36dcc9499bcb25c9adc112b7cc9a93cae41f3262) 0]"

definition is_zero_digest :: "store_key \<Rightarrow> bool" where
  "is_zero_digest key =
     (case key of
        Digest digest \<Rightarrow> size_bytes digest = 0 \<and> digest \<in> set ZERO_BYTE_DIGESTS
      | Str _ \<Rightarrow> False)"

section \<open>What a store promises\<close>

text \<open>
  A store is a map from keys to blobs that may forget entries at any time. Its methods run in an
  environment \<open>e\<close> (the time, and when receivers hang up). The empty blob is always there.
\<close>

type_synonym blob_map = "store_key \<Rightarrow> bytes option"

definition slice :: "u64 \<Rightarrow> u64 option \<Rightarrow> bytes \<Rightarrow> bytes" where
  "slice offset len d = (case len of None \<Rightarrow> drop (unat offset) d | Some n \<Rightarrow> take (unat n) (drop (unat offset) d))"

definition put_blob :: "store_key \<Rightarrow> bytes \<Rightarrow> blob_map \<Rightarrow> blob_map" where
  "put_blob k d m = m(k \<mapsto> if is_zero_digest k then [] else d)"

definition blob_fits :: "bytes \<Rightarrow> bool" where
  "blob_fits d \<longleftrightarrow> length d < 2 ^ 64 - 1"

definition writer_ready :: "write_half \<Rightarrow> bool" where
  "writer_ready w \<longleftrightarrow> wh_open w \<and> \<not> wh_eof_sent w"

definition wrote :: "write_half \<Rightarrow> write_half \<Rightarrow> bytes \<Rightarrow> bool" where
  "wrote w w' d \<longleftrightarrow> (\<exists>cs. wh_sent w' = wh_sent w @ cs \<and> [] \<notin> set cs \<and> concat cs = d)"

locale blob_store =
  fixes ops :: "'e \<Rightarrow> 's store_driver" and ok :: "'s \<Rightarrow> bool" and view :: "'s \<Rightarrow> blob_map"
  assumes view_fits: "ok s \<Longrightarrow> view s k = Some d \<Longrightarrow> blob_fits d"
    and has_law: "ok s \<Longrightarrow> sd_has (ops e) ks rs s = (r, rs', s') \<Longrightarrow> length rs = length ks \<Longrightarrow>
      ok s' \<and> view s' \<subseteq>\<^sub>m view s \<and>
      (r = Ok () \<longrightarrow> list_all2 (\<lambda>k x. \<forall>n. x = Some n \<longrightarrow> (\<exists>d. view s k = Some d \<and> n = of_nat (length d))) ks rs')"
    and update_law: "ok s \<Longrightarrow> reader_ok rd \<Longrightarrow> blob_fits (rh_data rd) \<Longrightarrow>
      sd_update (ops e) k rd sz s = (r, s') \<Longrightarrow>
      ok s' \<and> (rh_eof_sent rd \<and> view s' \<subseteq>\<^sub>m put_blob k (rh_data rd) (view s)
               \<or> r \<noteq> Ok () \<and> view s' \<subseteq>\<^sub>m view s)"
    and get_law: "ok s \<Longrightarrow> writer_ready w \<Longrightarrow> sd_get_part (ops e) k w off len s = (r, w', s') \<Longrightarrow>
      ok s' \<and> view s' \<subseteq>\<^sub>m view s \<and> (r = Ok () \<longrightarrow> wh_eof_sent w') \<and>
      (wh_eof_sent w' \<longrightarrow> (\<exists>d. view s k = Some d \<and> wrote w w' (slice off len d)))"

text \<open>Calls of a client, and the answers: \<open>None\<close> and \<open>False\<close> stand for errors.\<close>

datatype store_call =
  Call_Has "store_key list"
| Call_Update store_key "bytes list" bool upload_size_info
| Call_Get store_key u64 "u64 option"

datatype store_answer = Ans_Has "u64 option list option" | Ans_Update bool | Ans_Get "bytes option"

definition to_option :: "'a result \<Rightarrow> 'a option" where
  "to_option r = (case r of Inl _ \<Rightarrow> None | Inr v \<Rightarrow> Some v)"

fun store_exec :: "'s store_driver \<Rightarrow> store_call \<Rightarrow> 's \<Rightarrow> store_answer \<times> 's" where
  "store_exec D (Call_Has ks) s = (let (r, s') = store_has_many D ks s in (Ans_Has (to_option r), s'))"
| "store_exec D (Call_Update k cs eof sz) s =
     (let (r, s') = sd_update D k (new_reader cs eof) sz s in (Ans_Update (is_ok r), s'))"
| "store_exec D (Call_Get k off len) s =
     (let (r, s') = get_part_unchunked D k off len s in (Ans_Get (to_option r), s'))"

fun store_run :: "('e \<Rightarrow> 's store_driver) \<Rightarrow> ('e \<times> store_call) list \<Rightarrow> 's \<Rightarrow> store_answer list \<times> 's" where
  "store_run ops [] s = ([], s)"
| "store_run ops ((e, call) # calls) s =
     (let (a, s1) = store_exec (ops e) call s; (as, s2) = store_run ops calls s1 in (a # as, s2))"

fun call_ok :: "store_call \<Rightarrow> bool" where
  "call_ok (Call_Update k cs eof sz) \<longleftrightarrow> [] \<notin> set cs \<and> blob_fits (concat cs)"
| "call_ok _ \<longleftrightarrow> True"

text \<open>The specification: one step of a map that may forget.\<close>

fun blob_step :: "blob_map \<Rightarrow> store_call \<Rightarrow> store_answer \<Rightarrow> blob_map \<Rightarrow> bool" where
  "blob_step m (Call_Has ks) (Ans_Has r) m' \<longleftrightarrow> m' \<subseteq>\<^sub>m m \<and>
     (\<forall>rs. r = Some rs \<longrightarrow>
        list_all2 (\<lambda>k x. \<forall>n. x = Some n \<longrightarrow> (\<exists>d. m k = Some d \<and> n = of_nat (length d))) ks rs)"
| "blob_step m (Call_Update k cs eof sz) (Ans_Update b) m' \<longleftrightarrow>
     eof \<and> m' \<subseteq>\<^sub>m put_blob k (concat cs) m \<or> \<not> b \<and> m' \<subseteq>\<^sub>m m"
| "blob_step m (Call_Get k off len) (Ans_Get r) m' \<longleftrightarrow> m' \<subseteq>\<^sub>m m \<and>
     (\<forall>b. r = Some b \<longrightarrow> (\<exists>d. m k = Some d \<and> b = slice off len d))"
| "blob_step _ _ _ _ \<longleftrightarrow> False"

inductive blob_run :: "blob_map \<Rightarrow> store_call list \<Rightarrow> store_answer list \<Rightarrow> blob_map \<Rightarrow> bool" where
  run_nil: "blob_run m [] [] m"
| run_cons: "blob_step m c a m1 \<Longrightarrow> blob_run m1 cs as m2 \<Longrightarrow> blob_run m (c # cs) (a # as) m2"

lemma slice_le: "length (slice off len d) \<le> limit_of (map_option unat len) \<or> \<not> blob_fits d"
  by (cases len) (auto simp: slice_def blob_fits_def)

context blob_store
begin

lemma get_part_unchunked_law:
  assumes "ok s" "get_part_unchunked (ops e) k off len s = (r, s')"
  shows "ok s' \<and> view s' \<subseteq>\<^sub>m view s \<and> (\<forall>b. r = Ok b \<longrightarrow> (\<exists>d. view s k = Some d \<and> b = slice off len d))"
proof -
  obtain g w' s1 where g: "sd_get_part (ops e) k (new_writer None) off len s = (g, w', s1)"
    by (metis prod_cases3)
  note law = get_law [OF assms(1) _ g]
  have w: "writer_ready (new_writer None)" by (simp add: writer_ready_def new_writer_def)
  have "\<exists>d. view s k = Some d \<and> b = slice off len d" if b: "r = Ok b" for b
  proof -
    have gok: "g = Ok ()" and c: "fst (consume (map_option unat len) (reader_of w')) = Ok b"
      using assms(2) b g by (cases g; auto simp: get_part_unchunked_def split_beta result_merge_def split: sum.splits)+
    then obtain d where d: "view s k = Some d" "wrote (new_writer None) w' (slice off len d)" "wh_eof_sent w'"
      using law w by auto
    then have rd: "reader_ok (reader_of w')" "rh_data (reader_of w') = slice off len d" "rh_eof_sent (reader_of w')"
      by (auto simp: wrote_def reader_of_def new_writer_def)
    have "length (slice off len d) \<le> limit_of (map_option unat len)"
      using slice_le view_fits [OF assms(1) d(1)] by auto
    then show ?thesis using consume_ok [OF rd(1,3), of "map_option unat len"] c d(1) rd(2) by auto
  qed
  then show ?thesis using law w assms(2) g by (auto simp: get_part_unchunked_def split_beta)
qed

lemma exec_step:
  assumes "ok s" "call_ok c" "store_exec (ops e) c s = (a, s')"
  shows "ok s' \<and> blob_step (view s) c a (view s')"
proof (cases c)
  case (Call_Has ks)
  obtain r rs s1 where h: "sd_has (ops e) ks (replicate (length ks) None) s = (r, rs, s1)" by (metis prod_cases3)
  with has_law [OF assms(1) h] assms(3) Call_Has show ?thesis
    by (cases r) (auto simp: store_has_many_def to_option_def)
next
  case (Call_Update k cs eof sz)
  obtain r s1 where u: "sd_update (ops e) k (new_reader cs eof) sz s = (r, s1)" by fastforce
  with update_law [OF assms(1) _ _ u] assms(2,3) Call_Update show ?thesis
    by (cases r) (auto split: if_splits)
next
  case (Call_Get k off len)
  obtain r s1 where u: "get_part_unchunked (ops e) k off len s = (r, s1)" by fastforce
  with get_part_unchunked_law [OF assms(1) u] assms(3) Call_Get show ?thesis
    by (cases r) (auto simp: to_option_def)
qed

lemma run_refines:
  assumes "ok s" "list_all (\<lambda>p. call_ok (snd p)) calls" "store_run ops calls s = (as, s')"
  shows "ok s' \<and> blob_run (view s) (map snd calls) as (view s')"
  using assms
proof (induction calls arbitrary: s as s')
  case Nil
  then show ?case by (simp add: run_nil)
next
  case (Cons p calls)
  obtain e c where p: "p = (e, c)" by fastforce
  obtain a s1 where x: "store_exec (ops e) c s = (a, s1)" by fastforce
  obtain as1 s2 where y: "store_run ops calls s1 = (as1, s2)" by fastforce
  from exec_step [OF Cons.prems(1) _ x] Cons.prems(2) p have "ok s1" "blob_step (view s) c a (view s1)" by auto
  with Cons.IH [OF _ _ y] Cons.prems x y p show ?case by (auto intro: run_cons)
qed

end

end
