(* ===== verification/Memory_Store.thy ===== *)
theory Memory_Store
  imports Store_Trait Evicting_Map
begin

text \<open>
  The in-memory store (nativelink-store/src/memory_store.rs), an evicting map from keys to bytes, and
  the store that keeps nothing (noop_store.rs). Both satisfy the laws of \<open>blob_store\<close>; the environment
  of the first is the time, of the second nothing.
\<close>

section \<open>The memory store\<close>

definition bytes_wrapper :: "bytes len_entry" where
  "bytes_wrapper = \<lparr>entry_len = (\<lambda>d. of_nat (length d)), entry_touch = (\<lambda>_. True)\<rparr>"

type_synonym 'c memory_state = "(store_key, bytes, 'c) em_state"
type_synonym 'c memory_lru = "(store_key, bytes, 'c) em_lru"

definition memory_store_new :: "'c memory_lru \<Rightarrow> 'c memory_state" where
  "memory_store_new L = em_state_new L"

definition memory_remove_entry ::
  "'c memory_lru \<Rightarrow> em_config \<Rightarrow> u64 \<Rightarrow> store_key \<Rightarrow> 'c memory_state \<Rightarrow> bool \<times> 'c memory_state" where
  "memory_remove_entry L cfg now key s = em_remove L bytes_wrapper cfg now key s"

definition memory_has ::
  "'c memory_lru \<Rightarrow> em_config \<Rightarrow> u64 \<Rightarrow> store_key list \<Rightarrow> u64 option list \<Rightarrow> 'c memory_state
     \<Rightarrow> unit result \<times> u64 option list \<times> 'c memory_state" where
  "memory_has L cfg now keys results s =
     (let (rs, s') = sizes_for_keys L bytes_wrapper cfg now (take (length results) keys) False s
      in (Ok (), map2 (\<lambda>key r. if is_zero_digest key then Some 0 else r) (take (length results) keys) rs
                   @ drop (length keys) results, s'))"

definition memory_list ::
  "'c memory_lru \<Rightarrow> store_key bound \<Rightarrow> store_key bound \<Rightarrow> (store_key \<Rightarrow> 'h \<Rightarrow> bool \<times> 'h) \<Rightarrow> 'h
     \<Rightarrow> 'c memory_state \<Rightarrow> (u64 result \<times> 'h \<times> 'c memory_state) option" where
  "memory_list L lo hi handler h s =
     map_option (\<lambda>(iterations, h', s'). (Ok iterations, h', s')) (em_range L lo hi (\<lambda>key _. handler key) h s)"

definition memory_update ::
  "'c memory_lru \<Rightarrow> em_config \<Rightarrow> u64 \<Rightarrow> store_key \<Rightarrow> read_half \<Rightarrow> upload_size_info \<Rightarrow> 'c memory_state
     \<Rightarrow> unit result \<times> 'c memory_state" where
  "memory_update L cfg now key reader size_info s =
     (case err_tip ''Failed to collect all bytes from reader in memory_store::update'' (fst (consume None reader)) of
        Inl e \<Rightarrow> (Err e, s)
      | Inr final_buffer \<Rightarrow> (Ok (), snd (em_insert L bytes_wrapper cfg now key final_buffer s)))"

definition memory_get_part ::
  "'c memory_lru \<Rightarrow> em_config \<Rightarrow> u64 \<Rightarrow> store_key \<Rightarrow> write_half \<Rightarrow> u64 \<Rightarrow> u64 option \<Rightarrow> 'c memory_state
     \<Rightarrow> unit result \<times> write_half \<times> 'c memory_state" where
  "memory_get_part L cfg now key writer offset len s =
     (if is_zero_digest key
      then let (r, w) = send_eof writer
           in (err_tip ''Failed to send zero EOF in filesystem store get_part'' r, w, s)
      else case em_get L bytes_wrapper cfg now key s of
             (None, s') \<Rightarrow> (opt_err_tip_with_code (\<lambda>_. (NotFound, ''Key not found'')) None, writer, s')
           | (Some v, s') \<Rightarrow>
               (let default_len = length v - unat offset;
                    n = min (case len of None \<Rightarrow> default_len | Some l \<Rightarrow> unat l) default_len;
                    (r, w) = (if 0 < n then send (take n (drop (unat offset) v)) writer else (Ok (), writer))
                in case err_tip ''Failed to write data in memory store'' r of
                     Inl e \<Rightarrow> (Err e, w, s')
                   | Inr _ \<Rightarrow>
                       (let (r', w') = send_eof w
                        in (err_tip ''Failed to write EOF in memory store get_part'' r', w', s'))))"

definition memory_store :: "'c memory_lru \<Rightarrow> em_config \<Rightarrow> u64 \<Rightarrow> 'c memory_state store_driver" where
  "memory_store L cfg now =
     \<lparr>sd_has = memory_has L cfg now, sd_update = memory_update L cfg now,
      sd_get_part = memory_get_part L cfg now, sd_optimized_for = (\<lambda>_ _. False)\<rparr>"

section \<open>The noop store\<close>

definition noop_has :: "store_key list \<Rightarrow> u64 option list \<Rightarrow> unit \<Rightarrow> unit result \<times> u64 option list \<times> unit" where
  "noop_has keys results s = (Ok (), map (\<lambda>_. None) results, s)"

definition noop_update :: "store_key \<Rightarrow> read_half \<Rightarrow> upload_size_info \<Rightarrow> unit \<Rightarrow> unit result \<times> unit" where
  "noop_update key reader size_info s = (err_tip ''In NoopStore::update'' (fst (drain reader)), s)"

definition noop_get_part ::
  "store_key \<Rightarrow> write_half \<Rightarrow> u64 \<Rightarrow> u64 option \<Rightarrow> unit \<Rightarrow> unit result \<times> write_half \<times> unit" where
  "noop_get_part key writer offset len s = (Err (make_err NotFound ''Not found in noop store''), writer, s)"

definition noop_optimized_for :: "store_optimizations \<Rightarrow> bool" where
  "noop_optimized_for opt \<longleftrightarrow> opt = NoopUpdates \<or> opt = NoopDownloads"

definition noop_store :: "unit store_driver" where
  "noop_store = \<lparr>sd_has = noop_has, sd_update = noop_update, sd_get_part = noop_get_part,
     sd_optimized_for = (\<lambda>_. noop_optimized_for)\<rparr>"

section \<open>The laws\<close>

lemma map_le_of_mset:
  assumes "mset xs \<subseteq># mset ys" "distinct (map fst ys)"
  shows "map_of xs \<subseteq>\<^sub>m map_of ys"
proof -
  have "set xs \<subseteq> set ys" using set_mset_mono [OF assms(1)] by simp
  then have "map_of ys k = Some v" if "map_of xs k = Some v" for k v
    using map_of_SomeD [OF that] assms(2) by (auto simp: map_of_eq_Some_iff)
  then show ?thesis by (auto simp: map_le_def dom_def)
qed

lemma map_of_put_front: "map_of ((k, v) # drop_key k xs) = (map_of xs)(k \<mapsto> v)"
  by (simp add: fun_eq_iff)

definition memory_view :: "'c memory_lru \<Rightarrow> 'c memory_state \<Rightarrow> blob_map" where
  "memory_view L s k = (if is_zero_digest k then Some [] else map_of (contents L s) k)"

definition memory_ok :: "'c memory_lru \<Rightarrow> 'c memory_state \<Rightarrow> bool" where
  "memory_ok L s \<longleftrightarrow> em_inv L bytes_wrapper s \<and> (\<forall>(k, d) \<in> set (contents L s). blob_fits d)"

context evicting_map
begin

lemma keeps_contents:
  assumes "em_keeps L E s s'"
  shows "map_of (contents L s') \<subseteq>\<^sub>m map_of (contents L s)" "set (contents L s') \<subseteq> set (contents L s)"
  using map_le_of_mset [OF em_keepsD(4) [OF assms] contents_distinct] set_mset_mono [OF em_keepsD(4) [OF assms]]
  by simp_all

lemma size_of_entry_sound:
  assumes "fst (size_of_entry L E cfg now pk n k s) = Some x"
  shows "\<exists>v. map_of (contents L s) k = Some v \<and> x = entry_len E v"
proof -
  obtain e c where ec: "(if pk then (lru_peek L k (lru s), lru s) else lru_get L k (lru s)) = (e, c)"
    by (cases "if pk then (lru_peek L k (lru s), lru s) else lru_get L k (lru s)")
  have e: "e = map_of (lru_iter L (lru s)) k"
    using ec get_value [of k "lru s"] by (auto simp: peek_value split: if_splits)
  show ?thesis using assms e unfolding size_of_entry_def ec contents_lookup
    by (auto simp: Let_def split: option.splits if_splits prod.splits)
qed

lemma sizes_for_keys_loop_sound:
  assumes "map_of (contents L s) \<subseteq>\<^sub>m m"
  shows "list_all2 (\<lambda>k x. \<forall>n. x = Some n \<longrightarrow> (\<exists>v. m k = Some v \<and> n = entry_len E v)) keys
           (fst (sizes_for_keys_loop L E cfg now pk n keys s))"
  using assms
proof (induction keys arbitrary: s)
  case (Cons k keys)
  have "map_of (contents L (snd (size_of_entry L E cfg now pk n k s))) \<subseteq>\<^sub>m m"
    using keeps_contents(1) [OF keeps_size_of_entry] Cons.prems map_le_trans by blast
  moreover have "\<exists>v. m k = Some v \<and> x = entry_len E v" if "fst (size_of_entry L E cfg now pk n k s) = Some x" for x
    using size_of_entry_sound [OF that] Cons.prems by (auto simp: map_le_def dom_def)
  ultimately show ?case using Cons.IH by (auto simp: split_beta Let_def)
qed simp

lemma em_get_sound:
  assumes "fst (em_get L E cfg now k s) = Some v"
  shows "map_of (contents L s) k = Some v"
proof -
  define s1 where "s1 = evict_items L E cfg now s"
  obtain r c where g: "lru_get L k (lru s1) = (r, c)" by (cases "lru_get L k (lru s1)")
  have r: "r = map_of (lru_iter L (lru s1)) k" using get_value [of k "lru s1"] g by simp
  have "map_of (contents L s1) k = Some v"
    using assms r g by (auto simp: em_get_def s1_def [symmetric] contents_lookup Let_def split: option.splits if_splits prod.splits)
  moreover have "map_of (contents L s1) \<subseteq>\<^sub>m map_of (contents L s)"
    unfolding s1_def by (rule keeps_contents [OF keeps_evict_items])
  ultimately show ?thesis by (auto simp: map_le_def dom_def)
qed

lemma em_insert_contents:
  shows "map_of (contents L (snd (em_insert L E cfg now k v s))) \<subseteq>\<^sub>m (map_of (contents L s))(k \<mapsto> v)"
    and "set (contents L (snd (em_insert L E cfg now k v s))) \<subseteq> insert (k, v) (set (contents L s))"
    and "em_inv L E s \<Longrightarrow> em_inv L E (snd (em_insert L E cfg now k v s))"
proof -
  let ?t = "insert_one E k v (ucast now) s"
  show "map_of (contents L (snd (em_insert L E cfg now k v s))) \<subseteq>\<^sub>m (map_of (contents L s))(k \<mapsto> v)"
    using keeps_contents(1) [OF keeps_evict_items, of E cfg now ?t] by (simp only: em_insert_state contents_insert_one map_of_put_front)
  show "set (contents L (snd (em_insert L E cfg now k v s))) \<subseteq> insert (k, v) (set (contents L s))"
    using keeps_contents(2) [OF keeps_evict_items, of E cfg now ?t]
    by (auto simp: em_insert_state contents_insert_one drop_key_def)
  show "em_inv L E s \<Longrightarrow> em_inv L E (snd (em_insert L E cfg now k v s))"
    by (simp add: em_insert_state em_keepsD(1) [OF keeps_evict_items] insert_one_effect(1))
qed

end

lemma send_wrote:
  assumes "writer_ready w" "d \<noteq> []"
  shows "(\<exists>w'. send d w = (Ok (), w') \<and> writer_ready w' \<and> wrote w w' d) \<or>
         (\<exists>e w'. send d w = (Err e, w') \<and> \<not> wh_eof_sent w' \<and> wh_sent w' = wh_sent w)"
  using assms by (auto simp: send_def send_get_bytes_on_error_def writer_ready_def wrote_def)

lemma send_eof_ready:
  assumes "writer_ready w"
  shows "\<exists>w'. send_eof w = (Ok (), w') \<and> wh_eof_sent w' \<and> wh_sent w' = wh_sent w"
  using assms by (auto simp: send_eof_def writer_ready_def)

lemma slice_bounds:
  "take (min (case len of None \<Rightarrow> length v - unat off | Some l \<Rightarrow> unat l) (length v - unat off)) (drop (unat off) v)
     = slice off len v"
  by (cases len) (auto simp: slice_def min_def)

lemma memory_get_part_law:
  assumes "evicting_map L" "writer_ready w" "memory_get_part L cfg now k w off len s = (r, w', s')"
  shows "em_keeps L bytes_wrapper s s' \<and> (r = Ok () \<longrightarrow> wh_eof_sent w') \<and>
         (wh_eof_sent w' \<longrightarrow> (\<exists>d. memory_view L s k = Some d \<and> wrote w w' (slice off len d)))"
proof (cases "is_zero_digest k")
  case True
  have "slice off len [] = []" by (simp add: slice_def split: option.split)
  with True assms(3) send_eof_ready [OF assms(2)] show ?thesis
    by (auto simp: memory_get_part_def memory_view_def wrote_def)
next
  case False
  obtain v t where g: "em_get L bytes_wrapper cfg now k s = (v, t)" by fastforce
  have t: "em_keeps L bytes_wrapper s t" using evicting_map.keeps_get [OF assms(1)] g by (metis snd_conv)
  show ?thesis
  proof (cases v)
    case None
    then show ?thesis using False g assms(2,3) t
      by (auto simp: memory_get_part_def opt_err_tip_with_code_def writer_ready_def)
  next
    case (Some d)
    then have view: "memory_view L s k = Some d"
      using evicting_map.em_get_sound [OF assms(1), of bytes_wrapper cfg now k s d] g False by (simp add: memory_view_def)
    define b where "b = slice off len d"
    have empty: "b = [] \<longleftrightarrow> \<not> 0 < min (case len of None \<Rightarrow> length d - unat off | Some l \<Rightarrow> unat l) (length d - unat off)"
      unfolding b_def slice_bounds [symmetric] by auto
    have run: "memory_get_part L cfg now k w off len s =
        (case (if b \<noteq> [] then send b w else (Ok (), w)) of
           (Inl e, w1) \<Rightarrow> (err_tip ''Failed to write data in memory store'' (Err e), w1, t)
         | (Inr _, w1) \<Rightarrow> (let (r', w2) = send_eof w1
             in (err_tip ''Failed to write EOF in memory store get_part'' r', w2, t)))"
      using False g Some empty unfolding memory_get_part_def Let_def slice_bounds b_def
      by (auto split: prod.splits sum.splits)
    show ?thesis
    proof (cases "b = []")
      case True
      then show ?thesis using run send_eof_ready [OF assms(2)] assms(3) t view b_def by (auto simp: wrote_def)
    next
      case nonempty: False
      from send_wrote [OF assms(2) nonempty] show ?thesis
      proof (elim disjE exE conjE)
        fix w1 assume w1: "send b w = (Ok (), w1)" "writer_ready w1" "wrote w w1 b"
        then show ?thesis using run nonempty send_eof_ready [OF w1(2)] assms(3) t view b_def by (auto simp: wrote_def)
      next
        fix e w1 assume "send b w = (Err e, w1)" "\<not> wh_eof_sent w1"
        then show ?thesis using run nonempty assms(3) t by auto
      qed
    qed
  qed
qed

lemma memory_keeps:
  assumes "evicting_map L" "memory_ok L s" "em_keeps L bytes_wrapper s s'"
  shows "memory_ok L s' \<and> memory_view L s' \<subseteq>\<^sub>m memory_view L s"
  using assms(2) em_keepsD(1) [OF assms(3)] evicting_map.keeps_contents [OF assms(1,3)]
  by (auto simp: memory_ok_def memory_view_def map_le_def dom_def)

lemma memory_has_law:
  assumes "evicting_map L" "memory_has L cfg now ks rs s = (r, rs', s')" "length rs = length ks"
  shows "em_keeps L bytes_wrapper s s' \<and>
    list_all2 (\<lambda>k x. \<forall>n. x = Some n \<longrightarrow> (\<exists>d. memory_view L s k = Some d \<and> n = of_nat (length d))) ks rs'"
proof -
  obtain xs t where x: "sizes_for_keys L bytes_wrapper cfg now ks False s = (xs, t)" by fastforce
  have "list_all2 (\<lambda>k x. \<forall>n. x = Some n \<longrightarrow>
      (\<exists>v. map_of (contents L s) k = Some v \<and> n = entry_len bytes_wrapper v)) ks xs"
    using evicting_map.sizes_for_keys_loop_sound [OF assms(1), of s "map_of (contents L s)" bytes_wrapper ks cfg now False
        "lru_len L (lru s)"] x
    by (simp add: sizes_for_keys_def)
  then have "list_all2 (\<lambda>k x. \<forall>n. x = Some n \<longrightarrow> (\<exists>d. memory_view L s k = Some d \<and> n = of_nat (length d))) ks
      (map2 (\<lambda>key r. if is_zero_digest key then Some 0 else r) ks xs)"
    by (induction rule: list_all2_induct) (auto simp: memory_view_def bytes_wrapper_def)
  moreover have "em_keeps L bytes_wrapper s t"
    using evicting_map.keeps_sizes_for_keys [OF assms(1)] x by (metis snd_conv)
  ultimately show ?thesis using assms(2,3) x by (simp add: memory_has_def)
qed

lemma memory_update_law:
  assumes "evicting_map L" "memory_ok L s" "reader_ok rd" "blob_fits (rh_data rd)"
    and "memory_update L cfg now k rd sz s = (r, s')"
  shows "memory_ok L s' \<and> (if rh_eof_sent rd then r = Ok () \<and> memory_view L s' \<subseteq>\<^sub>m put_blob k (rh_data rd) (memory_view L s)
    else s' = s \<and> r \<noteq> Ok ())"
proof (cases "rh_eof_sent rd")
  case True
  have "take (2 ^ 64 - 1) (rh_data rd) = rh_data rd" using assms(4) by (simp add: blob_fits_def)
  then have "fst (consume None rd) = Ok (rh_data rd)"
    using consume_ok [OF assms(3) True, of None] by auto
  then have s': "s' = snd (em_insert L bytes_wrapper cfg now k (rh_data rd) s)" "r = Ok ()"
    using assms(5) by (simp_all add: memory_update_def)
  note ins = evicting_map.em_insert_contents [OF assms(1), where E = bytes_wrapper and cfg = cfg and now = now
      and k = k and v = "rh_data rd" and s = s]
  have "memory_ok L s'" using ins(2,3) assms(2,4) s' by (fastforce simp: memory_ok_def)
  moreover have "memory_view L s' \<subseteq>\<^sub>m put_blob k (rh_data rd) (memory_view L s)"
    using ins(1) by (auto simp: s' memory_view_def put_blob_def map_le_def dom_def split: if_splits)
  ultimately show ?thesis using True s' by simp
next
  case False
  obtain e where "fst (consume None rd) = Err e"
    using consume_dropped [OF assms(3) False, of None] assms(4) by (auto simp: blob_fits_def)
  then show ?thesis using False assms(2,5) by (auto simp: memory_update_def)
qed

lemma memory_blob_store:
  assumes "evicting_map L"
  shows "blob_store (memory_store L cfg) (memory_ok L) (memory_view L)"
proof
  fix s k d assume "memory_ok L s" "memory_view L s k = Some d"
  then show "blob_fits d"
    by (auto simp: memory_ok_def memory_view_def blob_fits_def split: if_splits dest!: map_of_SomeD)
next
  fix s e ks rs r rs' s'
  assume a: "memory_ok L s" "sd_has (memory_store L cfg e) ks rs s = (r, rs', s')" "length rs = length ks"
  then have "memory_has L cfg e ks rs s = (r, rs', s')" by (simp add: memory_store_def)
  from memory_has_law [OF assms this a(3)] memory_keeps [OF assms a(1)]
  show "memory_ok L s' \<and> memory_view L s' \<subseteq>\<^sub>m memory_view L s \<and>
    (r = Ok () \<longrightarrow> list_all2 (\<lambda>k x. \<forall>n. x = Some n \<longrightarrow>
      (\<exists>d. memory_view L s k = Some d \<and> n = of_nat (length d))) ks rs')" by blast
next
  fix s rd e k sz r s'
  assume a: "memory_ok L s" "reader_ok rd" "blob_fits (rh_data rd)" "sd_update (memory_store L cfg e) k rd sz s = (r, s')"
  then have "memory_update L cfg e k rd sz s = (r, s')" by (simp add: memory_store_def)
  from memory_update_law [OF assms a(1-3) this]
  show "memory_ok L s' \<and> (rh_eof_sent rd \<and> memory_view L s' \<subseteq>\<^sub>m put_blob k (rh_data rd) (memory_view L s)
    \<or> r \<noteq> Ok () \<and> memory_view L s' \<subseteq>\<^sub>m memory_view L s)" by (auto split: if_splits)
next
  fix s w e k off len r w' s'
  assume a: "memory_ok L s" "writer_ready w" "sd_get_part (memory_store L cfg e) k w off len s = (r, w', s')"
  then have "memory_get_part L cfg e k w off len s = (r, w', s')" by (simp add: memory_store_def)
  from memory_get_part_law [OF assms a(2) this] memory_keeps [OF assms a(1)]
  show "memory_ok L s' \<and> memory_view L s' \<subseteq>\<^sub>m memory_view L s \<and> (r = Ok () \<longrightarrow> wh_eof_sent w') \<and>
    (wh_eof_sent w' \<longrightarrow> (\<exists>d. memory_view L s k = Some d \<and> wrote w w' (slice off len d)))" by blast
qed

lemma memory_ok_new: "evicting_map L \<Longrightarrow> memory_ok L (memory_store_new L)"
  using evicting_map.inv_new [of L] lru_cache.iter_unbounded [of L]
  by (simp add: memory_ok_def memory_store_new_def contents_def em_state_new_def evicting_map_def)

interpretation ms: blob_store "memory_store (list_lru :: (store_key \<times> bytes eviction_item) list memory_lru) cfg"
    "memory_ok list_lru" "memory_view list_lru" for cfg
  by (rule memory_blob_store) (rule ll_em.evicting_map_axioms)

interpretation ns: blob_store "\<lambda>_ :: unit. noop_store" "\<lambda>_. True" "\<lambda>_. Map.empty"
proof
  fix s rd e k sz r s'
  assume "reader_ok rd" "sd_update noop_store k rd sz s = (r, s')"
  then show "True \<and> (rh_eof_sent rd \<and> Map.empty \<subseteq>\<^sub>m put_blob k (rh_data rd) Map.empty
      \<or> r \<noteq> Ok () \<and> Map.empty \<subseteq>\<^sub>m Map.empty)"
    using drain_ok [of rd] by (auto simp: noop_store_def noop_update_def)
qed (auto simp: noop_store_def noop_has_def noop_get_part_def writer_ready_def list_all2_conv_all_nth)

end
