(* ===== verification/Verify_Store.thy ===== *)
theory Verify_Store
  imports Memory_Store
begin

text \<open>
  The store that checks uploads (nativelink-store/src/verify_store.rs), over any inner store. The
  check and the inner store run side by side, joined by a channel: the model runs the check first,
  with the number of messages the inner store takes before it hangs up as an argument, and then
  gives the inner store what was sent. The failure counters are left out.
\<close>

record verify_cfg =
  vs_verify_size :: bool
  vs_verify_hash :: bool

section \<open>The check\<close>

text \<open>Whether the size is already wrong; when it is reached, the next chunk must be the end.\<close>

definition check_size :: "u64 option \<Rightarrow> u64 \<Rightarrow> read_half \<Rightarrow> unit result \<times> read_half" where
  "check_size maybe_expected_size sum_size rx =
     (case maybe_expected_size of
        None \<Rightarrow> (Ok (), rx)
      | Some expected_size \<Rightarrow>
          if expected_size < sum_size
          then (Err (make_input_err ''Expected size but already received on insert''), rx)
          else if sum_size = expected_size
          then (case peek rx of
                  (Inr eof_chunk, rx') \<Rightarrow>
                    (if eof_chunk \<noteq> []
                     then Err (make_input_err ''Expected EOF chunk when exact size was hit on insert in verify store'')
                     else Ok (), rx')
                | (Inl _, rx') \<Rightarrow> (Ok (), rx'))
          else (Ok (), rx))"

definition check_end ::
  "hash_funcs \<Rightarrow> u64 option \<Rightarrow> u8 list \<Rightarrow> digest_hasher option \<Rightarrow> u64 \<Rightarrow> unit result" where
  "check_end H maybe_expected_size original_hash maybe_hasher sum_size =
     (if (case maybe_expected_size of None \<Rightarrow> False | Some expected_size \<Rightarrow> sum_size \<noteq> expected_size)
      then Err (make_input_err ''Expected size but got size on insert'')
      else if (case maybe_hasher of None \<Rightarrow> False
               | Some hasher \<Rightarrow> original_hash \<noteq> packed_hash (fst (finalize_digest H hasher)))
      then Err (make_input_err ''Hashes do not match'')
      else Ok ())"

lemma peek_messages_le: "messages_left (snd (peek r)) \<le> messages_left r"
  by (auto simp: peek_def recv_def try_recv_def recv_inner_def Let_def messages_left_def maybe_populate_recent_data_def
      split: option.splits list.splits if_splits sum.splits prod.splits)

lemma check_size_messages: "check_size m n r = (x, r') \<Longrightarrow> messages_left r' \<le> messages_left r"
  using peek_messages_le [of r] by (auto simp: check_size_def split: option.splits if_splits prod.splits sum.splits)

lemma check_round_messages:
  "recv rx = (Ok chunk, rx1) \<Longrightarrow> chunk \<noteq> [] \<Longrightarrow> check_size m n rx1 = (x, rx2) \<Longrightarrow>
   messages_left rx2 < messages_left rx"
  using recv_messages check_size_messages le_less_trans by blast

function inner_check_update ::
  "hash_funcs \<Rightarrow> u64 option \<Rightarrow> u8 list \<Rightarrow> digest_hasher option \<Rightarrow> u64 \<Rightarrow> write_half \<Rightarrow> read_half
     \<Rightarrow> unit result \<times> write_half" where
  "inner_check_update H maybe_expected_size original_hash maybe_hasher sum_size tx rx =
     (case recv rx of
        (Inl e, _) \<Rightarrow> (err_tip ''Failed to read chunk in check_update in verify store'' (Err e), tx)
      | (Inr chunk, rx1) \<Rightarrow>
          (let sum_size' = sum_size + of_nat (length chunk)
           in case check_size maybe_expected_size sum_size' rx1 of
                (Inl e, _) \<Rightarrow> (Err e, tx)
              | (Inr _, rx2) \<Rightarrow>
                  if chunk = []
                  then (case check_end H maybe_expected_size original_hash maybe_hasher sum_size' of
                          Inl e \<Rightarrow> (Err e, tx)
                        | Inr _ \<Rightarrow>
                            (let (r, tx') = send_eof tx in (err_tip ''In verify_store::check_update'' r, tx')))
                  else (case send chunk tx of
                          (Inl e, tx') \<Rightarrow>
                            (err_tip ''Failed to write chunk to inner store in verify store'' (Err e), tx')
                        | (Inr _, tx') \<Rightarrow>
                            inner_check_update H maybe_expected_size original_hash
                              (map_option (hasher_update chunk) maybe_hasher) sum_size' tx' rx2)))"
  by pat_completeness auto

termination
  by (relation "measure (\<lambda>(H, m, h, hs, n, tx, rx). messages_left rx)")
    (auto dest!: sym [of _ "recv _"] sym [of _ "check_size _ _ _"] intro: check_round_messages)

declare inner_check_update.simps [simp del]

section \<open>The store\<close>

text \<open>\<open>active_hasher\<close> is the hash function of the request's context, if it has one.\<close>

definition verify_update ::
  "hash_funcs \<Rightarrow> digest_hasher_func \<Rightarrow> digest_hasher_func option result \<Rightarrow> verify_cfg \<Rightarrow> nat option \<Rightarrow> 's store_driver
     \<Rightarrow> store_key \<Rightarrow> read_half \<Rightarrow> upload_size_info \<Rightarrow> 's \<Rightarrow> unit result \<times> 's" where
  "verify_update H default_func active_hasher V takes D key reader size_info s =
     (case key of
        Str _ \<Rightarrow> (Err (make_input_err ''Only digests are supported in VerifyStore''), s)
      | Digest digest \<Rightarrow>
          let digest_size = size_bytes digest
          in if (case size_info of ExactSize expected_size \<Rightarrow> vs_verify_size V \<and> expected_size \<noteq> digest_size
                 | MaxSize _ \<Rightarrow> False)
             then (Err (make_input_err ''Expected size to match. Got but digest says on update''), s)
             else case (if vs_verify_hash V
                        then map_sum id (\<lambda>v. Some (hasher_new (case v of None \<Rightarrow> default_func | Some f \<Rightarrow> f)))
                               (err_tip ''In verify_store::update'' active_hasher)
                        else Ok None) of
                    Inl e \<Rightarrow> (Err e, s)
                  | Inr maybe_hasher \<Rightarrow>
                      (let (check_res, tx) = inner_check_update H (if vs_verify_size V then Some digest_size else None)
                             (packed_hash digest) maybe_hasher 0 (new_writer takes) reader;
                           (update_res, s') = sd_update D (Digest digest) (reader_of tx) size_info s
                       in (result_merge update_res check_res, s')))"

definition verify_store ::
  "hash_funcs \<Rightarrow> digest_hasher_func \<Rightarrow> verify_cfg \<Rightarrow> ('e \<Rightarrow> 's store_driver)
     \<Rightarrow> 'e \<times> nat option \<times> digest_hasher_func option result \<Rightarrow> 's store_driver" where
  "verify_store H default_func V ops =
     (\<lambda>(e, takes, active_hasher).
        \<lparr>sd_has = sd_has (ops e),
         sd_update = verify_update H default_func active_hasher V takes (ops e),
         sd_get_part = sd_get_part (ops e), sd_optimized_for = (\<lambda>_ _. False)\<rparr>)"

section \<open>What the inner store gets\<close>

text \<open>A reader after a successful check of the size: nothing is lost, or its sender is gone.\<close>

lemma check_size_reader:
  assumes "reader_ok rx" "check_size m n rx = (Ok u, rx')"
  shows "rh_data rx' = rh_data rx \<and> reader_ok rx' \<and> rh_eof_sent rx' = rh_eof_sent rx \<or>
         (\<exists>e. rh_last_err rx' = Some e) \<and> rh_data rx = [] \<and> \<not> rh_eof_sent rx"
proof (cases "m = Some n")
  case True
  from assms(1) show ?thesis
    by (cases rule: peek_cases) (use assms True in \<open>auto simp: check_size_def split: if_splits\<close>)
next
  case False
  then show ?thesis using assms by (auto simp: check_size_def split: option.splits if_splits)
qed

definition size_right :: "u64 option \<Rightarrow> u64 \<Rightarrow> bytes \<Rightarrow> bool" where
  "size_right m n d \<longleftrightarrow> (case m of None \<Rightarrow> True | Some x \<Rightarrow> n + of_nat (length d) = x)"

definition hash_right :: "hash_funcs \<Rightarrow> u8 list \<Rightarrow> digest_hasher option \<Rightarrow> bytes \<Rightarrow> bool" where
  "hash_right H h hs d \<longleftrightarrow> (case hs of None \<Rightarrow> True | Some x \<Rightarrow> H (dh_func x) (dh_input x @ d) = h)"

lemma check_end_Ok: "check_end H m h hs n = Ok u \<longleftrightarrow> size_right m n [] \<and> hash_right H h hs []"
  by (auto simp: check_end_def size_right_def hash_right_def finalize_digest_def split: option.splits)

lemma right_step:
  "size_right m (n + of_nat (length c)) d = size_right m n (c @ d)"
  "hash_right H h (map_option (hasher_update c) hs) d = hash_right H h hs (c @ d)"
  by (simp_all add: size_right_def hash_right_def hasher_update_def ac_simps split: option.split)

lemma wrote_trans: "wrote a b c \<Longrightarrow> wrote b d e \<Longrightarrow> wrote a d (c @ e)"
  by (fastforce simp: wrote_def)

lemma inner_check_update_dropped:
  "rh_last_err rx = Some e \<Longrightarrow> \<exists>e'. inner_check_update H m h hs n tx rx = (Err e', tx)"
  by (subst inner_check_update.simps) (simp add: recv_def try_recv_def)

lemma inner_check_update_eof:
  assumes "recv rx = (Ok [], rx1)" "writer_ready tx"
  shows "(\<exists>e. inner_check_update H m h hs n tx rx = (Err e, tx)) \<or>
         (\<exists>tx'. inner_check_update H m h hs n tx rx = (Ok (), tx') \<and> wh_eof_sent tx' \<and> wh_sent tx' = wh_sent tx \<and>
            size_right m n [] \<and> hash_right H h hs [])"
proof -
  obtain b rx2 where cs: "check_size m n rx1 = (b, rx2)" by fastforce
  obtain tx' where tx': "send_eof tx = (Ok (), tx')" "wh_eof_sent tx'" "wh_sent tx' = wh_sent tx"
    using send_eof_ready [OF assms(2)] by auto
  have "inner_check_update H m h hs n tx rx =
      (case b of Inl e \<Rightarrow> (Err e, tx)
       | Inr _ \<Rightarrow> (case check_end H m h hs n of Inl e \<Rightarrow> (Err e, tx) | Inr _ \<Rightarrow> (Ok (), tx')))"
    using assms(1) cs tx' by (subst inner_check_update.simps) (simp split: sum.split)
  then show ?thesis
    using tx' check_end_Ok [of H m h hs n "()"] by (cases b; cases "check_end H m h hs n") auto
qed

lemma inner_check_update_chunk:
  assumes "recv rx = (Ok c, rx1)" "c \<noteq> []" "check_size m (n + of_nat (length c)) rx1 = (b, rx2)"
  shows "inner_check_update H m h hs n tx rx =
      (case b of
         Inl e \<Rightarrow> (Err e, tx)
       | Inr _ \<Rightarrow>
           (case send c tx of
              (Inl e, tx') \<Rightarrow> (err_tip ''Failed to write chunk to inner store in verify store'' (Err e), tx')
            | (Inr _, tx') \<Rightarrow>
                inner_check_update H m h (map_option (hasher_update c) hs) (n + of_nat (length c)) tx' rx2))"
  using assms by (subst inner_check_update.simps) (cases b; simp add: Let_def)

text \<open>The channel to the inner store is ended only after the whole upload was seen and is right.\<close>

definition check_sound ::
  "hash_funcs \<Rightarrow> u64 option \<Rightarrow> u8 list \<Rightarrow> digest_hasher option \<Rightarrow> u64 \<Rightarrow> write_half \<Rightarrow> read_half
     \<Rightarrow> unit result \<times> write_half \<Rightarrow> bool" where
  "check_sound H m h hs n tx rx res \<longleftrightarrow>
     (\<exists>d. wrote tx (snd res) d \<and> length d \<le> length (rh_data rx) \<and> is_ok (fst res) = wh_eof_sent (snd res) \<and>
        (wh_eof_sent (snd res) \<longrightarrow> d = rh_data rx \<and> rh_eof_sent rx \<and> size_right m n d \<and> hash_right H h hs d))"

lemma check_sound_stop: "writer_ready tx \<Longrightarrow> check_sound H m h hs n tx rx (Err e, tx)"
  by (auto simp: check_sound_def wrote_def writer_ready_def intro: exI [of _ "[]"])

lemma inner_check_update_sound:
  assumes "reader_ok rx" "writer_ready tx"
  shows "check_sound H m h hs n tx rx (inner_check_update H m h hs n tx rx)"
  using assms
proof (induction "messages_left rx" arbitrary: hs n tx rx rule: less_induct)
  case less
  from less.prems(1) show ?case
  proof (cases rule: recv_cases)
    case (dropped e rx1)
    then have "\<exists>e. inner_check_update H m h hs n tx rx = (Err e, tx)" by (subst inner_check_update.simps) simp
    then show ?thesis using check_sound_stop [OF less.prems(2)] by metis
  next
    case (eof rx1)
    from inner_check_update_eof [OF eof(1) less.prems(2), of H m h hs n] show ?thesis
    proof (elim disjE exE conjE)
      fix e assume "inner_check_update H m h hs n tx rx = (Err e, tx)"
      then show ?thesis using check_sound_stop [OF less.prems(2)] by metis
    next
      fix tx' assume "inner_check_update H m h hs n tx rx = (Ok (), tx')" "wh_eof_sent tx'" "wh_sent tx' = wh_sent tx"
        "size_right m n []" "hash_right H h hs []"
      then show ?thesis using eof(2,5) by (simp add: check_sound_def wrote_def)
    qed
  next
    case (chunk c rx1)
    obtain b rx2 where cs: "check_size m (n + of_nat (length c)) rx1 = (b, rx2)" by fastforce
    note run = inner_check_update_chunk [OF chunk(1,2) cs, of H h hs tx]
    show ?thesis
    proof (cases b)
      case (Inl e)
      then have "inner_check_update H m h hs n tx rx = (Err e, tx)" using run by simp
      then show ?thesis using check_sound_stop [OF less.prems(2)] by metis
    next
      case (Inr u)
      from send_wrote [OF less.prems(2) chunk(2)] show ?thesis
      proof (elim disjE exE conjE)
        fix e tx' assume "send c tx = (Err e, tx')" "\<not> wh_eof_sent tx'" "wh_sent tx' = wh_sent tx"
        then show ?thesis using run Inr by (simp add: check_sound_def wrote_def)
      next
        fix tx' assume tx': "send c tx = (Ok (), tx')" "writer_ready tx'" "wrote tx tx' c"
        let ?res = "inner_check_update H m h (map_option (hasher_update c) hs) (n + of_nat (length c)) tx' rx2"
        have run: "inner_check_update H m h hs n tx rx = ?res" using run Inr tx' by simp
        from check_size_reader [OF chunk(4) cs [unfolded Inr]] show ?thesis
        proof (elim disjE exE conjE)
          assume rx2: "rh_data rx2 = rh_data rx1" "reader_ok rx2" "rh_eof_sent rx2 = rh_eof_sent rx1"
          have "messages_left rx2 < messages_left rx" using check_round_messages [OF chunk(1,2) cs] .
          from less.hyps [OF this rx2(2) tx'(2)] have "\<exists>d. wrote tx' (snd ?res) d \<and>
              length d \<le> length (rh_data rx2) \<and> is_ok (fst ?res) = wh_eof_sent (snd ?res) \<and> (wh_eof_sent (snd ?res) \<longrightarrow> d = rh_data rx2 \<and> rh_eof_sent rx2 \<and>
                size_right m (n + of_nat (length c)) d \<and> hash_right H h (map_option (hasher_update c) hs) d)"
            by (simp only: check_sound_def)
          then obtain d where d: "wrote tx' (snd ?res) d" "length d \<le> length (rh_data rx2)" "is_ok (fst ?res) = wh_eof_sent (snd ?res)"
              "wh_eof_sent (snd ?res) \<longrightarrow> d = rh_data rx2 \<and> rh_eof_sent rx2 \<and> size_right m n (c @ d) \<and> hash_right H h hs (c @ d)"
            by (auto simp only: right_step)
          show ?thesis unfolding run check_sound_def
            by (rule exI [of _ "c @ d"]) (use wrote_trans [OF tx'(3) d(1)] d(2-4) chunk(3,5) rx2 in auto)
        next
          fix e assume "rh_last_err rx2 = Some e"
          then obtain e' where "?res = (Err e', tx')" using inner_check_update_dropped by blast
          moreover have "\<not> wh_eof_sent tx'" using tx'(2) by (simp add: writer_ready_def)
          ultimately show ?thesis unfolding run check_sound_def using tx'(3) chunk(3) by (intro exI [of _ c]) simp
        qed
      qed
    qed
  qed
qed

section \<open>The laws\<close>

text \<open>Blobs that match their digest under one of the hash functions, as far as they are checked.\<close>

definition blob_matches :: "hash_funcs \<Rightarrow> verify_cfg \<Rightarrow> store_key \<Rightarrow> bytes \<Rightarrow> bool" where
  "blob_matches H V k d \<longleftrightarrow>
     (\<exists>digest f. k = Digest digest \<and> (vs_verify_size V \<longrightarrow> size_bytes digest = of_nat (length d)) \<and>
        (vs_verify_hash V \<longrightarrow> H f d = packed_hash digest))"

lemma verify_update_cases:
  assumes "reader_ok rd" "verify_update H df ah V takes D k rd sz s = (r, s')"
  obtains (refused) "s' = s" "r \<noteq> Ok ()"
  | (tried) w d ur where "sd_update D k (reader_of w) sz s = (ur, s')" "wrote (new_writer takes) w d"
      "length d \<le> length (rh_data rd)" "r = Ok () \<Longrightarrow> ur = Ok () \<and> wh_eof_sent w"
      "wh_eof_sent w \<Longrightarrow> d = rh_data rd \<and> rh_eof_sent rd \<and> blob_matches H V k d"
proof (cases k)
  case (Str x)
  then show thesis using assms(2) refused by (auto simp: verify_update_def)
next
  case (Digest digest)
  define hr where "hr = (if vs_verify_hash V
      then map_sum id (\<lambda>v. Some (hasher_new (case v of None \<Rightarrow> df | Some f \<Rightarrow> f))) (err_tip ''In verify_store::update'' ah)
      else Ok None)"
  define bad where "bad = (case sz of ExactSize n \<Rightarrow> vs_verify_size V \<and> n \<noteq> size_bytes digest | MaxSize _ \<Rightarrow> False)"
  note run = assms(2) [unfolded verify_update_def Digest Let_def store_key.case, folded hr_def bad_def]
  show thesis
  proof (cases "bad \<or> \<not> is_ok hr")
    case True
    then show thesis using run refused by (cases hr) (auto split: if_splits)
  next
    case False
    then obtain hs where hs: "hr = Ok hs" by (cases hr) auto
    let ?m = "if vs_verify_size V then Some (size_bytes digest) else None"
    obtain cr w where c: "inner_check_update H ?m (packed_hash digest) hs 0 (new_writer takes) rd = (cr, w)" by fastforce
    obtain ur t where u: "sd_update D k (reader_of w) sz s = (ur, t)" by fastforce
    have "writer_ready (new_writer takes)" by (simp add: writer_ready_def new_writer_def)
    from inner_check_update_sound [OF assms(1) this, of H ?m "packed_hash digest" hs 0] c
    obtain d where d: "wrote (new_writer takes) w d" "length d \<le> length (rh_data rd)" "is_ok cr = wh_eof_sent w"
        "wh_eof_sent w \<Longrightarrow> d = rh_data rd \<and> rh_eof_sent rd \<and> size_right ?m 0 d \<and> hash_right H (packed_hash digest) hs d"
      by (auto simp: check_sound_def)
    have "r = result_merge ur cr" "t = s'" using run False hs c u Digest by auto
    moreover have "blob_matches H V k d" if "wh_eof_sent w"
    proof -
      have "\<exists>f. vs_verify_hash V \<longrightarrow> H f d = packed_hash digest"
        using d(4) [OF that] hs
        by (cases ah) (auto simp: hr_def hash_right_def hasher_new_def split: if_splits)
      moreover have "vs_verify_size V \<longrightarrow> size_bytes digest = of_nat (length d)"
        using d(4) [OF that] by (auto simp: size_right_def)
      ultimately show ?thesis using Digest by (auto simp: blob_matches_def)
    qed
    ultimately show thesis using u d tried [of w ur d] is_ok_result_merge [of ur cr]
      by (cases ur; cases cr) auto
  qed
qed

lemma wrote_reader:
  assumes "wrote (new_writer takes) w d"
  shows "reader_ok (reader_of w)" "rh_data (reader_of w) = d" "rh_eof_sent (reader_of w) = wh_eof_sent w"
  using assms by (auto simp: wrote_def new_writer_def reader_of_def)

lemma verify_update_law:
  assumes "blob_store ops ok view" "ok s" "reader_ok rd" "blob_fits (rh_data rd)"
    and "verify_update H df ah V takes (ops e) k rd sz s = (r, s')"
  shows "ok s' \<and> (rh_eof_sent rd \<and> blob_matches H V k (rh_data rd) \<and> view s' \<subseteq>\<^sub>m put_blob k (rh_data rd) (view s)
                \<or> r \<noteq> Ok () \<and> view s' \<subseteq>\<^sub>m view s)"
  using assms(3,5)
proof (cases rule: verify_update_cases)
  case refused
  then show ?thesis using assms(2) by simp
next
  case (tried w d ur)
  have "blob_fits d" using tried(3) assms(4) by (simp add: blob_fits_def)
  then have "ok s' \<and> (wh_eof_sent w \<and> view s' \<subseteq>\<^sub>m put_blob k d (view s) \<or> ur \<noteq> Ok () \<and> view s' \<subseteq>\<^sub>m view s)"
    using blob_store.update_law [OF assms(1,2) wrote_reader(1) [OF tried(2)] _ tried(1)] wrote_reader [OF tried(2)] by simp
  then show ?thesis using tried(4,5) by auto
qed

lemma verify_blob_store:
  assumes "blob_store ops ok view"
  shows "blob_store (verify_store H df V ops) ok view"
proof
  fix s k d assume "ok s" "view s k = Some d"
  then show "blob_fits d" by (rule blob_store.view_fits [OF assms])
next
  fix s e ks rs r rs' s'
  assume "ok s" "sd_has (verify_store H df V ops e) ks rs s = (r, rs', s')" "length rs = length ks"
  then show "ok s' \<and> view s' \<subseteq>\<^sub>m view s \<and> (r = Ok () \<longrightarrow>
      list_all2 (\<lambda>k x. \<forall>n. x = Some n \<longrightarrow> (\<exists>d. view s k = Some d \<and> n = of_nat (length d))) ks rs')"
    using blob_store.has_law [OF assms, of s "fst e"] by (simp add: verify_store_def split_beta)
next
  fix s rd e k sz r s'
  assume a: "ok s" "reader_ok rd" "blob_fits (rh_data rd)" "sd_update (verify_store H df V ops e) k rd sz s = (r, s')"
  from verify_update_law [OF assms a(1-3), where e = "fst e"] a(4)
  show "ok s' \<and> (rh_eof_sent rd \<and> view s' \<subseteq>\<^sub>m put_blob k (rh_data rd) (view s) \<or> r \<noteq> Ok () \<and> view s' \<subseteq>\<^sub>m view s)"
    by (fastforce simp: verify_store_def split_beta)
next
  fix s w e k off len r w' s'
  assume "ok s" "writer_ready w" "sd_get_part (verify_store H df V ops e) k w off len s = (r, w', s')"
  then show "ok s' \<and> view s' \<subseteq>\<^sub>m view s \<and> (r = Ok () \<longrightarrow> wh_eof_sent w') \<and>
      (wh_eof_sent w' \<longrightarrow> (\<exists>d. view s k = Some d \<and> wrote w w' (slice off len d)))"
    using blob_store.get_law [OF assms, of s w "fst e"] by (simp add: verify_store_def split_beta)
qed

interpretation vms: blob_store
    "verify_store H df V (memory_store (list_lru :: (store_key \<times> bytes eviction_item) list memory_lru) cfg)"
    "memory_ok list_lru" "memory_view list_lru" for H df V cfg
  by (rule verify_blob_store) (rule ms.blob_store_axioms)

section \<open>Properties\<close>

definition only_matching :: "hash_funcs \<Rightarrow> verify_cfg \<Rightarrow> blob_map \<Rightarrow> bool" where
  "only_matching H V m \<longleftrightarrow> (\<forall>k d. m k = Some d \<longrightarrow> is_zero_digest k \<and> d = [] \<or> blob_matches H V k d)"

lemma only_matching_le: "only_matching H V m \<Longrightarrow> m' \<subseteq>\<^sub>m m \<Longrightarrow> only_matching H V m'"
  by (fastforce simp: only_matching_def map_le_def dom_def)

lemma only_matching_put: "only_matching H V m \<Longrightarrow> blob_matches H V k d \<Longrightarrow> only_matching H V (put_blob k d m)"
  by (simp add: only_matching_def put_blob_def)

lemma verify_exec_matching:
  assumes "blob_store ops ok view" "ok s" "only_matching H V (view s)" "call_ok c"
    and "store_exec (verify_store H df V ops e) c s = (a, s')"
  shows "ok s' \<and> only_matching H V (view s')"
proof -
  note step = blob_store.exec_step [OF verify_blob_store [OF assms(1)] assms(2,4,5)]
  show ?thesis
  proof (cases c)
    case (Call_Update k cs eof sz)
    obtain e1 takes ah where e: "e = (e1, takes, ah)" by (metis prod_cases3)
    obtain r where u: "verify_update H df ah V takes (ops e1) k (new_reader cs eof) sz s = (r, s')"
      using assms(5) Call_Update e by (auto simp: verify_store_def split: prod.splits)
    show ?thesis
      using verify_update_law [OF assms(1,2) _ _ u] assms(3,4) Call_Update only_matching_le only_matching_put by fastforce
  next
    case (Call_Has ks)
    with step assms(3) only_matching_le show ?thesis by (cases a) auto
  next
    case (Call_Get k off len)
    with step assms(3) only_matching_le show ?thesis by (cases a) auto
  qed
qed

lemma verify_run_matching:
  assumes "blob_store ops ok view"
  shows "ok s \<Longrightarrow> only_matching H V (view s) \<Longrightarrow> list_all (\<lambda>p. call_ok (snd p)) calls \<Longrightarrow>
    ok (snd (store_run (verify_store H df V ops) calls s)) \<and>
    only_matching H V (view (snd (store_run (verify_store H df V ops) calls s)))"
proof (induction calls arbitrary: s)
  case (Cons p calls)
  obtain e c where p: "p = (e, c)" by fastforce
  obtain a s1 where x: "store_exec (verify_store H df V ops e) c s = (a, s1)" by fastforce
  from verify_exec_matching [OF assms Cons.prems(1,2) _ x] Cons p x show ?case by (simp add: split_beta)
qed simp

text \<open>
  C13. A store behind the verification serves only blobs that match their digest. Whatever is
  uploaded, in whatever pieces, with whatever end, and wherever the inner store hangs up: what a
  later read returns is a slice of a blob with the size and the hash of its key, as far as the
  store is configured to verify them; the only exception is the empty blob, which is always served.
\<close>

theorem verify_serves_matching_blobs:
  assumes "evicting_map L" "list_all (\<lambda>p. call_ok (snd p)) calls"
    and "store_run (verify_store H df V (memory_store L cfg)) calls (memory_store_new L) = (as, s)"
    and "get_part_unchunked (verify_store H df V (memory_store L cfg) e) k off len s = (Ok b, s')"
  shows "\<exists>d. b = slice off len d \<and> (is_zero_digest k \<and> d = [] \<or> blob_matches H V k d)"
proof -
  note inner = memory_blob_store [OF assms(1), of cfg]
  have "only_matching H V (memory_view L (memory_store_new L))"
    using lru_cache.iter_unbounded [of L] assms(1)
    by (simp add: only_matching_def memory_view_def memory_store_new_def em_state_new_def contents_def evicting_map_def)
  from verify_run_matching [OF inner memory_ok_new [OF assms(1)] this assms(2), of df] assms(3)
  have "memory_ok L s" "only_matching H V (memory_view L s)" by simp_all
  with blob_store.get_part_unchunked_law [OF verify_blob_store [OF inner] _ assms(4)] show ?thesis
    by (fastforce simp: only_matching_def)
qed

definition sample_digest :: store_key where
  "sample_digest = Digest (DigestInfo [1, 2] 2)"

definition sample_cfg :: em_config where
  "sample_cfg = \<lparr>max_bytes = 9, evict_bytes = 0, max_seconds = 0, max_count = 0\<rparr>"

definition sample_verify ::
  "u64 \<times> nat option \<times> digest_hasher_func option result \<Rightarrow> (store_key \<times> bytes eviction_item) list memory_state store_driver" where
  "sample_verify = verify_store (\<lambda>f d. d) Sha256 \<lparr>vs_verify_size = True, vs_verify_hash = True\<rparr>
     (memory_store list_lru sample_cfg)"

definition sample_calls :: "((u64 \<times> nat option \<times> digest_hasher_func option result) \<times> store_call) list" where
  "sample_calls =
     [((1, None, Ok None), Call_Update sample_digest [[1], [2]] True (ExactSize 2)),
      ((2, None, Ok None), Call_Update sample_digest [[3], [4]] True (ExactSize 2)),
      ((3, Some 0, Ok None), Call_Update sample_digest [[1, 2]] True (ExactSize 2))]"

definition sample_memory :: "(store_key \<times> bytes eviction_item) list memory_state" where
  "sample_memory = snd (em_insert list_lru bytes_wrapper sample_cfg 1 sample_digest [1, 2] (memory_store_new list_lru))"

text \<open>Only the first upload succeeds: the second has the wrong hash, the third is not taken.\<close>

lemma sample_verify_run:
  "store_run sample_verify sample_calls (memory_store_new list_lru)
     = ([Ans_Update True, Ans_Update False, Ans_Update False], sample_memory)"
  by (simp add: sample_verify_def sample_calls_def sample_digest_def sample_memory_def verify_store_def verify_update_def
      inner_check_update.simps check_size_def check_end_def recv_def try_recv_def recv_inner_def new_reader_def
      new_writer_def peek_def hasher_new_def hasher_update_def finalize_digest_def send_def send_get_bytes_on_error_def
      send_eof_def reader_of_def maybe_populate_recent_data_def memory_store_def memory_update_def consume_def
      consume_loop.simps Let_def)

lemma sample_memory_get:
  "\<exists>s. memory_get_part list_lru sample_cfg 4 sample_digest (new_writer None) 1 None sample_memory
     = (Ok (), \<lparr>wh_open = False, wh_bytes_written = 1, wh_eof_sent = True, wh_sent = [[2]], wh_takes = None\<rparr>, s)"
proof -
  have "(\<lambda>(r, w, s). (r, w)) (memory_get_part list_lru sample_cfg 4 sample_digest (new_writer None) 1 None sample_memory)
      = (Ok (), \<lparr>wh_open = False, wh_bytes_written = 1, wh_eof_sent = True, wh_sent = [[2]], wh_takes = None\<rparr>)"
    by code_simp
  then show ?thesis by (auto split: prod.splits)
qed

lemma sample_verify_get:
  "\<exists>s. get_part_unchunked (sample_verify (4, None, Ok None)) sample_digest 1 None sample_memory = (Ok [2], s)"
  using sample_memory_get
  by (auto simp: get_part_unchunked_def sample_verify_def verify_store_def memory_store_def reader_of_def new_reader_def
      consume_def recv_def try_recv_def recv_inner_def peek_def maybe_populate_recent_data_def)

theorem verify_serves_matching_blobs_witness:
  "\<exists>d. [2] = slice 1 None d \<and> (is_zero_digest sample_digest \<and> d = []
     \<or> blob_matches (\<lambda>f d. d) \<lparr>vs_verify_size = True, vs_verify_hash = True\<rparr> sample_digest d)"
proof -
  have calls: "list_all (\<lambda>p. call_ok (snd p)) sample_calls" by (simp add: sample_calls_def blob_fits_def)
  obtain s where "get_part_unchunked (sample_verify (4, None, Ok None)) sample_digest 1 None sample_memory = (Ok [2], s)"
    using sample_verify_get by blast
  from verify_serves_matching_blobs [OF ll_em.evicting_map_axioms calls sample_verify_run [unfolded sample_verify_def]
      this [unfolded sample_verify_def]]
  show ?thesis .
qed

end
