(* ===== verification/Partition_Store.thy ===== *)
theory Partition_Store
  imports Verify_Store
begin

text \<open>
  The store that sends small blobs to one store and large ones to another
  (nativelink-store/src/size_partitioning_store.rs). Its state is the pair of their states.
\<close>

definition is_lower :: "u64 \<Rightarrow> store_key \<Rightarrow> bool" where
  "is_lower partition_size k = (case k of Digest digest \<Rightarrow> size_bytes digest < partition_size | Str _ \<Rightarrow> False)"

fun is_str :: "store_key \<Rightarrow> bool" where
  "is_str (Str _) = True"
| "is_str (Digest _) = False"

text \<open>
  The loop that puts the results of both stores in the order of the keys: a key that is the next one
  of the upper store gets the next result of the upper store.
\<close>

fun merge_results ::
  "store_key list \<Rightarrow> u64 option list \<Rightarrow> store_key list \<Rightarrow> u64 option list \<Rightarrow> u64 option list
     \<Rightarrow> unit result \<times> u64 option list" where
  "merge_results (digest # keys) (result # results) upper_digests upper_results lower_results =
     (if upper_digests \<noteq> [] \<and> digest = hd upper_digests
      then (case upper_results of
              [] \<Rightarrow> (opt_err_tip ''upper_results out of sync with upper_digests'' None, result # results)
            | x # upper_results' \<Rightarrow>
                (let (r, rs) = merge_results keys results (tl upper_digests) upper_results' lower_results
                 in (r, x # rs)))
      else (case lower_results of
              [] \<Rightarrow> (opt_err_tip ''lower_results out of sync with lower_digests'' None, result # results)
            | x # lower_results' \<Rightarrow>
                (let (r, rs) = merge_results keys results upper_digests upper_results lower_results'
                 in (r, x # rs))))"
| "merge_results keys results upper_digests upper_results lower_results = (Ok (), results)"

definition partition_has ::
  "u64 \<Rightarrow> 's store_driver \<Rightarrow> 't store_driver \<Rightarrow> store_key list \<Rightarrow> u64 option list \<Rightarrow> 's \<times> 't
     \<Rightarrow> unit result \<times> u64 option list \<times> 's \<times> 't" where
  "partition_has p lower upper keys results st =
     (if list_ex is_str keys
      then (Err (make_input_err ''SizePartitioningStore only supports Digest keys''), results, st)
      else let (lower_results, s') = store_has_many lower (filter (is_lower p) keys) (fst st);
               upper_digests = filter (\<lambda>k. \<not> is_lower p k) keys;
               (upper_results, t') = store_has_many upper upper_digests (snd st)
           in case lower_results of
                Inl err \<Rightarrow>
                  (Err (case upper_results of Inr _ \<Rightarrow> err | Inl upper_err \<Rightarrow> error_merge err upper_err), results, s', t')
              | Inr lrs \<Rightarrow>
                  (case upper_results of
                     Inl err \<Rightarrow> (Err err, results, s', t')
                   | Inr urs \<Rightarrow>
                       (let (r, rs) = merge_results keys results upper_digests urs lrs in (r, rs, s', t'))))"

definition partition_update ::
  "u64 \<Rightarrow> 's store_driver \<Rightarrow> 't store_driver \<Rightarrow> store_key \<Rightarrow> read_half \<Rightarrow> upload_size_info \<Rightarrow> 's \<times> 't
     \<Rightarrow> unit result \<times> 's \<times> 't" where
  "partition_update p lower upper key reader size_info st =
     (case key of
        Str _ \<Rightarrow> (Err (make_input_err ''SizePartitioningStore only supports Digest keys''), st)
      | Digest digest \<Rightarrow>
          if size_bytes digest < p
          then let (r, s') = sd_update lower (Digest digest) reader size_info (fst st) in (r, s', snd st)
          else let (r, t') = sd_update upper (Digest digest) reader size_info (snd st) in (r, fst st, t'))"

definition partition_get_part ::
  "u64 \<Rightarrow> 's store_driver \<Rightarrow> 't store_driver \<Rightarrow> store_key \<Rightarrow> write_half \<Rightarrow> u64 \<Rightarrow> u64 option \<Rightarrow> 's \<times> 't
     \<Rightarrow> unit result \<times> write_half \<times> 's \<times> 't" where
  "partition_get_part p lower upper key writer offset len st =
     (case key of
        Str _ \<Rightarrow> (Err (make_input_err ''SizePartitioningStore only supports Digest keys''), writer, st)
      | Digest digest \<Rightarrow>
          if size_bytes digest < p
          then let (r, w, s') = sd_get_part lower (Digest digest) writer offset len (fst st) in (r, w, s', snd st)
          else let (r, w, t') = sd_get_part upper (Digest digest) writer offset len (snd st) in (r, w, fst st, t'))"

definition partition_optimized_for ::
  "u64 \<Rightarrow> 's store_driver \<Rightarrow> 't store_driver \<Rightarrow> store_key option \<Rightarrow> store_optimizations \<Rightarrow> bool" where
  "partition_optimized_for p lower upper key opt =
     (case key of
        Some (Digest digest) \<Rightarrow>
          if size_bytes digest < p then sd_optimized_for lower (Some (Digest digest)) opt
          else sd_optimized_for upper (Some (Digest digest)) opt
      | _ \<Rightarrow> False)"

definition partition_store ::
  "u64 \<Rightarrow> ('e \<Rightarrow> 's store_driver) \<Rightarrow> ('f \<Rightarrow> 't store_driver) \<Rightarrow> 'e \<times> 'f \<Rightarrow> ('s \<times> 't) store_driver" where
  "partition_store p lower upper =
     (\<lambda>(e, f). \<lparr>sd_has = partition_has p (lower e) (upper f), sd_update = partition_update p (lower e) (upper f),
        sd_get_part = partition_get_part p (lower e) (upper f),
        sd_optimized_for = partition_optimized_for p (lower e) (upper f)\<rparr>)"

section \<open>The laws\<close>

definition partition_view ::
  "u64 \<Rightarrow> ('s \<Rightarrow> blob_map) \<Rightarrow> ('t \<Rightarrow> blob_map) \<Rightarrow> 's \<times> 't \<Rightarrow> blob_map" where
  "partition_view p view1 view2 st k =
     (if is_str k then None else if is_lower p k then view1 (fst st) k else view2 (snd st) k)"

lemma merge_results_all2:
  assumes "list_all2 P (filter l keys) lrs" "list_all2 P (filter (\<lambda>k. \<not> l k) keys) urs" "length results = length keys"
  shows "\<exists>rs. merge_results keys results (filter (\<lambda>k. \<not> l k) keys) urs lrs = (Ok (), rs) \<and> list_all2 P keys rs"
  using assms
proof (induction keys arbitrary: results lrs urs)
  case (Cons k keys)
  obtain r results' where results: "results = r # results'" using Cons.prems(3) by (cases results) auto
  show ?case
  proof (cases "l k")
    case True
    then obtain x lrs' where lrs: "lrs = x # lrs'" "P k x" "list_all2 P (filter l keys) lrs'"
      using Cons.prems(1) by (auto simp: list_all2_Cons1)
    have "filter (\<lambda>k. \<not> l k) keys \<noteq> [] \<Longrightarrow> k \<noteq> hd (filter (\<lambda>k. \<not> l k) keys)"
      using True hd_in_set [of "filter (\<lambda>k. \<not> l k) keys"] by auto
    then show ?thesis using Cons.IH [OF lrs(3), of urs results'] Cons.prems(2,3) True lrs results by auto
  next
    case False
    then obtain x urs' where "urs = x # urs'" "P k x" "list_all2 P (filter (\<lambda>k. \<not> l k) keys) urs'"
      using Cons.prems(2) by (auto simp: list_all2_Cons1)
    then show ?thesis using Cons.IH [of lrs urs' results'] Cons.prems(1,3) False results by auto
  qed
qed simp

lemma all2_filter_view:
  assumes "list_all2 (\<lambda>k x. \<forall>n. x = Some n \<longrightarrow> (\<exists>d. v k = Some d \<and> n = of_nat (length d))) (filter l keys) rs"
    and "\<And>k. k \<in> set keys \<Longrightarrow> l k \<Longrightarrow> v k = m k"
  shows "list_all2 (\<lambda>k x. \<forall>n. x = Some n \<longrightarrow> (\<exists>d. m k = Some d \<and> n = of_nat (length d))) (filter l keys) rs"
  using assms(1) by (rule list.rel_mono_strong) (use assms(2) in auto)

abbreviation sizes_right :: "blob_map \<Rightarrow> store_key list \<Rightarrow> u64 option list \<Rightarrow> bool" where
  "sizes_right m \<equiv> list_all2 (\<lambda>k x. \<forall>n. x = Some n \<longrightarrow> (\<exists>d. m k = Some d \<and> n = of_nat (length d)))"

context blob_store
begin

lemma has_many_law:
  assumes "ok s" "store_has_many (ops e) ks s = (r, s')"
  shows "ok s' \<and> view s' \<subseteq>\<^sub>m view s \<and> (\<forall>rs. r = Ok rs \<longrightarrow> sizes_right (view s) ks rs)"
proof -
  obtain r1 rs1 s1 where h: "sd_has (ops e) ks (replicate (length ks) None) s = (r1, rs1, s1)" by (metis prod_cases3)
  with has_law [OF assms(1) h] assms(2) show ?thesis by (cases r1) (auto simp: store_has_many_def)
qed

end

lemma partition_has_law:
  assumes "blob_store ops1 ok1 view1" "blob_store ops2 ok2 view2" "ok1 (fst st)" "ok2 (snd st)"
    and "partition_has p (ops1 e) (ops2 f) ks rs st = (r, rs', st')" "length rs = length ks"
  shows "ok1 (fst st') \<and> ok2 (snd st') \<and> view1 (fst st') \<subseteq>\<^sub>m view1 (fst st) \<and> view2 (snd st') \<subseteq>\<^sub>m view2 (snd st) \<and>
    (r = Ok () \<longrightarrow> sizes_right (partition_view p view1 view2 st) ks rs')"
proof (cases "list_ex is_str ks")
  case True
  then show ?thesis using assms(3-5) by (auto simp: partition_has_def)
next
  case False
  let ?m = "partition_view p view1 view2 st"
  let ?up = "filter (\<lambda>k. \<not> is_lower p k) ks"
  obtain lr s' where l: "store_has_many (ops1 e) (filter (is_lower p) ks) (fst st) = (lr, s')" by fastforce
  obtain ur t' where u: "store_has_many (ops2 f) ?up (snd st) = (ur, t')" by fastforce
  note ll = blob_store.has_many_law [OF assms(1,3) l] and uu = blob_store.has_many_law [OF assms(2,4) u]
  have run: "(case lr of
      Inl err \<Rightarrow> (Err (case ur of Inr _ \<Rightarrow> err | Inl upper_err \<Rightarrow> error_merge err upper_err), rs, s', t')
    | Inr lrs \<Rightarrow>
        (case ur of
           Inl err \<Rightarrow> (Err err, rs, s', t')
         | Inr urs \<Rightarrow> (let (r, rs) = merge_results ks rs ?up urs lrs in (r, rs, s', t')))) = (r, rs', st')"
    using assms(5) False by (simp add: partition_has_def l u)
  then have st': "st' = (s', t')" by (cases lr; cases ur) (auto simp: split_beta)
  have "sizes_right ?m ks rs'" if ok: "r = Ok ()"
  proof -
    obtain lrs urs where o: "lr = Ok lrs" "ur = Ok urs" using run ok by (cases lr; cases ur) simp_all
    have "sizes_right ?m (filter (is_lower p) ks) lrs"
      by (rule all2_filter_view [where v = "view1 (fst st)"])
        (use ll o False in \<open>simp_all add: partition_view_def list_ex_iff\<close>)
    moreover have "sizes_right ?m ?up urs"
      by (rule all2_filter_view [where v = "view2 (snd st)"])
        (use uu o False in \<open>simp_all add: partition_view_def list_ex_iff\<close>)
    ultimately obtain out where "merge_results ks rs ?up urs lrs = (Ok (), out)" "sizes_right ?m ks out"
      using merge_results_all2 assms(6) by blast
    then show ?thesis using run o by simp
  qed
  then show ?thesis using ll uu st' by simp
qed

lemma partition_view_le:
  "view1 s' \<subseteq>\<^sub>m view1 s \<Longrightarrow> view2 t' \<subseteq>\<^sub>m view2 t \<Longrightarrow> partition_view p view1 view2 (s', t') \<subseteq>\<^sub>m partition_view p view1 view2 (s, t)"
  by (auto simp: partition_view_def map_le_def dom_def)

lemma partition_view_put:
  "is_lower p k \<Longrightarrow> view1 s' \<subseteq>\<^sub>m put_blob k d (view1 s) \<Longrightarrow>
     partition_view p view1 view2 (s', t) \<subseteq>\<^sub>m put_blob k d (partition_view p view1 view2 (s, t))"
  "\<not> is_lower p k \<Longrightarrow> view2 t' \<subseteq>\<^sub>m put_blob k d (view2 t) \<Longrightarrow>
     partition_view p view1 view2 (s, t') \<subseteq>\<^sub>m put_blob k d (partition_view p view1 view2 (s, t))"
  by (auto simp: partition_view_def put_blob_def map_le_def dom_def split: if_splits)

lemma is_lower_Digest [simp]: "is_lower p (Digest digest) \<longleftrightarrow> size_bytes digest < p"
  by (simp add: is_lower_def)

lemma partition_update_law:
  assumes "blob_store ops1 ok1 view1" "blob_store ops2 ok2 view2" "ok1 s" "ok2 t" "reader_ok rd" "blob_fits (rh_data rd)"
    and "partition_update p (ops1 e) (ops2 f) k rd sz (s, t) = (r, s', t')"
  shows "ok1 s' \<and> ok2 t' \<and>
      (rh_eof_sent rd \<and> partition_view p view1 view2 (s', t') \<subseteq>\<^sub>m put_blob k (rh_data rd) (partition_view p view1 view2 (s, t))
       \<or> r \<noteq> Ok () \<and> partition_view p view1 view2 (s', t') \<subseteq>\<^sub>m partition_view p view1 view2 (s, t))"
proof (cases k)
  case (Str x)
  then show ?thesis using assms(3,4,7) by (auto simp: partition_update_def)
next
  case (Digest digest)
  show ?thesis
  proof (cases "size_bytes digest < p")
    case True
    then have x: "sd_update (ops1 e) k rd sz s = (r, s')" "t' = t"
      using assms(7) by (auto simp: partition_update_def Digest split: prod.splits)
    from blob_store.update_law [OF assms(1,3,5,6) x(1)] show ?thesis
      using partition_view_put(1) [of p k view1 s' "rh_data rd" s view2 t] partition_view_le [of view1 s' s view2 t t p]
        assms(4) x(2) True Digest by auto
  next
    case False
    then have x: "sd_update (ops2 f) k rd sz t = (r, t')" "s' = s"
      using assms(7) by (auto simp: partition_update_def Digest split: prod.splits)
    from blob_store.update_law [OF assms(2,4,5,6) x(1)] show ?thesis
      using partition_view_put(2) [of p k view2 t' "rh_data rd" t view1 s] partition_view_le [of view1 s s view2 t' t p]
        assms(3) x(2) False Digest by auto
  qed
qed

lemma partition_get_law:
  assumes "blob_store ops1 ok1 view1" "blob_store ops2 ok2 view2" "ok1 s" "ok2 t" "writer_ready w"
    and "partition_get_part p (ops1 e) (ops2 f) k w off len (s, t) = (r, w', s', t')"
  shows "ok1 s' \<and> ok2 t' \<and> partition_view p view1 view2 (s', t') \<subseteq>\<^sub>m partition_view p view1 view2 (s, t) \<and>
      (r = Ok () \<longrightarrow> wh_eof_sent w') \<and>
      (wh_eof_sent w' \<longrightarrow> (\<exists>d. partition_view p view1 view2 (s, t) k = Some d \<and> wrote w w' (slice off len d)))"
proof (cases k)
  case (Str x)
  then show ?thesis using assms(3-6) by (auto simp: partition_get_part_def writer_ready_def)
next
  case (Digest digest)
  show ?thesis
  proof (cases "size_bytes digest < p")
    case True
    then have x: "sd_get_part (ops1 e) k w off len s = (r, w', s')" "t' = t"
      using assms(6) by (auto simp: partition_get_part_def Digest split: prod.splits)
    have "partition_view p view1 view2 (s, t) k = view1 s k" using True Digest by (simp add: partition_view_def)
    then show ?thesis
      using blob_store.get_law [OF assms(1,3,5) x(1)] partition_view_le [of view1 s' s view2 t t p] assms(4) x(2) by simp
  next
    case False
    then have x: "sd_get_part (ops2 f) k w off len t = (r, w', t')" "s' = s"
      using assms(6) by (auto simp: partition_get_part_def Digest split: prod.splits)
    have "partition_view p view1 view2 (s, t) k = view2 t k" using False Digest by (simp add: partition_view_def)
    then show ?thesis
      using blob_store.get_law [OF assms(2,4,5) x(1)] partition_view_le [of view1 s s view2 t' t p] assms(3) x(2) by simp
  qed
qed

lemma partition_blob_store:
  assumes "blob_store ops1 ok1 view1" "blob_store ops2 ok2 view2"
  shows "blob_store (partition_store p ops1 ops2) (\<lambda>st. ok1 (fst st) \<and> ok2 (snd st)) (partition_view p view1 view2)"
proof
  fix st k d assume "ok1 (fst st) \<and> ok2 (snd st)" "partition_view p view1 view2 st k = Some d"
  then show "blob_fits d"
    using blob_store.view_fits [OF assms(1)] blob_store.view_fits [OF assms(2)]
    by (auto simp: partition_view_def split: if_splits)
next
  fix st e ks rs r rs' st'
  assume a: "ok1 (fst st) \<and> ok2 (snd st)" "sd_has (partition_store p ops1 ops2 e) ks rs st = (r, rs', st')" "length rs = length ks"
  then have "partition_has p (ops1 (fst e)) (ops2 (snd e)) ks rs st = (r, rs', st')"
    by (simp add: partition_store_def split_beta)
  from partition_has_law [OF assms _ _ this a(3)] a(1)
  show "(ok1 (fst st') \<and> ok2 (snd st')) \<and> partition_view p view1 view2 st' \<subseteq>\<^sub>m partition_view p view1 view2 st \<and>
      (r = Ok () \<longrightarrow> sizes_right (partition_view p view1 view2 st) ks rs')"
    using partition_view_le [of view1 "fst st'" "fst st" view2 "snd st'" "snd st" p] by simp
next
  fix st rd e k sz r st'
  assume a: "ok1 (fst st) \<and> ok2 (snd st)" "reader_ok rd" "blob_fits (rh_data rd)"
    "sd_update (partition_store p ops1 ops2 e) k rd sz st = (r, st')"
  then have "partition_update p (ops1 (fst e)) (ops2 (snd e)) k rd sz (fst st, snd st) = (r, fst st', snd st')"
    by (simp add: partition_store_def split_beta)
  from partition_update_law [OF assms _ _ a(2,3) this] a(1)
  show "(ok1 (fst st') \<and> ok2 (snd st')) \<and>
      (rh_eof_sent rd \<and> partition_view p view1 view2 st' \<subseteq>\<^sub>m put_blob k (rh_data rd) (partition_view p view1 view2 st)
       \<or> r \<noteq> Ok () \<and> partition_view p view1 view2 st' \<subseteq>\<^sub>m partition_view p view1 view2 st)" by simp
next
  fix st w e k off len r w' st'
  assume a: "ok1 (fst st) \<and> ok2 (snd st)" "writer_ready w"
    "sd_get_part (partition_store p ops1 ops2 e) k w off len st = (r, w', st')"
  then have "partition_get_part p (ops1 (fst e)) (ops2 (snd e)) k w off len (fst st, snd st) = (r, w', fst st', snd st')"
    by (simp add: partition_store_def split_beta)
  from partition_get_law [OF assms _ _ a(2) this] a(1)
  show "(ok1 (fst st') \<and> ok2 (snd st')) \<and> partition_view p view1 view2 st' \<subseteq>\<^sub>m partition_view p view1 view2 st \<and>
      (r = Ok () \<longrightarrow> wh_eof_sent w') \<and>
      (wh_eof_sent w' \<longrightarrow> (\<exists>d. partition_view p view1 view2 st k = Some d \<and> wrote w w' (slice off len d)))" by simp
qed

end
