(* ===== verification/Store_Stack.thy ===== *)
theory Store_Stack
  imports Partition_Store
begin

text \<open>
  Stores put together. The laws of \<open>blob_store\<close> allow a store to forget and to refuse; a store over
  memory without limits does neither, which is the second contract, \<open>lossless_store\<close>. A content
  addressable storage as it is configured in practice, with small blobs behind a verification and
  large ones in a store of their own, refines a map from keys to blobs.
\<close>

section \<open>Stores that forget nothing\<close>

text \<open>\<open>accepts\<close> are the uploads the store is made for, in environments where no receiver hangs up.\<close>

locale lossless_store = blob_store ops ok view
  for ops :: "'e \<Rightarrow> 's store_driver" and ok view +
  fixes accepts :: "'e \<Rightarrow> store_key \<Rightarrow> bytes \<Rightarrow> upload_size_info \<Rightarrow> bool"
  assumes update_exact: "ok s \<Longrightarrow> reader_ok rd \<Longrightarrow> rh_eof_sent rd \<Longrightarrow> blob_fits (rh_data rd) \<Longrightarrow>
      accepts e k (rh_data rd) sz \<Longrightarrow>
      \<exists>s'. sd_update (ops e) k rd sz s = (Ok (), s') \<and> view s' = put_blob k (rh_data rd) (view s)"
    and get_exact: "ok s \<Longrightarrow> writer_ready w \<Longrightarrow> wh_takes w = None \<Longrightarrow> view s k = Some d \<Longrightarrow>
      \<exists>w' s'. sd_get_part (ops e) k w off len s = (Ok (), w', s') \<and> view s' = view s"
    and has_exact: "ok s \<Longrightarrow> view s k \<noteq> None \<or> accepts e k d sz \<Longrightarrow>
      \<exists>s'. sd_has (ops e) [k] [None] s = (Ok (), [map_option (\<lambda>d. of_nat (length d)) (view s k)], s') \<and> view s' = view s"
    and has_nothing: "ok s \<Longrightarrow> \<exists>s'. sd_has (ops e) [] [] s = (Ok (), [], s') \<and> view s' = view s"
begin

lemma store_has_exact:
  assumes "ok s" "view s k \<noteq> None \<or> accepts e k d sz"
  shows "\<exists>s'. store_has (ops e) k s = (Ok (map_option (\<lambda>d. of_nat (length d)) (view s k)), s') \<and> view s' = view s \<and> ok s'"
proof -
  obtain s' where h: "sd_has (ops e) [k] [None] s = (Ok (), [map_option (\<lambda>d. of_nat (length d)) (view s k)], s')" "view s' = view s"
    using has_exact [OF assms] by blast
  have "ok s'" using has_law [OF assms(1) h(1)] by simp
  then show ?thesis using h by (simp add: store_has_def)
qed

lemma get_part_unchunked_exact:
  assumes "ok s" "view s k = Some d"
  shows "\<exists>s'. get_part_unchunked (ops e) k off len s = (Ok (slice off len d), s') \<and> view s' = view s"
proof -
  have w: "writer_ready (new_writer None)" "wh_takes (new_writer None) = None"
    by (simp_all add: writer_ready_def new_writer_def)
  obtain w' s' where g: "sd_get_part (ops e) k (new_writer None) off len s = (Ok (), w', s')" "view s' = view s"
    using get_exact [OF assms(1) w assms(2)] by blast
  have d: "wrote (new_writer None) w' (slice off len d)" "wh_eof_sent w'"
    using get_law [OF assms(1) w(1) g(1)] assms(2) by auto
  note rd = wrote_reader [OF d(1)]
  have "length (slice off len d) \<le> limit_of (map_option unat len)"
    using slice_le view_fits [OF assms] by auto
  then have "fst (consume (map_option unat len) (reader_of w')) = Ok (slice off len d)"
    using consume_ok [of "reader_of w'" "map_option unat len"] rd d(2) by auto
  then show ?thesis using g by (simp add: get_part_unchunked_def split_beta)
qed

lemma exec_update_exact:
  assumes "ok s" "call_ok (Call_Update k cs True sz)" "accepts e k (concat cs) sz"
  shows "\<exists>s'. store_exec (ops e) (Call_Update k cs True sz) s = (Ans_Update True, s') \<and>
           view s' = put_blob k (concat cs) (view s)"
  using update_exact [OF assms(1), of "new_reader cs True" e k sz] assms(2,3) by auto

lemma exec_get_exact:
  assumes "ok s" "view s k = Some d"
  shows "\<exists>s'. store_exec (ops e) (Call_Get k off len) s = (Ans_Get (Some (slice off len d)), s') \<and> view s' = view s"
  using get_part_unchunked_exact [OF assms, of e off len] by (auto simp: to_option_def)

end

section \<open>Memory without limits\<close>

definition unlimited :: "em_config \<Rightarrow> bool" where
  "unlimited cfg \<longleftrightarrow> max_bytes cfg = 0 \<and> max_seconds cfg = 0 \<and> max_count cfg = 0"

lemma send_open:
  "writer_ready w \<Longrightarrow> wh_takes w = None \<Longrightarrow> d \<noteq> [] \<Longrightarrow>
   \<exists>w'. send d w = (Ok (), w') \<and> writer_ready w' \<and> wh_takes w' = None"
  by (auto simp: send_def send_get_bytes_on_error_def writer_ready_def)

context evicting_map
begin

lemma em_insert_unlimited:
  assumes "unlimited cfg"
  shows "map_of (contents L (snd (em_insert L E cfg now k v s))) = (map_of (contents L s))(k \<mapsto> v)"
proof -
  have "snd (em_insert L E cfg now k v s) = insert_one E k v (ucast now) s"
    using assms by (simp add: em_insert_state evict_items_unlimited unlimited_def)
  then show ?thesis by (simp only: contents_insert_one map_of_put_front)
qed

lemma em_get_unlimited:
  assumes "unlimited cfg" "\<And>v. entry_touch E v"
  shows "fst (em_get L E cfg now k s) = map_of (contents L s) k"
    and "map_of (contents L (snd (em_get L E cfg now k s))) = map_of (contents L s)"
proof -
  have ev: "evict_items L E cfg now s = s" using assms by (simp add: evict_items_unlimited unlimited_def)
  obtain r c where g: "lru_get L k (lru s) = (r, c)" by (cases "lru_get L k (lru s)")
  have r: "r = map_of (lru_iter L (lru s)) k" using get_value [of k "lru s"] g by simp
  have c: "lru_iter L c = promote k (lru_iter L (lru s))" using get_iter [of k "lru s"] g by simp
  show "fst (em_get L E cfg now k s) = map_of (contents L s) k"
    using assms(2) g r by (auto simp: em_get_def ev contents_lookup split: option.split)
  show "map_of (contents L (snd (em_get L E cfg now k s))) = map_of (contents L s)"
  proof (rule ext)
    fix a
    show "map_of (contents L (snd (em_get L E cfg now k s))) a = map_of (contents L s) a"
      using assms(2) g r c
      by (auto simp: em_get_def ev contents_lookup write_iter map_of_write_key split: option.split)
  qed
qed

end

context evicting_map
begin

lemma size_of_entry_unlimited:
  assumes "unlimited cfg" "\<And>v. entry_touch E v"
  shows "fst (size_of_entry L E cfg now False n k s) = map_option (entry_len E) (map_of (contents L s) k)"
    and "map_of (contents L (snd (size_of_entry L E cfg now False n k s))) = map_of (contents L s)"
proof -
  obtain r c where g: "lru_get L k (lru s) = (r, c)" by (cases "lru_get L k (lru s)")
  have r: "r = map_of (lru_iter L (lru s)) k" using get_value [of k "lru s"] g by simp
  have c: "lru_iter L c = promote k (lru_iter L (lru s))" using get_iter [of k "lru s"] g by simp
  have keep: "\<not> should_evict cfg now n i 0 (- 1)" for i :: "'v eviction_item"
    using assms(1) by (simp add: should_evict_def unlimited_def)
  show "fst (size_of_entry L E cfg now False n k s) = map_option (entry_len E) (map_of (contents L s) k)"
    using assms(2) g r by (auto simp: size_of_entry_def keep contents_lookup split: option.split)
  show "map_of (contents L (snd (size_of_entry L E cfg now False n k s))) = map_of (contents L s)"
    using assms(2) g r c
    by (auto simp: fun_eq_iff size_of_entry_def keep contents_lookup write_iter map_of_write_key split: option.split)
qed

end

lemma memory_has_exact:
  assumes "evicting_map L" "unlimited cfg"
  shows "\<exists>s'. memory_has L cfg now [k] [None] s = (Ok (), [map_option (\<lambda>d. of_nat (length d)) (memory_view L s k)], s')
           \<and> memory_view L s' = memory_view L s"
proof -
  have touch: "entry_touch bytes_wrapper v" for v by (simp add: bytes_wrapper_def)
  note e = evicting_map.size_of_entry_unlimited [OF assms touch, where now = now and n = "lru_len L (lru s)" and k = k and s = s]
  show ?thesis using e
    by (auto simp: memory_has_def sizes_for_keys_def memory_view_def fun_eq_iff bytes_wrapper_def split_beta)
qed

lemma memory_lossless:
  assumes "evicting_map L" "unlimited cfg"
  shows "lossless_store (memory_store L cfg) (memory_ok L) (memory_view L) (\<lambda>_ _ _ _. True)"
proof (intro lossless_store.intro memory_blob_store [OF assms(1)] lossless_store_axioms.intro)
  fix s rd e k sz
  assume rd: "reader_ok rd" "rh_eof_sent rd" "blob_fits (rh_data rd)"
  then have "fst (consume None rd) = Ok (rh_data rd)"
    using consume_ok [OF rd(1,2), of None] by (auto simp: blob_fits_def)
  then show "\<exists>s'. sd_update (memory_store L cfg e) k rd sz s = (Ok (), s') \<and>
      memory_view L s' = put_blob k (rh_data rd) (memory_view L s)"
    by (auto simp: memory_store_def memory_update_def memory_view_def put_blob_def fun_eq_iff
        evicting_map.em_insert_unlimited [OF assms])
next
  fix s w k d e off len
  assume w: "writer_ready w" "wh_takes w = None" and d: "memory_view L s k = Some d"
  have touch: "entry_touch bytes_wrapper v" for v by (simp add: bytes_wrapper_def)
  note get = evicting_map.em_get_unlimited [OF assms touch]
  obtain v t where g: "em_get L bytes_wrapper cfg e k s = (v, t)" by fastforce
  have t: "memory_view L t = memory_view L s" using get(2) [of e k s] g by (simp add: memory_view_def fun_eq_iff)
  have sent: "\<exists>w'. (if 0 < n then send (take n xs) w else (Ok (), w)) = (Ok (), w')"
    if "n \<le> length xs" for n and xs :: bytes
    using send_open [OF w, of "take n xs"] that by (cases n; cases xs) auto
  show "\<exists>w' s'. sd_get_part (memory_store L cfg e) k w off len s = (Ok (), w', s') \<and> memory_view L s' = memory_view L s"
  proof (cases "is_zero_digest k")
    case True
    then show ?thesis by (simp add: memory_store_def memory_get_part_def send_eof_def)
  next
    case False
    then have v: "v = Some d" using get(1) [of e k s] g d by (simp add: memory_view_def)
    let ?n = "min (case len of None \<Rightarrow> length d - unat off | Some l \<Rightarrow> unat l) (length d - unat off)"
    obtain w' where "(if 0 < ?n then send (take ?n (drop (unat off) d)) w else (Ok (), w)) = (Ok (), w')"
      using sent [of ?n "drop (unat off) d"] by auto
    then have "memory_get_part L cfg e k w off len s = (Ok (), snd (send_eof w'), t)"
      unfolding memory_get_part_def using False g v by (simp only: Let_def if_False prod.case option.case) (simp add: send_eof_def)
    then show ?thesis using t by (simp add: memory_store_def)
  qed
next
  fix s k e
  show "\<exists>s'. sd_has (memory_store L cfg e) [k] [None] s = (Ok (), [map_option (\<lambda>d. of_nat (length d)) (memory_view L s k)], s') \<and>
      memory_view L s' = memory_view L s"
    using memory_has_exact [OF assms] by (simp add: memory_store_def)
  show "\<exists>s'. sd_has (memory_store L cfg e) [] [] s = (Ok (), [], s') \<and> memory_view L s' = memory_view L s"
    by (simp add: memory_store_def memory_has_def sizes_for_keys_def)
qed

section \<open>Verification lets right uploads through\<close>

lemma unat_plus_small: "unat (n :: u64) + a < 2 ^ 64 \<Longrightarrow> unat (n + of_nat a) = unat n + a"
  by (simp add: unat_word_ariths unat_of_nat)

lemma sum_eq_self: "n + of_nat a = (n :: u64) \<Longrightarrow> unat n + a < 2 ^ 64 \<Longrightarrow> a = 0"
  using unat_plus_small [of n a] by simp

lemma check_size_passes:
  assumes "reader_ok rx" "rh_eof_sent rx" "size_right m n (rh_data rx)" "unat n + length (rh_data rx) < 2 ^ 64"
  shows "\<exists>rx'. check_size m n rx = (Ok (), rx') \<and> reader_ok rx' \<and> rh_eof_sent rx' \<and> rh_data rx' = rh_data rx"
proof (cases m)
  case None
  then show ?thesis using assms by (simp add: check_size_def)
next
  case (Some x)
  then have x: "x = n + of_nat (length (rh_data rx))" using assms(3) by (simp add: size_right_def)
  have le: "\<not> x < n" using unat_plus_small [OF assms(4)] by (simp add: x word_less_nat_alt)
  show ?thesis
  proof (cases "n = x")
    case False
    then show ?thesis using le Some assms by (simp add: check_size_def)
  next
    case True
    then have "rh_data rx = []" using sum_eq_self [of n "length (rh_data rx)"] assms(4) x by simp
    with assms(1) show ?thesis
      by (cases rule: peek_cases) (use True le Some assms(2) in \<open>auto simp: check_size_def\<close>)
  qed
qed

lemma inner_check_update_complete:
  assumes "reader_ok rx" "rh_eof_sent rx" "writer_ready tx" "wh_takes tx = None"
    and "size_right m n (rh_data rx)" "hash_right H h hs (rh_data rx)" "unat n + length (rh_data rx) < 2 ^ 64"
  shows "\<exists>tx'. inner_check_update H m h hs n tx rx = (Ok (), tx')"
  using assms
proof (induction "messages_left rx" arbitrary: hs n tx rx rule: less_induct)
  case less
  from less.prems(1) show ?case
  proof (cases rule: recv_cases)
    case (dropped e rx1)
    then show ?thesis using less.prems(2) by simp
  next
    case (eof rx1)
    then obtain rx2 where "check_size m n rx1 = (Ok (), rx2)"
      using check_size_passes [of rx1 m n] less.prems(5,7) by auto
    moreover have "check_end H m h hs n = Ok ()" using check_end_Ok less.prems(5,6) eof(2) by simp
    ultimately show ?thesis using eof(1) by (subst inner_check_update.simps) (simp add: send_eof_def)
  next
    case (chunk c rx1)
    let ?n = "n + of_nat (length c)"
    have len: "unat n + (length c + length (rh_data rx1)) < 2 ^ 64" using less.prems(7) chunk(3) by simp
    then have n: "unat ?n + length (rh_data rx1) < 2 ^ 64" using unat_plus_small [of n "length c"] by simp
    have right: "size_right m ?n (rh_data rx1)" "hash_right H h (map_option (hasher_update c) hs) (rh_data rx1)"
      using less.prems(5,6) chunk(3) by (simp_all only: right_step)
    obtain rx2 where rx2: "check_size m ?n rx1 = (Ok (), rx2)" "reader_ok rx2" "rh_eof_sent rx2" "rh_data rx2 = rh_data rx1"
      using check_size_passes [OF chunk(4) _ right(1) n] chunk(5) less.prems(2) by auto
    obtain tx' where tx': "send c tx = (Ok (), tx')" "writer_ready tx'" "wh_takes tx' = None"
      using send_open [OF less.prems(3,4) chunk(2)] by auto
    have "\<exists>tx''. inner_check_update H m h (map_option (hasher_update c) hs) ?n tx' rx2 = (Ok (), tx'')"
      using less.hyps [OF check_round_messages [OF chunk(1,2) rx2(1)] rx2(2,3) tx'(2,3)] right n rx2(4) by simp
    then show ?thesis using inner_check_update_chunk [OF chunk(1,2) rx2(1)] tx'(1) by simp
  qed
qed

definition verify_accepts ::
  "hash_funcs \<Rightarrow> digest_hasher_func \<Rightarrow> verify_cfg \<Rightarrow> ('e \<Rightarrow> store_key \<Rightarrow> bytes \<Rightarrow> upload_size_info \<Rightarrow> bool)
     \<Rightarrow> 'e \<times> nat option \<times> digest_hasher_func option result \<Rightarrow> store_key \<Rightarrow> bytes \<Rightarrow> upload_size_info \<Rightarrow> bool" where
  "verify_accepts H df V accepts =
     (\<lambda>(e, takes, ah) k d sz. takes = None \<and> accepts e k d sz \<and>
        (\<exists>digest. k = Digest digest \<and>
           (vs_verify_size V \<longrightarrow> size_bytes digest = of_nat (length d) \<and> (\<forall>n. sz = ExactSize n \<longrightarrow> n = size_bytes digest)) \<and>
           (vs_verify_hash V \<longrightarrow> (\<exists>v. ah = Ok v \<and> H (case v of None \<Rightarrow> df | Some f \<Rightarrow> f) d = packed_hash digest))))"

lemma verify_update_exact:
  assumes "lossless_store ops ok view accepts" "ok s" "reader_ok rd" "rh_eof_sent rd" "blob_fits (rh_data rd)"
    and "verify_accepts H df V accepts (e, takes, ah) k (rh_data rd) sz"
  shows "\<exists>s'. verify_update H df ah V takes (ops e) k rd sz s = (Ok (), s') \<and> view s' = put_blob k (rh_data rd) (view s)"
proof -
  obtain digest where digest: "k = Digest digest" and takes: "takes = None" and acc: "accepts e k (rh_data rd) sz"
    and size: "vs_verify_size V \<longrightarrow> size_bytes digest = of_nat (length (rh_data rd)) \<and> (\<forall>n. sz = ExactSize n \<longrightarrow> n = size_bytes digest)"
    and hash: "vs_verify_hash V \<longrightarrow> (\<exists>v. ah = Ok v \<and> H (case v of None \<Rightarrow> df | Some f \<Rightarrow> f) (rh_data rd) = packed_hash digest)"
    using assms(6) unfolding verify_accepts_def prod.case by blast
  define hr where "hr = (if vs_verify_hash V
      then map_sum id (\<lambda>v. Some (hasher_new (case v of None \<Rightarrow> df | Some f \<Rightarrow> f))) (err_tip ''In verify_store::update'' ah)
      else Ok None)"
  have "\<exists>hs. hr = Ok hs \<and> hash_right H (packed_hash digest) hs (rh_data rd)"
  proof (cases "vs_verify_hash V")
    case True
    then obtain v where "ah = Ok v" "H (case v of None \<Rightarrow> df | Some f \<Rightarrow> f) (rh_data rd) = packed_hash digest" using hash by blast
    then show ?thesis using True by (simp add: hr_def hash_right_def hasher_new_def)
  qed (simp add: hr_def hash_right_def)
  then obtain hs where hs: "hr = Ok hs" "hash_right H (packed_hash digest) hs (rh_data rd)" by blast
  let ?m = "if vs_verify_size V then Some (size_bytes digest) else None"
  have w: "writer_ready (new_writer None)" "wh_takes (new_writer None) = None"
    by (simp_all add: writer_ready_def new_writer_def)
  have "size_right ?m 0 (rh_data rd)" using size by (simp add: size_right_def)
  from inner_check_update_complete [OF assms(3,4) w this hs(2)] assms(5)
  obtain tx where tx: "inner_check_update H ?m (packed_hash digest) hs 0 (new_writer None) rd = (Ok (), tx)"
    by (auto simp: blob_fits_def)
  from inner_check_update_sound [OF assms(3) w(1), of H ?m "packed_hash digest" hs 0] tx
  have d: "wrote (new_writer None) tx (rh_data rd)" "wh_eof_sent tx" by (auto simp: check_sound_def)
  note rd = wrote_reader [OF d(1)]
  obtain s' where u: "sd_update (ops e) k (reader_of tx) sz s = (Ok (), s')" "view s' = put_blob k (rh_data rd) (view s)"
    using lossless_store.update_exact [OF assms(1,2) rd(1), of e k sz] rd d(2) acc assms(5) by auto
  have "\<not> (case sz of ExactSize n \<Rightarrow> vs_verify_size V \<and> n \<noteq> size_bytes digest | MaxSize _ \<Rightarrow> False)"
    using size by (cases sz) auto
  then have "verify_update H df ah V takes (ops e) k rd sz s = (Ok (), s')"
    unfolding verify_update_def digest Let_def store_key.case hr_def [symmetric] hs(1)
    using tx u(1) takes digest by simp
  then show ?thesis using u(2) by blast
qed

lemma verify_lossless:
  assumes "lossless_store ops ok view accepts"
  shows "lossless_store (verify_store H df V ops) ok view (verify_accepts H df V accepts)"
proof (intro lossless_store.intro verify_blob_store lossless_store_axioms.intro)
  show "blob_store ops ok view" using assms by (rule lossless_store.axioms(1))
next
  fix s rd e k sz
  assume "ok s" "reader_ok rd" "rh_eof_sent rd" "blob_fits (rh_data rd)" "verify_accepts H df V accepts e k (rh_data rd) sz"
  then show "\<exists>s'. sd_update (verify_store H df V ops e) k rd sz s = (Ok (), s') \<and> view s' = put_blob k (rh_data rd) (view s)"
    using verify_update_exact [OF assms] by (cases e) (simp add: verify_store_def)
next
  fix s w k d e off len
  assume "ok s" "writer_ready w" "wh_takes w = None" "view s k = Some d"
  then show "\<exists>w' s'. sd_get_part (verify_store H df V ops e) k w off len s = (Ok (), w', s') \<and> view s' = view s"
    using lossless_store.get_exact [OF assms] by (cases e) (simp add: verify_store_def)
next
  fix s k e d sz
  assume "ok s" "view s k \<noteq> None \<or> verify_accepts H df V accepts e k d sz"
  then show "\<exists>s'. sd_has (verify_store H df V ops e) [k] [None] s = (Ok (), [map_option (\<lambda>d. of_nat (length d)) (view s k)], s') \<and>
      view s' = view s"
    using lossless_store.has_exact [OF assms, of s k "fst e" d sz]
    by (cases e) (auto simp: verify_store_def verify_accepts_def)
next
  fix s e
  assume "ok s"
  then show "\<exists>s'. sd_has (verify_store H df V ops e) [] [] s = (Ok (), [], s') \<and> view s' = view s"
    using lossless_store.has_nothing [OF assms] by (cases e) (simp add: verify_store_def)
qed

section \<open>Partitions\<close>

definition partition_accepts ::
  "u64 \<Rightarrow> ('e \<Rightarrow> store_key \<Rightarrow> bytes \<Rightarrow> upload_size_info \<Rightarrow> bool) \<Rightarrow> ('f \<Rightarrow> store_key \<Rightarrow> bytes \<Rightarrow> upload_size_info \<Rightarrow> bool)
     \<Rightarrow> 'e \<times> 'f \<Rightarrow> store_key \<Rightarrow> bytes \<Rightarrow> upload_size_info \<Rightarrow> bool" where
  "partition_accepts p acc1 acc2 =
     (\<lambda>(e, f) k d sz. \<not> is_str k \<and> (if is_lower p k then acc1 e k d sz else acc2 f k d sz))"

lemma partition_view_put_eq:
  "\<not> is_str k \<Longrightarrow> is_lower p k \<Longrightarrow> view1 s' = put_blob k d (view1 s) \<Longrightarrow>
     partition_view p view1 view2 (s', t) = put_blob k d (partition_view p view1 view2 (s, t))"
  "\<not> is_str k \<Longrightarrow> \<not> is_lower p k \<Longrightarrow> view2 t' = put_blob k d (view2 t) \<Longrightarrow>
     partition_view p view1 view2 (s, t') = put_blob k d (partition_view p view1 view2 (s, t))"
  by (auto simp: partition_view_def put_blob_def fun_eq_iff)

lemma partition_has_exact:
  assumes "lossless_store ops1 ok1 view1 acc1" "lossless_store ops2 ok2 view2 acc2" "ok1 s" "ok2 t"
    and "partition_view p view1 view2 (s, t) k \<noteq> None \<or> partition_accepts p acc1 acc2 (e, f) k d sz"
  shows "\<exists>st'. partition_has p (ops1 e) (ops2 f) [k] [None] (s, t)
      = (Ok (), [map_option (\<lambda>d. of_nat (length d)) (partition_view p view1 view2 (s, t) k)], st') \<and>
    partition_view p view1 view2 st' = partition_view p view1 view2 (s, t)"
proof -
  have str: "\<not> is_str k" using assms(5) by (auto simp: partition_view_def partition_accepts_def)
  show ?thesis
  proof (cases "is_lower p k")
    case True
    then have "view1 s k \<noteq> None \<or> acc1 e k d sz" using assms(5) str by (auto simp: partition_view_def partition_accepts_def)
    from lossless_store.has_exact [OF assms(1,3) this] lossless_store.has_nothing [OF assms(2,4), of f] True str
    show ?thesis by (auto simp: partition_has_def store_has_many_def partition_view_def fun_eq_iff)
  next
    case False
    then have "view2 t k \<noteq> None \<or> acc2 f k d sz" using assms(5) str by (auto simp: partition_view_def partition_accepts_def)
    from lossless_store.has_exact [OF assms(2,4) this] lossless_store.has_nothing [OF assms(1,3), of e] False str
    show ?thesis by (auto simp: partition_has_def store_has_many_def partition_view_def fun_eq_iff)
  qed
qed

lemma partition_lossless:
  assumes "lossless_store ops1 ok1 view1 acc1" "lossless_store ops2 ok2 view2 acc2"
  shows "lossless_store (partition_store p ops1 ops2) (\<lambda>st. ok1 (fst st) \<and> ok2 (snd st)) (partition_view p view1 view2)
    (partition_accepts p acc1 acc2)"
proof (intro lossless_store.intro partition_blob_store lossless_store_axioms.intro)
  show "blob_store ops1 ok1 view1" "blob_store ops2 ok2 view2" using assms by (simp_all add: lossless_store.axioms(1))
next
  fix st rd e k sz
  assume a: "ok1 (fst st) \<and> ok2 (snd st)" "reader_ok rd" "rh_eof_sent rd" "blob_fits (rh_data rd)"
    "partition_accepts p acc1 acc2 e k (rh_data rd) sz"
  obtain digest where digest: "k = Digest digest" using a(5) by (cases k) (auto simp: partition_accepts_def split_beta)
  show "\<exists>st'. sd_update (partition_store p ops1 ops2 e) k rd sz st = (Ok (), st') \<and>
      partition_view p view1 view2 st' = put_blob k (rh_data rd) (partition_view p view1 view2 st)"
  proof (cases "is_lower p k")
    case True
    with a obtain s' where "sd_update (ops1 (fst e)) k rd sz (fst st) = (Ok (), s')" "view1 s' = put_blob k (rh_data rd) (view1 (fst st))"
      using lossless_store.update_exact [OF assms(1), of "fst st" rd "fst e" k sz] by (auto simp: partition_accepts_def split_beta)
    then show ?thesis using True digest partition_view_put_eq(1) [of k p view1 s' "rh_data rd" "fst st" view2 "snd st"]
      by (simp add: partition_store_def partition_update_def split_beta)
  next
    case False
    with a obtain t' where "sd_update (ops2 (snd e)) k rd sz (snd st) = (Ok (), t')" "view2 t' = put_blob k (rh_data rd) (view2 (snd st))"
      using lossless_store.update_exact [OF assms(2), of "snd st" rd "snd e" k sz] by (auto simp: partition_accepts_def split_beta)
    then show ?thesis using False digest partition_view_put_eq(2) [of k p view2 t' "rh_data rd" "snd st" view1 "fst st"]
      by (simp add: partition_store_def partition_update_def split_beta)
  qed
next
  fix st w k d e off len
  assume a: "ok1 (fst st) \<and> ok2 (snd st)" "writer_ready w" "wh_takes w = None" "partition_view p view1 view2 st k = Some d"
  obtain digest where digest: "k = Digest digest" using a(4) by (cases k) (auto simp: partition_view_def)
  show "\<exists>w' st'. sd_get_part (partition_store p ops1 ops2 e) k w off len st = (Ok (), w', st') \<and>
      partition_view p view1 view2 st' = partition_view p view1 view2 st"
  proof (cases "is_lower p k")
    case True
    with a digest obtain w' s' where "sd_get_part (ops1 (fst e)) k w off len (fst st) = (Ok (), w', s')" "view1 s' = view1 (fst st)"
      using lossless_store.get_exact [OF assms(1), of "fst st" w k d "fst e" off len] by (auto simp: partition_view_def)
    then show ?thesis using True digest
      by (simp add: partition_store_def partition_get_part_def split_beta partition_view_def fun_eq_iff)
  next
    case False
    with a digest obtain w' t' where "sd_get_part (ops2 (snd e)) k w off len (snd st) = (Ok (), w', t')" "view2 t' = view2 (snd st)"
      using lossless_store.get_exact [OF assms(2), of "snd st" w k d "snd e" off len] by (auto simp: partition_view_def)
    then show ?thesis using False digest
      by (simp add: partition_store_def partition_get_part_def split_beta partition_view_def fun_eq_iff)
  qed
next
  fix st k e d sz
  assume "ok1 (fst st) \<and> ok2 (snd st)" "partition_view p view1 view2 st k \<noteq> None \<or> partition_accepts p acc1 acc2 e k d sz"
  then show "\<exists>st'. sd_has (partition_store p ops1 ops2 e) [k] [None] st
      = (Ok (), [map_option (\<lambda>d. of_nat (length d)) (partition_view p view1 view2 st k)], st') \<and>
      partition_view p view1 view2 st' = partition_view p view1 view2 st"
    using partition_has_exact [OF assms, of "fst st" "snd st" p k "fst e" "snd e" d sz]
    by (simp add: partition_store_def split_beta)
next
  fix st e
  assume "ok1 (fst st) \<and> ok2 (snd st)"
  then show "\<exists>st'. sd_has (partition_store p ops1 ops2 e) [] [] st = (Ok (), [], st') \<and>
      partition_view p view1 view2 st' = partition_view p view1 view2 st"
    using lossless_store.has_nothing [OF assms(1), of "fst st" "fst e"] lossless_store.has_nothing [OF assms(2), of "snd st" "snd e"]
    by (auto simp: partition_store_def partition_has_def store_has_many_def split_beta partition_view_def fun_eq_iff)
qed

section \<open>A content addressable storage\<close>

text \<open>The default eviction policy has no limits.\<close>

definition default_policy :: em_config where
  "default_policy = em_config_new \<lparr>policy_max_bytes = 0, policy_evict_bytes = 0, policy_max_seconds = 0, policy_max_count = 0\<rparr>"

lemma unlimited_default: "unlimited default_policy"
  by (simp add: unlimited_def default_policy_def em_config_new_def)

definition cas_stack ::
  "hash_funcs \<Rightarrow> digest_hasher_func \<Rightarrow> verify_cfg \<Rightarrow> u64 \<Rightarrow> 'c memory_lru \<Rightarrow> em_config \<Rightarrow> em_config
     \<Rightarrow> (u64 \<times> nat option \<times> digest_hasher_func option result) \<times> u64 \<Rightarrow> ('c memory_state \<times> 'c memory_state) store_driver" where
  "cas_stack H df V p L cfg1 cfg2 = partition_store p (verify_store H df V (memory_store L cfg1)) (memory_store L cfg2)"

definition cas_view :: "u64 \<Rightarrow> 'c memory_lru \<Rightarrow> 'c memory_state \<times> 'c memory_state \<Rightarrow> blob_map" where
  "cas_view p L = partition_view p (memory_view L) (memory_view L)"

definition cas_ok :: "'c memory_lru \<Rightarrow> 'c memory_state \<times> 'c memory_state \<Rightarrow> bool" where
  "cas_ok L st \<longleftrightarrow> memory_ok L (fst st) \<and> memory_ok L (snd st)"

definition cas_accepts ::
  "hash_funcs \<Rightarrow> digest_hasher_func \<Rightarrow> verify_cfg \<Rightarrow> u64
     \<Rightarrow> (u64 \<times> nat option \<times> digest_hasher_func option result) \<times> u64 \<Rightarrow> store_key \<Rightarrow> bytes \<Rightarrow> upload_size_info \<Rightarrow> bool" where
  "cas_accepts H df V p = partition_accepts p (verify_accepts H df V (\<lambda>_ _ _ _. True)) (\<lambda>_ _ _ _. True)"

definition empty_blobs :: blob_map where
  "empty_blobs k = (if is_zero_digest k then Some [] else None)"

lemma cas_blob_store:
  assumes "evicting_map L"
  shows "blob_store (cas_stack H df V p L cfg1 cfg2) (cas_ok L) (cas_view p L)"
  unfolding cas_stack_def cas_view_def cas_ok_def [abs_def]
  by (intro partition_blob_store verify_blob_store memory_blob_store assms)

lemma cas_lossless:
  assumes "evicting_map L" "unlimited cfg1" "unlimited cfg2"
  shows "lossless_store (cas_stack H df V p L cfg1 cfg2) (cas_ok L) (cas_view p L) (cas_accepts H df V p)"
  unfolding cas_stack_def cas_view_def cas_ok_def [abs_def] cas_accepts_def
  by (intro partition_lossless verify_lossless memory_lossless assms)

interpretation cas: lossless_store
    "cas_stack H df V p (list_lru :: (store_key \<times> bytes eviction_item) list memory_lru) default_policy default_policy"
    "cas_ok list_lru" "cas_view p list_lru" "cas_accepts H df V p" for H df V p
  by (rule cas_lossless [OF ll_em.evicting_map_axioms unlimited_default unlimited_default])

lemma is_zero_not_str: "is_zero_digest k \<Longrightarrow> \<not> is_str k"
  by (cases k) (auto simp: is_zero_digest_def)

lemma cas_view_new:
  assumes "evicting_map L"
  shows "cas_view p L (memory_store_new L, memory_store_new L) = empty_blobs"
proof -
  have "contents L (memory_store_new L) = []"
    using assms lru_cache.iter_unbounded [of L]
    by (simp add: memory_store_new_def em_state_new_def contents_def evicting_map_def)
  then show ?thesis
    by (auto simp: cas_view_def partition_view_def memory_view_def empty_blobs_def fun_eq_iff dest: is_zero_not_str)
qed

text \<open>
  C4. The storage refines a map. Small blobs go through the verification into one memory store,
  large ones into another. Whatever a client calls, at whatever times and whichever limits the
  stores have, the answers are those of one map from keys to blobs that may forget entries: sizes
  and slices are those of the blob uploaded last, a failed upload changes nothing else, and an
  upload that ended early never becomes visible. Without limits nothing is forgotten: every blob
  of the map is read back, and every upload that fits its digest succeeds.
\<close>

theorem cas_stack_refines_map:
  assumes "evicting_map L" "list_all (\<lambda>p. call_ok (snd p)) calls"
    and "store_run (cas_stack H df V p L cfg1 cfg2) calls (memory_store_new L, memory_store_new L) = (as, st)"
  shows "blob_run empty_blobs (map snd calls) as (cas_view p L st) \<and>
    (unlimited cfg1 \<and> unlimited cfg2 \<longrightarrow>
       (\<forall>e k d off len. cas_view p L st k = Some d \<longrightarrow>
          (\<exists>st'. store_exec (cas_stack H df V p L cfg1 cfg2 e) (Call_Get k off len) st = (Ans_Get (Some (slice off len d)), st') \<and>
                 cas_view p L st' = cas_view p L st)) \<and>
       (\<forall>e k cs sz. call_ok (Call_Update k cs True sz) \<and> cas_accepts H df V p e k (concat cs) sz \<longrightarrow>
          (\<exists>st'. store_exec (cas_stack H df V p L cfg1 cfg2 e) (Call_Update k cs True sz) st = (Ans_Update True, st') \<and>
                 cas_view p L st' = put_blob k (concat cs) (cas_view p L st))))"
proof -
  have "cas_ok L (memory_store_new L, memory_store_new L)" using memory_ok_new [OF assms(1)] by (simp add: cas_ok_def)
  from blob_store.run_refines [OF cas_blob_store [OF assms(1)] this assms(2,3)]
  have run: "cas_ok L st" "blob_run empty_blobs (map snd calls) as (cas_view p L st)"
    by (simp_all add: cas_view_new [OF assms(1)])
  show ?thesis
  proof (intro conjI impI allI)
    fix e k d off len
    assume "unlimited cfg1 \<and> unlimited cfg2" "cas_view p L st k = Some d"
    then show "\<exists>st'. store_exec (cas_stack H df V p L cfg1 cfg2 e) (Call_Get k off len) st = (Ans_Get (Some (slice off len d)), st') \<and>
        cas_view p L st' = cas_view p L st"
      using lossless_store.exec_get_exact [OF cas_lossless [OF assms(1)] run(1)] by blast
  next
    fix e k cs sz
    assume "unlimited cfg1 \<and> unlimited cfg2" "call_ok (Call_Update k cs True sz) \<and> cas_accepts H df V p e k (concat cs) sz"
    then show "\<exists>st'. store_exec (cas_stack H df V p L cfg1 cfg2 e) (Call_Update k cs True sz) st = (Ans_Update True, st') \<and>
        cas_view p L st' = put_blob k (concat cs) (cas_view p L st)"
      using lossless_store.exec_update_exact [OF cas_lossless [OF assms(1)] run(1)] by blast
  qed (rule run(2))
qed

text \<open>An upload of a small blob and one of a large blob; both are read back.\<close>

definition sample_cas ::
  "(u64 \<times> nat option \<times> digest_hasher_func option result) \<times> u64
     \<Rightarrow> ((store_key \<times> bytes eviction_item) list memory_state \<times> (store_key \<times> bytes eviction_item) list memory_state) store_driver" where
  "sample_cas = cas_stack (\<lambda>f d. d) Sha256 \<lparr>vs_verify_size = True, vs_verify_hash = True\<rparr> 3 list_lru default_policy default_policy"

theorem cas_stack_refines_map_witness:
  "\<exists>st st'. store_exec (sample_cas ((1, None, Ok None), 1)) (Call_Update sample_digest [[1], [2]] True (ExactSize 2))
       (memory_store_new list_lru, memory_store_new list_lru) = (Ans_Update True, st) \<and>
     store_exec (sample_cas ((2, None, Ok None), 2)) (Call_Get sample_digest 1 None) st = (Ans_Get (Some [2]), st')"
proof -
  let ?V = "\<lparr>vs_verify_size = True, vs_verify_hash = True\<rparr>"
  let ?new = "(memory_store_new list_lru, memory_store_new list_lru)
    :: (store_key \<times> bytes eviction_item) list memory_state \<times> (store_key \<times> bytes eviction_item) list memory_state"
  let ?up = "Call_Update sample_digest [[1], [2]] True (ExactSize 2)"
  note refines = cas_stack_refines_map [OF ll_em.evicting_map_axioms, where H = "\<lambda>f d. d" and df = Sha256 and V = ?V and p = 3
      and ?cfg1.0 = default_policy and ?cfg2.0 = default_policy, folded sample_cas_def]
  have up: "call_ok ?up" by (simp add: blob_fits_def)
  have acc: "cas_accepts (\<lambda>f d. d) Sha256 ?V 3 ((1, None, Ok None), 1) sample_digest (concat [[1], [2]]) (ExactSize 2)"
    by (simp add: cas_accepts_def partition_accepts_def verify_accepts_def sample_digest_def)
  note lim = conjI [OF unlimited_default unlimited_default]
  have "list_all (\<lambda>p. call_ok (snd p)) []" "store_run sample_cas [] ?new = ([], ?new)" by simp_all
  from refines [OF this, THEN conjunct2, THEN mp, OF lim, THEN conjunct2, rule_format, OF conjI [OF up acc]]
  obtain st where st: "store_exec (sample_cas ((1, None, Ok None), 1)) ?up ?new = (Ans_Update True, st)"
      "cas_view 3 list_lru st = put_blob sample_digest (concat [[1], [2]]) (cas_view 3 list_lru ?new)"
    by blast
  have view: "cas_view 3 list_lru st sample_digest = Some [1, 2]"
    using st(2) by (simp add: put_blob_def sample_digest_def is_zero_digest_def)
  have "list_all (\<lambda>p. call_ok (snd p)) [(((1, None, Ok None), 1), ?up)]" using up by simp
  moreover have "store_run sample_cas [(((1, None, Ok None), 1), ?up)] ?new = ([Ans_Update True], st)"
    by (simp only: store_run.simps st(1) Let_def prod.case)
  ultimately obtain st' where
    "store_exec (sample_cas ((2, None, Ok None), 2)) (Call_Get sample_digest 1 None) st = (Ans_Get (Some (slice 1 None [1, 2])), st')"
    using refines [THEN conjunct2, THEN mp, OF _ _ lim, THEN conjunct1, rule_format, OF _ _ view] by blast
  moreover have "slice 1 None [1, 2] = ([2] :: bytes)" by (simp add: slice_def)
  ultimately show ?thesis using st(1) by metis
qed

end
