(* ===== verification/Shard_Store.thy ===== *)
theory Shard_Store
  imports Memory_Store
begin

unbundle bit_operations_syntax

text \<open>
  The store that spreads its keys over several stores (nativelink-store/src/shard_store.rs). The
  shards may be of different kinds; in the model they are drivers over one type of state. An index
  out of range is a panic, the outer \<open>None\<close>.
\<close>

section \<open>Searching a sorted slice\<close>

text \<open>\<open>slice::binary_search\<close> of the standard library: \<open>Ok\<close> of an index, or \<open>Err\<close> of the place to insert.\<close>

function bsearch_base :: "u32 list \<Rightarrow> u32 \<Rightarrow> nat \<Rightarrow> nat \<Rightarrow> nat" where
  "bsearch_base xs key base sz =
     (if sz \<le> 1 then base
      else let half = sz div 2; mid = base + half
           in bsearch_base xs key (if key < xs ! mid then base else mid) (sz - half))"
  by pat_completeness auto

termination
  by (relation "measure (\<lambda>(xs, key, base, sz). sz)") auto

declare bsearch_base.simps [simp del]

definition binary_search :: "u32 list \<Rightarrow> u32 \<Rightarrow> nat + nat" where
  "binary_search xs key =
     (if xs = [] then Inl 0
      else let base = bsearch_base xs key 0 (length xs)
           in if xs ! base = key then Inr base
              else Inl (if xs ! base < key then base + 1 else base))"

section \<open>Choice of a shard\<close>

fun scan_weights :: "u32 \<Rightarrow> u32 list \<Rightarrow> u32 list" where
  "scan_weights st [] = []"
| "scan_weights st (w # ws) = (st + w) # scan_weights (st + w) ws"

text \<open>The weights of the configuration, \<open>None\<close> being one; a total of zero divides by zero.\<close>

definition shard_new :: "u32 option list \<Rightarrow> nat \<Rightarrow> u32 list result option" where
  "shard_new spec n_stores =
     (if length spec \<noteq> n_stores
      then Some (Err (make_input_err ''Config shards do not match stores length''))
      else if spec = [] then Some (Err (make_input_err ''ShardStore must have at least one store''))
      else let configured = map (\<lambda>w. case w of None \<Rightarrow> 1 | Some w \<Rightarrow> (ucast w :: u64)) spec;
               total_weight = sum_list configured
           in if total_weight = 0 then None
              else let weights = scan_weights 0 (map (\<lambda>w. ucast ((0xFFFFFFFF * w) div total_weight)) configured)
                   in Some (Ok (list_update weights (length weights - 1) (- 1))))"

definition from_le_bytes :: "u8 list \<Rightarrow> u32" where
  "from_le_bytes bs = foldr (\<lambda>b acc. ucast b OR push_bit 8 acc) bs 0"

definition to_le_bytes :: "u64 \<Rightarrow> u8 list" where
  "to_le_bytes v = map (\<lambda>i. ucast (drop_bit (8 * i) v)) [0..<8]"

text \<open>Strings are hashed by the standard library's hasher, whose function is not specified: \<open>hash_str\<close>.\<close>

definition shard_key :: "(bytes \<Rightarrow> u64) \<Rightarrow> store_key \<Rightarrow> u32" where
  "shard_key hash_str key =
     (case key of
        Digest digest \<Rightarrow>
          let size_bytes = to_le_bytes (size_bytes digest); h = packed_hash digest
          in 0 XOR from_le_bytes (take 4 h) XOR from_le_bytes (take 4 (drop 4 h))
             XOR from_le_bytes (take 4 (drop 8 h)) XOR from_le_bytes (take 4 (drop 12 h))
             XOR from_le_bytes (take 4 (drop 16 h)) XOR from_le_bytes (take 4 (drop 20 h))
             XOR from_le_bytes (take 4 (drop 24 h)) XOR from_le_bytes (take 4 (drop 28 h))
             XOR from_le_bytes (take 4 size_bytes) XOR from_le_bytes (take 4 (drop 4 size_bytes))
      | Str s \<Rightarrow> ucast (drop_bit 32 (hash_str (str_bytes s))))"

definition get_store_index :: "(bytes \<Rightarrow> u64) \<Rightarrow> u32 list \<Rightarrow> store_key \<Rightarrow> nat" where
  "get_store_index hash_str weights key =
     (case binary_search weights (shard_key hash_str key) of Inr i \<Rightarrow> i | Inl i \<Rightarrow> i)"

section \<open>The store\<close>

record 's shard_store =
  sh_hash_str :: "bytes \<Rightarrow> u64"
  sh_weights :: "u32 list"
  sh_stores :: "'s store_driver list"

definition shard_index :: "'s shard_store \<Rightarrow> store_key \<Rightarrow> nat option" where
  "shard_index S key =
     (let i = get_store_index (sh_hash_str S) (sh_weights S) key
      in if i < length (sh_stores S) then Some i else None)"

definition shard_update ::
  "'s shard_store \<Rightarrow> store_key \<Rightarrow> read_half \<Rightarrow> upload_size_info \<Rightarrow> 's list \<Rightarrow> (unit result \<times> 's list) option" where
  "shard_update S key reader size_info ss =
     map_option (\<lambda>i. let (r, s') = sd_update (sh_stores S ! i) key reader size_info (ss ! i)
                     in (err_tip ''In ShardStore::update()'' r, ss[i := s'])) (shard_index S key)"

definition shard_get_part ::
  "'s shard_store \<Rightarrow> store_key \<Rightarrow> write_half \<Rightarrow> u64 \<Rightarrow> u64 option \<Rightarrow> 's list
     \<Rightarrow> (unit result \<times> write_half \<times> 's list) option" where
  "shard_get_part S key writer offset len ss =
     map_option (\<lambda>i. let (r, w, s') = sd_get_part (sh_stores S ! i) key writer offset len (ss ! i)
                     in (err_tip ''In ShardStore::get_part()'' r, w, ss[i := s'])) (shard_index S key)"

text \<open>The keys of one shard, with their places.\<close>

definition keys_for_store :: "'s shard_store \<Rightarrow> store_key list \<Rightarrow> nat \<Rightarrow> (nat \<times> store_key) list" where
  "keys_for_store S keys i = filter (\<lambda>(_, key). shard_index S key = Some i) (enumerate 0 keys)"

fun set_results :: "nat list \<Rightarrow> u64 option list \<Rightarrow> u64 option list \<Rightarrow> u64 option list" where
  "set_results (key_idx # key_idxs) (x # inner_results) results = set_results key_idxs inner_results (results[key_idx := x])"
| "set_results _ _ results = results"

text \<open>The futures of the shards end in any order, \<open>order\<close>; the first error ends the loop.\<close>

fun shard_has_loop ::
  "'s shard_store \<Rightarrow> store_key list \<Rightarrow> nat list \<Rightarrow> u64 option list \<Rightarrow> 's list
     \<Rightarrow> unit result \<times> u64 option list \<times> 's list" where
  "shard_has_loop S keys [] results ss = (Ok (), results, ss)"
| "shard_has_loop S keys (i # order) results ss =
     (let kfs = keys_for_store S keys i;
          (r, inner_results, s') = sd_has (sh_stores S ! i) (map snd kfs) (replicate (length kfs) None) (ss ! i)
      in case err_tip ''In ShardStore::has_with_results() for store {store_idx}'' r of
           Inl e \<Rightarrow> (Err e, results, ss[i := s'])
         | Inr _ \<Rightarrow> shard_has_loop S keys order (set_results (map fst kfs) inner_results results) (ss[i := s']))"

definition shard_has ::
  "'s shard_store \<Rightarrow> nat list \<Rightarrow> store_key list \<Rightarrow> u64 option list \<Rightarrow> 's list
     \<Rightarrow> (unit result \<times> u64 option list \<times> 's list) option" where
  "shard_has S order keys results ss =
     (if length keys = 1
      then map_option (\<lambda>i. let (r, rs, s') = sd_has (sh_stores S ! i) keys results (ss ! i)
                           in (err_tip ''In ShardStore::has_with_results() for store {store_idx}}'' r, rs, ss[i := s']))
             (shard_index S (hd keys))
      else if list_ex (\<lambda>key. shard_index S key = None) keys then None
      else Some (shard_has_loop S keys order results ss))"

definition shard_optimized_for ::
  "'s shard_store \<Rightarrow> store_key option \<Rightarrow> store_optimizations \<Rightarrow> bool option" where
  "shard_optimized_for S key opt =
     (case key of
        None \<Rightarrow> Some False
      | Some k \<Rightarrow> map_option (\<lambda>i. sd_optimized_for (sh_stores S ! i) (Some k) opt) (shard_index S k))"

section \<open>The search finds the shard\<close>

lemma bsearch_base_spec:
  assumes "sorted xs" "1 \<le> sz" "base + sz \<le> length xs" "base = 0 \<or> xs ! base \<le> key"
    and "\<And>j. base + sz \<le> j \<Longrightarrow> j < length xs \<Longrightarrow> key < xs ! j"
    and "b = bsearch_base xs key base sz"
  shows "b < length xs \<and> (b = 0 \<or> xs ! b \<le> key) \<and> (\<forall>j. b < j \<and> j < length xs \<longrightarrow> key < xs ! j)"
  using assms
proof (induction xs key base sz rule: bsearch_base.induct)
  case (1 xs key base sz)
  show ?case
  proof (cases "sz \<le> 1")
    case True
    then have "b = base" using 1(7) by (subst (asm) bsearch_base.simps) simp
    then show ?thesis using 1(3-6) True by auto
  next
    case False
    define half where "half = sz div 2"
    define base' where "base' = (if key < xs ! (base + half) then base else base + half)"
    have half: "0 < half" "half < sz" using False by (auto simp: half_def)
    have up: "key < xs ! j" if "base' + (sz - half) \<le> j" "j < length xs" for j
    proof (cases "key < xs ! (base + half)")
      case True
      have "base + half \<le> j" using that(1) True half False by (simp add: base'_def half_def)
      then have "xs ! (base + half) \<le> xs ! j" using that(2) 1(2) by (simp add: sorted_nth_mono)
      then show ?thesis using True by simp
    next
      case False
      then show ?thesis using that half 1(6) by (simp add: base'_def)
    qed
    have b: "b = bsearch_base xs key base' (sz - half)"
      using 1(7) False by (subst (asm) bsearch_base.simps) (simp add: Let_def half_def base'_def)
    show ?thesis
      by (rule 1(1) [OF False half_def refl, folded base'_def, OF 1(2) _ _ _ up b])
        (use half 1(4,5) in \<open>auto simp: base'_def\<close>)
  qed
qed

lemma binary_search_spec:
  assumes "sorted xs" "xs \<noteq> []" "key \<le> last xs" "i = (case binary_search xs key of Inr i \<Rightarrow> i | Inl i \<Rightarrow> i)"
  shows "i < length xs \<and> key \<le> xs ! i \<and> (\<forall>j<i. xs ! j \<le> key)"
proof -
  define b where "b = bsearch_base xs key 0 (length xs)"
  have b: "b < length xs" "b = 0 \<or> xs ! b \<le> key" "\<And>j. b < j \<Longrightarrow> j < length xs \<Longrightarrow> key < xs ! j"
    using bsearch_base_spec [OF assms(1) _ _ _ _ b_def] assms(2) by (auto simp: Suc_le_eq)
  have le: "xs ! j \<le> xs ! b" if "j \<le> b" for j using sorted_nth_mono [OF assms(1) that b(1)] .
  consider "xs ! b = key" | "xs ! b < key" | "key < xs ! b" by (rule linorder_cases)
  then show ?thesis
  proof cases
    case 1
    then show ?thesis using assms(2,4) b(1) le by (auto simp: binary_search_def b_def [symmetric])
  next
    case 2
    then have "b \<noteq> length xs - 1" using assms(2,3) by (auto simp: last_conv_nth)
    then have "b + 1 < length xs" using b(1) by simp
    moreover have "i = b + 1" using 2 assms(2,4) by (simp add: binary_search_def b_def [symmetric])
    moreover have "xs ! j \<le> key" if "j < b + 1" for j using le [of j] that 2 by simp
    ultimately show ?thesis using b(3) [of "b + 1"] by auto
  next
    case 3
    then have "b = 0" using b(2) by auto
    then have "i = 0" using 3 assms(2,4) by (auto simp: binary_search_def b_def [symmetric])
    then show ?thesis using 3 \<open>b = 0\<close> assms(2) by auto
  qed
qed

section \<open>The weights\<close>

lemma div_sum_le: "sum_list (map (\<lambda>w. (m * w) div t) ws) \<le> (m * sum_list ws) div (t :: nat)"
proof (induction ws)
  case (Cons w ws)
  have "(m * w) div t + (m * sum_list ws) div t \<le> (m * w + m * sum_list ws) div t"
    unfolding div_add1_eq [of "m * w"] by simp
  with Cons.IH show ?case by (simp add: distrib_left)
qed simp

lemma scan_weights_length [simp]: "length (scan_weights st ws) = length ws"
  by (induction ws arbitrary: st) simp_all

lemma scan_weights_sorted:
  assumes "unat st + sum_list (map unat ws) < 2 ^ 32"
  shows "sorted (scan_weights st ws) \<and> (\<forall>x \<in> set (scan_weights st ws). st \<le> x)"
  using assms
proof (induction ws arbitrary: st)
  case (Cons w ws)
  then have st: "unat (st + w) = unat st + unat w" by (simp add: unat_word_ariths)
  then have "st \<le> st + w" by (simp add: word_le_nat_alt)
  with Cons.IH [of "st + w"] Cons.prems st show ?case by auto
qed simp

lemma sorted_last_max:
  fixes xs :: "u32 list"
  assumes "sorted xs"
  shows "sorted (list_update xs (length xs - 1) (- 1))"
proof (cases xs rule: rev_cases)
  case (snoc ys y)
  then have "list_update xs (length xs - 1) (- 1) = ys @ [- 1]" by simp
  moreover have "sorted ys" using assms snoc by (simp add: sorted_append)
  ultimately show ?thesis by (simp add: sorted_append)
qed simp

definition configured_weights :: "u32 option list \<Rightarrow> u64 list" where
  "configured_weights spec = map (\<lambda>w. case w of None \<Rightarrow> 1 | Some w \<Rightarrow> (ucast w :: u64)) spec"

lemma configured_small: "w \<in> set (configured_weights spec) \<Longrightarrow> unat w < 2 ^ 32"
proof -
  have "unat (ucast x :: u64) < 2 ^ 32" for x :: u32
  proof -
    have "unat x < 2 ^ 32" using unsigned_less [of x] by simp
    then have "take_bit 64 (unat x) < 2 ^ 32" using le_less_trans take_bit_nat_less_eq_self by blast
    then show ?thesis by (simp add: unsigned_ucast_eq)
  qed
  then show "w \<in> set (configured_weights spec) \<Longrightarrow> unat w < 2 ^ 32"
    by (auto simp: configured_weights_def split: option.splits)
qed

lemma unat_sum_list:
  fixes ws :: "u64 list"
  assumes "sum_list (map unat ws) < 2 ^ 64"
  shows "unat (sum_list ws) = sum_list (map unat ws)"
  using assms by (induction ws) (simp_all add: unat_word_ariths)

lemma configured_total:
  assumes "length spec < 2 ^ 32"
  shows "unat (sum_list (configured_weights spec)) = sum_list (map unat (configured_weights spec))"
proof (rule unat_sum_list)
  have "sum_list (map unat (configured_weights spec)) \<le> length spec * (2 ^ 32 - 1)"
  proof -
    have "sum_list (map unat ws) \<le> length ws * (2 ^ 32 - 1)" if "\<And>w. w \<in> set ws \<Longrightarrow> unat w < 2 ^ 32" for ws :: "u64 list"
      using that
    proof (induction ws)
      case (Cons w ws)
      then have "unat w \<le> 2 ^ 32 - 1" "sum_list (map unat ws) \<le> length ws * (2 ^ 32 - 1)" by fastforce+
      then show ?case by simp
    qed simp
    from this [of "configured_weights spec"] configured_small show ?thesis by (simp add: configured_weights_def)
  qed
  also have "\<dots> < 2 ^ 64" using assms by simp
  finally show "sum_list (map unat (configured_weights spec)) < 2 ^ 64" .
qed

lemma share_exact:
  fixes w t :: u64
  assumes "unat w < 2 ^ 32" "w \<le> t"
  shows "unat (ucast ((0xFFFFFFFF * w) div t) :: u32) = ((2 ^ 32 - 1) * unat w) div unat t"
proof -
  have "unat (0xFFFFFFFF * w) = (2 ^ 32 - 1) * unat w" using assms(1) by (simp add: unat_word_ariths)
  then have q: "unat ((0xFFFFFFFF * w) div t) = ((2 ^ 32 - 1) * unat w) div unat t" by (simp add: unat_div)
  have "((2 ^ 32 - 1) * unat w) div unat t \<le> 2 ^ 32 - 1"
  proof (cases "unat t = 0")
    case False
    have "unat w \<le> unat t" using assms(2) by (simp add: word_le_nat_alt)
    then have "(2 ^ 32 - 1) * unat w \<le> (2 ^ 32 - 1) * unat t" by simp
    then have "((2 ^ 32 - 1) * unat w) div unat t \<le> ((2 ^ 32 - 1) * unat t) div unat t" by (rule div_le_mono)
    then show ?thesis using False by simp
  qed simp
  then show ?thesis using q by (simp add: unsigned_ucast_eq take_bit_nat_eq_self)
qed

lemma shard_new_weights:
  assumes "shard_new spec n = Some (Ok weights)" "length spec < 2 ^ 32"
  shows "sorted weights" "length weights = n" "weights \<noteq> []" "last weights = - 1"
proof -
  let ?ws = "configured_weights spec"
  let ?t = "sum_list ?ws"
  let ?shares = "map (\<lambda>w. ucast ((0xFFFFFFFF * w) div ?t) :: u32) ?ws"
  have new: "length spec = n" "spec \<noteq> []" "?t \<noteq> 0"
      "weights = list_update (scan_weights 0 ?shares) (length (scan_weights 0 ?shares) - 1) (- 1)"
    using assms(1) by (auto simp: shard_new_def Let_def configured_weights_def [symmetric] split: if_splits)
  have len: "length ?ws = n" using new(1) by (simp add: configured_weights_def)
  have le: "w \<le> ?t" if "w \<in> set ?ws" for w
    using member_le_sum_list [of "unat w" "map unat ?ws"] that configured_total [OF assms(2)]
    by (simp add: word_le_nat_alt)
  have "map unat ?shares = map (\<lambda>w. ((2 ^ 32 - 1) * w) div unat ?t) (map unat ?ws)"
    using share_exact [OF configured_small le] by (simp add: comp_def)
  then have "sum_list (map unat ?shares) \<le> ((2 ^ 32 - 1) * sum_list (map unat ?ws)) div unat ?t"
    using div_sum_le [of "2 ^ 32 - 1" "unat ?t" "map unat ?ws"] by (simp only:)
  also have "\<dots> = 2 ^ 32 - 1"
  proof -
    have "unat ?t \<noteq> 0" using new(3) by (simp add: unat_eq_zero)
    then show ?thesis using configured_total [OF assms(2)] by (metis nonzero_mult_div_cancel_right)
  qed
  finally have "unat 0 + sum_list (map unat ?shares) < 2 ^ 32" by simp
  from scan_weights_sorted [OF this] show "sorted weights" unfolding new(4) by (intro sorted_last_max) simp
  show "length weights = n" using len by (simp add: new(4))
  then show "weights \<noteq> []" using new(1,2) by auto
  have "0 < n" using new(1,2) by auto
  then have "length weights - 1 < length (scan_weights 0 ?shares)" using len by (simp add: new(4))
  then show "last weights = - 1" using \<open>weights \<noteq> []\<close> by (simp add: new(4) last_conv_nth)
qed

section \<open>Properties\<close>

lemma shard_index_spec:
  assumes "shard_new spec n = Some (Ok (sh_weights S))" "length spec < 2 ^ 32" "length (sh_stores S) = n"
  shows "\<exists>i<n. shard_index S key = Some i \<and> shard_key (sh_hash_str S) key \<le> sh_weights S ! i \<and>
           (\<forall>j<i. sh_weights S ! j \<le> shard_key (sh_hash_str S) key)"
proof -
  note w = shard_new_weights [OF assms(1,2)]
  have "shard_key (sh_hash_str S) key \<le> last (sh_weights S)" using w(4) by simp
  from binary_search_spec [OF w(1,3) this refl] w(2) assms(3) show ?thesis
    by (auto simp: shard_index_def get_store_index_def Let_def)
qed


definition sample_shards :: "unit shard_store" where
  "sample_shards =
     \<lparr>sh_hash_str = (\<lambda>_. 0), sh_weights = [0x55555555, 0xFFFFFFFF], sh_stores = [noop_store, noop_store]\<rparr>"


end
