(* ===== verification/Fast_Slow_Store.thy ===== *)
theory Fast_Slow_Store
  imports Store_Stack
begin

text \<open>
  The store that keeps what is in a slow store in a fast one too
  (nativelink-store/src/fast_slow_store.rs), over any two stores. Streams between the stores are
  channels; when a receiver hangs up early is an argument, as for the verification store. The
  outer \<open>None\<close> is the panic of \<open>Bytes::slice\<close> on an inverted range. Counters are left out.
\<close>

section \<open>Ranges\<close>

definition calculate_range :: "u64 \<times> u64 \<Rightarrow> u64 \<times> u64 \<Rightarrow> (nat \<times> nat) option" where
  "calculate_range received_range send_range =
     (if snd received_range \<le> fst received_range then None
      else let start = max (fst received_range) (fst send_range);
               end_pos = min (snd received_range) (snd send_range);
               contains = (\<lambda>x. fst received_range \<le> x \<and> x < snd received_range)
           in if contains start \<and> contains (end_pos - 1)
              then Some (unat (start - fst received_range), unat (end_pos - fst received_range))
              else None)"

section \<open>Reading\<close>

text \<open>One chunk of the slow store goes to the writer, as far as it was asked for.\<close>

definition send_in_range :: "u64 \<times> u64 \<Rightarrow> u64 \<Rightarrow> bytes \<Rightarrow> write_half \<Rightarrow> (unit result \<times> write_half) option" where
  "send_in_range send_range bytes_received output_buf writer =
     (case calculate_range (bytes_received, bytes_received + of_nat (length output_buf)) send_range of
        None \<Rightarrow> Some (Ok (), writer)
      | Some (i, j) \<Rightarrow> if j < i then None else Some (send (take (j - i) (drop i output_buf)) writer))"

function fs_get_loop ::
  "u64 \<times> u64 \<Rightarrow> u64 \<Rightarrow> read_half \<Rightarrow> write_half \<Rightarrow> write_half \<Rightarrow> (unit result result \<times> write_half \<times> write_half) option" where
  "fs_get_loop send_range bytes_received slow_rx fast_tx writer =
     (case recv slow_rx of
        (Inl e, _) \<Rightarrow> Some (err_tip ''Failed to read data data buffer from slow store'' (Err e), fast_tx, writer)
      | (Inr output_buf, slow_rx') \<Rightarrow>
          if output_buf = [] then let (r, fast_tx') = send_eof fast_tx in Some (Ok r, fast_tx', writer)
          else (case send_in_range send_range bytes_received output_buf writer of
                  None \<Rightarrow> None
                | Some (writer_res, writer') \<Rightarrow>
                    (let (fast_tx_res, fast_tx') = send output_buf fast_tx
                     in case err_tip ''Failed to write to fast store in fast_slow store'' fast_tx_res of
                          Inl e \<Rightarrow> Some (Err e, fast_tx', writer')
                        | Inr _ \<Rightarrow>
                            (case err_tip ''Failed to write result to writer in fast_slow store'' writer_res of
                               Inl e \<Rightarrow> Some (Err e, fast_tx', writer')
                             | Inr _ \<Rightarrow>
                                 fs_get_loop send_range (bytes_received + of_nat (length output_buf)) slow_rx' fast_tx' writer'))))"
  by pat_completeness auto

termination
  by (relation "measure (\<lambda>(rg, n, rx, tx, w). messages_left rx)") (auto dest!: sym [of _ "recv _"] dest: recv_messages)

declare fs_get_loop.simps [simp del]

text \<open>The reader of the slow store and the fast store may hang up: \<open>fst takes\<close> and \<open>snd takes\<close>.\<close>

definition fs_get_part ::
  "nat option \<times> nat option \<Rightarrow> 's store_driver \<Rightarrow> 't store_driver \<Rightarrow> store_key \<Rightarrow> write_half \<Rightarrow> u64 \<Rightarrow> u64 option
     \<Rightarrow> 's \<times> 't \<Rightarrow> (unit result \<times> write_half \<times> 's \<times> 't) option" where
  "fs_get_part takes fast slow key writer offset len st =
     (case store_has fast key (fst st) of
        (Inl e, s1) \<Rightarrow> Some (Err e, writer, s1, snd st)
      | (Inr (Some _), s1) \<Rightarrow>
          (let (r, w, s2) = sd_get_part fast key writer offset len s1 in Some (r, w, s2, snd st))
      | (Inr None, s1) \<Rightarrow>
          (case store_has slow key (snd st) of
             (Inl e, t1) \<Rightarrow> Some (err_tip ''Failed to run has() on slow store'' (Err e), writer, s1, t1)
           | (Inr None, t1) \<Rightarrow>
               Some (Err (make_err NotFound ''Object not found in either fast or slow store''), writer, s1, t1)
           | (Inr (Some sz), t1) \<Rightarrow>
               (let send_range = (offset, case len of None \<Rightarrow> - 1 | Some l \<Rightarrow> l + offset);
                    (slow_res, slow_tx, t2) = store_get slow key (new_writer (fst takes)) t1
                in case fs_get_loop send_range 0 (reader_of slow_tx) (new_writer (snd takes)) writer of
                     None \<Rightarrow> None
                   | Some (data_stream_res, fast_tx, w) \<Rightarrow>
                       (let (fast_res, s2) = sd_update fast key (reader_of fast_tx) (ExactSize sz) s1
                        in case data_stream_res of
                             Inr fast_eof_res \<Rightarrow>
                               (let (eof_res, w') = send_eof w
                                in Some (result_merge (result_merge (result_merge fast_eof_res fast_res) slow_res) eof_res, w', s2, t2))
                           | Inl err \<Rightarrow>
                               Some (result_merge (result_merge fast_res slow_res) (Err err), w, s2, t2)))))"

text \<open>The loop that throws the stream away; unlike \<open>drain\<close> it adds nothing to an error.\<close>

function recv_all :: "read_half \<Rightarrow> unit result" where
  "recv_all rx =
     (case recv rx of
        (Inl e, _) \<Rightarrow> Err e
      | (Inr chunk, rx') \<Rightarrow> if chunk = [] then Ok () else recv_all rx')"
  by pat_completeness auto

termination
  by (relation "measure messages_left") (auto intro: recv_messages [OF sym])

declare recv_all.simps [simp del]

definition populate_fast_store ::
  "nat option \<times> nat option \<Rightarrow> 's store_driver \<Rightarrow> 't store_driver \<Rightarrow> store_key \<Rightarrow> 's \<times> 't
     \<Rightarrow> (unit result \<times> 's \<times> 't) option" where
  "populate_fast_store takes fast slow key st =
     (case store_has fast key (fst st) of
        (Inl e, s1) \<Rightarrow> Some (err_tip ''While querying in populate_fast_store'' (Err e), s1, snd st)
      | (Inr (Some _), s1) \<Rightarrow> Some (Ok (), s1, snd st)
      | (Inr None, s1) \<Rightarrow>
          map_option (\<lambda>(get_res, tx, st').
              (result_merge (err_tip ''Failed to populate()'' get_res) (recv_all (reader_of tx)), st'))
            (fs_get_part takes fast slow key (new_writer None) 0 None (s1, snd st)))"

section \<open>Writing\<close>

function fs_update_loop ::
  "read_half \<Rightarrow> write_half \<Rightarrow> write_half \<Rightarrow> unit result \<times> write_half \<times> write_half" where
  "fs_update_loop reader fast_tx slow_tx =
     (case recv reader of
        (Inl e, _) \<Rightarrow> (err_tip ''Failed to read buffer in fastslow store'' (Err e), fast_tx, slow_tx)
      | (Inr buffer, reader') \<Rightarrow>
          if buffer = []
          then (case send_eof fast_tx of
                  (Inl e, fast_tx') \<Rightarrow>
                    (err_tip ''Failed to write eof to fast store in fast_slow store update'' (Err e), fast_tx', slow_tx)
                | (Inr _, fast_tx') \<Rightarrow>
                    (let (r, slow_tx') = send_eof slow_tx
                     in (err_tip ''Failed to write eof to writer in fast_slow store update'' r, fast_tx', slow_tx')))
          else let (fast_result, fast_tx') = send buffer fast_tx; (slow_result, slow_tx') = send buffer slow_tx
               in case result_merge
                         (map_sum (\<lambda>_. make_err Internal ''Failed to send message to fast_store in fast_slow_store'') id fast_result)
                         (map_sum (\<lambda>_. make_err Internal ''Failed to send message to slow_store in fast_slow store'') id slow_result) of
                    Inl e \<Rightarrow> (Err e, fast_tx', slow_tx')
                  | Inr _ \<Rightarrow> fs_update_loop reader' fast_tx' slow_tx')"
  by pat_completeness auto

termination
  by (relation "measure (\<lambda>(rx, f, t). messages_left rx)") (auto dest!: sym [of _ "recv _"] dest: recv_messages)

declare fs_update_loop.simps [simp del]

definition fs_update ::
  "nat option \<times> nat option \<Rightarrow> 's store_driver \<Rightarrow> 't store_driver \<Rightarrow> store_key \<Rightarrow> read_half \<Rightarrow> upload_size_info
     \<Rightarrow> 's \<times> 't \<Rightarrow> unit result \<times> 's \<times> 't" where
  "fs_update takes fast slow key reader size_info st =
     (if sd_optimized_for slow (Some key) NoopUpdates
      then let (r, s') = sd_update fast key reader size_info (fst st) in (r, s', snd st)
      else if sd_optimized_for fast (Some key) NoopUpdates
      then let (r, t') = sd_update slow key reader size_info (snd st) in (r, fst st, t')
      else let (data_stream_res, fast_tx, slow_tx) = fs_update_loop reader (new_writer (fst takes)) (new_writer (snd takes));
               (fast_res, s') = sd_update fast key (reader_of fast_tx) size_info (fst st);
               (slow_res, t') = sd_update slow key (reader_of slow_tx) size_info (snd st)
           in (result_merge (result_merge data_stream_res fast_res) slow_res, s', t'))"

section \<open>Existence\<close>

definition fs_has ::
  "'s store_driver \<Rightarrow> 't store_driver \<Rightarrow> store_key list \<Rightarrow> u64 option list \<Rightarrow> 's \<times> 't
     \<Rightarrow> unit result \<times> u64 option list \<times> 's \<times> 't" where
  "fs_has fast slow keys results st =
     (if sd_optimized_for slow None NoopDownloads
      then let (r, rs, s') = sd_has fast keys results (fst st) in (r, rs, s', snd st)
      else let (r, rs, t') = sd_has slow keys results (snd st) in (r, rs, fst st, t'))"

definition fs_optimized_for :: "store_optimizations \<Rightarrow> bool" where
  "fs_optimized_for opt \<longleftrightarrow> opt = FileUpdates"

section \<open>The part of a chunk that was asked for\<close>

text \<open>The bytes at the positions from \<open>a\<close> up to \<open>b\<close> of data that begins at position \<open>n\<close>.\<close>

definition part :: "nat \<Rightarrow> nat \<Rightarrow> nat \<Rightarrow> bytes \<Rightarrow> bytes" where
  "part a b n xs = take (b - max a n) (drop (a - n) xs)"

lemma part_append: "part a b n (c @ xs) = part a b n c @ part a b (n + length c) xs"
proof (cases "a \<le> n + length c")
  case True
  then show ?thesis by (cases "a \<le> n") (auto simp: part_def max_def intro!: arg_cong2 [where f = take])
next
  case False
  then show ?thesis by (simp add: part_def max_def)
qed

lemma part_Nil [simp]: "part a b n [] = []"
  by (simp add: part_def)

lemma send_in_range_part:
  assumes "c \<noteq> []" "unat n + length c < 2 ^ 64" "fst rg < snd rg \<or> unat n + length c \<le> unat (fst rg)"
    and "d = part (unat (fst rg)) (unat (snd rg)) (unat n) c"
  shows "send_in_range rg n c w = Some (if d = [] then (Ok (), w) else send d w)"
proof -
  obtain a b where rg: "rg = (a, b)" by fastforce
  let ?m = "n + of_nat (length c)"
  have m: "unat ?m = unat n + length c" by (rule unat_plus_small [OF assms(2)])
  have nm: "\<not> ?m \<le> n" using assms(1) by (simp add: word_le_nat_alt m)
  have pred: "unat (min ?m b - 1) = min (unat ?m) (unat b) - 1" if "0 < unat b"
  proof -
    have "min ?m b \<noteq> 0" using that nm by (auto simp: min_def)
    then show ?thesis by (auto simp: unat_minus_one min_def word_le_nat_alt)
  qed
  show ?thesis
  proof (cases "unat a < unat ?m \<and> unat n < unat b \<and> unat a < unat b")
    case True
    then have ord: "max n a \<le> min ?m b" "n \<le> max n a" "n \<le> min ?m b"
      using nm by (auto simp: word_le_nat_alt max_def min_def)
    have i: "unat (max n a - n) = unat a - unat n" "unat (min ?m b - n) = min (unat ?m) (unat b) - unat n"
      using ord by (auto simp: unat_sub max_def min_def word_le_nat_alt)
    have "calculate_range (n, ?m) rg = Some (unat a - unat n, min (unat ?m) (unat b) - unat n)"
      using True nm pred i by (auto simp: calculate_range_def Let_def rg word_le_nat_alt word_less_nat_alt max_def)
    moreover have "take (min (unat ?m) (unat b) - unat n - (unat a - unat n)) (drop (unat a - unat n) c) = d"
      using True assms(4) by (auto simp: rg part_def m max_def min_def)
    moreover have "d \<noteq> []" using True assms(1,4) by (auto simp: rg part_def m max_def)
    ultimately show ?thesis using True assms(1) by (auto simp: send_in_range_def m)
  next
    case False
    then have "calculate_range (n, ?m) rg = None"
      using assms(3) nm pred
      by (cases "unat b = 0") (auto simp: calculate_range_def Let_def rg word_le_nat_alt word_less_nat_alt max_def min_def m)
    moreover have "\<not> (unat a < unat n + length c \<and> unat n < unat b \<and> unat a < unat b)" using False m by simp
    then have "d = []"
      using assms(1,3,4) by (cases c) (auto simp: rg part_def max_def word_less_nat_alt)
    ultimately show ?thesis by (simp add: send_in_range_def)
  qed
qed

section \<open>The streams\<close>

lemma fs_get_loop_exact:
  assumes "reader_ok rx" "rh_eof_sent rx" "writer_ready tx" "wh_takes tx = None" "writer_ready w" "wh_takes w = None"
    and "unat n + length (rh_data rx) < 2 ^ 64" "fst rg < snd rg \<or> unat n + length (rh_data rx) \<le> unat (fst rg)"
  shows "\<exists>tx' w'. fs_get_loop rg n rx tx w = Some (Ok (Ok ()), tx', w') \<and> wrote tx tx' (rh_data rx) \<and> wh_eof_sent tx' \<and>
    wrote w w' (part (unat (fst rg)) (unat (snd rg)) (unat n) (rh_data rx)) \<and> writer_ready w'"
  using assms
proof (induction "messages_left rx" arbitrary: n rx tx w rule: less_induct)
  case less
  from less.prems(1) show ?case
  proof (cases rule: recv_cases)
    case (dropped e rx1)
    then show ?thesis using less.prems(2) by simp
  next
    case (eof rx1)
    obtain tx' where "send_eof tx = (Ok (), tx')" "wh_eof_sent tx'" "wh_sent tx' = wh_sent tx"
      using send_eof_ready [OF less.prems(3)] by blast
    then show ?thesis using eof less.prems(5) by (subst fs_get_loop.simps) (simp add: wrote_def)
  next
    case (chunk c rx1)
    let ?p = "part (unat (fst rg)) (unat (snd rg))"
    let ?n = "n + of_nat (length c)"
    have n: "unat n + length c < 2 ^ 64" "unat ?n = unat n + length c"
      using less.prems(7) chunk(3) unat_plus_small [of n "length c"] by simp_all
    have rg: "fst rg < snd rg \<or> unat n + length c \<le> unat (fst rg)" "fst rg < snd rg \<or> unat ?n + length (rh_data rx1) \<le> unat (fst rg)"
      using less.prems(8) chunk(3) n(2) by auto
    obtain tx1 where tx1: "send c tx = (Ok (), tx1)" "writer_ready tx1" "wh_takes tx1 = None" "wrote tx tx1 c"
      using send_open [OF less.prems(3,4) chunk(2)] send_wrote [OF less.prems(3) chunk(2)] by auto
    obtain w1 where w1: "send_in_range rg n c w = Some (Ok (), w1)" "writer_ready w1" "wh_takes w1 = None" "wrote w w1 (?p (unat n) c)"
    proof (cases "?p (unat n) c = []")
      case True
      then show thesis using that [of w] send_in_range_part [OF chunk(2) n(1) rg(1) refl, of w] less.prems(5,6) by (simp add: wrote_def)
    next
      case False
      from send_open [OF less.prems(5,6) False] send_wrote [OF less.prems(5) False]
      show thesis using that send_in_range_part [OF chunk(2) n(1) rg(1) refl, of w] False by auto
    qed
    have len: "unat ?n + length (rh_data rx1) < 2 ^ 64" using less.prems(7) chunk(3) n(2) by simp
    obtain tx' w' where rest: "fs_get_loop rg ?n rx1 tx1 w1 = Some (Ok (Ok ()), tx', w')" "wrote tx1 tx' (rh_data rx1)"
        "wh_eof_sent tx'" "wrote w1 w' (?p (unat ?n) (rh_data rx1))" "writer_ready w'"
      using less.hyps [OF recv_messages [OF chunk(1,2)] chunk(4) _ tx1(2,3) w1(2,3) len rg(2)] chunk(5) less.prems(2) by auto
    have "fs_get_loop rg n rx tx w = Some (Ok (Ok ()), tx', w')"
      using chunk(1,2) tx1(1) w1(1) rest(1) by (subst fs_get_loop.simps) simp
    then show ?thesis
      using wrote_trans [OF tx1(4) rest(2)] wrote_trans [OF w1(4) rest(4)] rest(3,5) chunk(3) n(2)
      by (simp add: part_append)
  qed
qed

lemma fs_update_loop_exact:
  assumes "reader_ok rx" "rh_eof_sent rx" "writer_ready f" "wh_takes f = None" "writer_ready t" "wh_takes t = None"
  shows "\<exists>f' t'. fs_update_loop rx f t = (Ok (), f', t') \<and> wrote f f' (rh_data rx) \<and> wh_eof_sent f' \<and>
    wrote t t' (rh_data rx) \<and> wh_eof_sent t'"
  using assms
proof (induction "messages_left rx" arbitrary: rx f t rule: less_induct)
  case less
  from less.prems(1) show ?case
  proof (cases rule: recv_cases)
    case (dropped e rx1)
    then show ?thesis using less.prems(2) by simp
  next
    case (eof rx1)
    obtain f' t' where "send_eof f = (Ok (), f')" "wh_eof_sent f'" "wh_sent f' = wh_sent f"
        "send_eof t = (Ok (), t')" "wh_eof_sent t'" "wh_sent t' = wh_sent t"
      using send_eof_ready [OF less.prems(3)] send_eof_ready [OF less.prems(5)] by blast
    then show ?thesis using eof by (subst fs_update_loop.simps) (simp add: wrote_def)
  next
    case (chunk c rx1)
    obtain f1 where f1: "send c f = (Ok (), f1)" "writer_ready f1" "wh_takes f1 = None" "wrote f f1 c"
      using send_open [OF less.prems(3,4) chunk(2)] send_wrote [OF less.prems(3) chunk(2)] by auto
    obtain t1 where t1: "send c t = (Ok (), t1)" "writer_ready t1" "wh_takes t1 = None" "wrote t t1 c"
      using send_open [OF less.prems(5,6) chunk(2)] send_wrote [OF less.prems(5) chunk(2)] by auto
    obtain f' t' where rest: "fs_update_loop rx1 f1 t1 = (Ok (), f', t')" "wrote f1 f' (rh_data rx1)" "wh_eof_sent f'"
        "wrote t1 t' (rh_data rx1)" "wh_eof_sent t'"
      using less.hyps [OF recv_messages [OF chunk(1,2)] chunk(4) _ f1(2,3) t1(2,3)] chunk(5) less.prems(2) by auto
    have "fs_update_loop rx f t = (Ok (), f', t')"
      using chunk(1,2) f1(1) t1(1) rest(1) by (subst fs_update_loop.simps) simp
    then show ?thesis
      using wrote_trans [OF f1(4) rest(2)] wrote_trans [OF t1(4) rest(4)] rest(3,5) chunk(3) by simp
  qed
qed

section \<open>Properties\<close>

lemma new_writer_ready [simp]: "writer_ready (new_writer takes)" "wh_takes (new_writer takes) = takes"
  by (simp_all add: writer_ready_def new_writer_def)

lemma store_get_exact:
  assumes "lossless_store ops ok view acc" "ok s" "view s k = Some d"
  shows "\<exists>tx s'. store_get (ops e) k (new_writer None) s = (Ok (), tx, s') \<and> view s' = view s \<and> ok s' \<and>
    wrote (new_writer None) tx d \<and> wh_eof_sent tx"
proof -
  obtain tx s' where g: "sd_get_part (ops e) k (new_writer None) 0 None s = (Ok (), tx, s')" "view s' = view s"
    using lossless_store.get_exact [OF assms(1,2) new_writer_ready(1) new_writer_ready(2) assms(3)] by blast
  from blob_store.get_law [OF lossless_store.axioms(1) [OF assms(1)] assms(2) new_writer_ready(1) g(1)] assms(3)
  show ?thesis using g by (auto simp: store_get_def slice_def)
qed

text \<open>An upload reaches both stores.\<close>

lemma fs_update_exact:
  assumes "lossless_store ops1 ok1 view1 acc1" "lossless_store ops2 ok2 view2 acc2" "ok1 s" "ok2 t"
    and "reader_ok rd" "rh_eof_sent rd" "blob_fits (rh_data rd)" "acc1 e k (rh_data rd) sz" "acc2 f k (rh_data rd) sz"
    and "\<not> sd_optimized_for (ops1 e) (Some k) NoopUpdates" "\<not> sd_optimized_for (ops2 f) (Some k) NoopUpdates"
  shows "\<exists>s' t'. fs_update (None, None) (ops1 e) (ops2 f) k rd sz (s, t) = (Ok (), s', t') \<and>
    view1 s' = put_blob k (rh_data rd) (view1 s) \<and> view2 t' = put_blob k (rh_data rd) (view2 t)"
proof -
  obtain f' t' where loop: "fs_update_loop rd (new_writer None) (new_writer None) = (Ok (), f', t')"
      "wrote (new_writer None) f' (rh_data rd)" "wh_eof_sent f'" "wrote (new_writer None) t' (rh_data rd)" "wh_eof_sent t'"
    using fs_update_loop_exact [OF assms(5,6)] new_writer_ready by metis
  have "\<exists>s'. sd_update (ops1 e) k (reader_of f') sz s = (Ok (), s') \<and> view1 s' = put_blob k (rh_data rd) (view1 s)"
    using lossless_store.update_exact [OF assms(1,3), of "reader_of f'" e k sz] wrote_reader [OF loop(2)] loop(3) assms(7,8) by simp
  moreover have "\<exists>s'. sd_update (ops2 f) k (reader_of t') sz t = (Ok (), s') \<and> view2 s' = put_blob k (rh_data rd) (view2 t)"
    using lossless_store.update_exact [OF assms(2,4), of "reader_of t'" f k sz] wrote_reader [OF loop(4)] loop(5) assms(7,9) by simp
  ultimately show ?thesis using loop(1) assms(10,11) by (auto simp: fs_update_def)
qed

lemma unat_max: "unat (- 1 :: u64) = 2 ^ 64 - 1"
  by (simp add: unsigned_minus_1_eq_mask mask_eq_exp_minus_1)

lemma sent_open:
  assumes "writer_ready w" "wh_takes w = None" "d \<noteq> []"
  shows "\<exists>w'. send d w = (Ok (), w') \<and> writer_ready w' \<and> wh_takes w' = None \<and> wrote w w' d"
proof -
  obtain w' where w': "send d w = (Ok (), w')" "writer_ready w'" "wh_takes w' = None"
    using send_open [OF assms] by blast
  then have "wrote w w' d" using send_wrote [OF assms(1,3)] by simp
  then show ?thesis using w' by blast
qed

text \<open>The end of the bytes asked for.\<close>

definition read_end :: "u64 \<Rightarrow> u64 option \<Rightarrow> nat" where
  "read_end off len = (case len of None \<Rightarrow> 2 ^ 64 - 1 | Some l \<Rightarrow> unat off + unat l)"

lemma read_slice:
  assumes "blob_fits d"
  shows "part (unat off) (read_end off len) 0 d = slice off len d"
  using assms by (cases len) (simp_all add: part_def slice_def read_end_def blob_fits_def)

lemma slice_part:
  assumes "blob_fits d" "\<And>l. len = Some l \<Longrightarrow> unat l + unat off < 2 ^ 64"
  shows "part (unat off) (unat (case len of None \<Rightarrow> - 1 | Some l \<Rightarrow> l + off)) 0 d = slice off len d"
proof (cases len)
  case None
  show ?thesis using None assms(1) by (simp add: part_def slice_def blob_fits_def unat_max)
next
  case (Some l)
  then have "unat (l + off) = unat l + unat off" using unat_add_lem [of l off] assms(2) by simp
  then show ?thesis using Some by (simp add: part_def slice_def)
qed

lemma fs_get_part_hit:
  assumes "lossless_store ops1 ok1 view1 acc1" "ok1 s" "view1 s k = Some d" "writer_ready w" "wh_takes w = None"
  shows "\<exists>w' s'. fs_get_part takes (ops1 e) slow k w off len (s, t) = Some (Ok (), w', s', t) \<and>
    wrote w w' (slice off len d) \<and> wh_eof_sent w' \<and> view1 s' = view1 s"
proof -
  obtain s1 where has: "store_has (ops1 e) k s = (Ok (Some (of_nat (length d))), s1)" "view1 s1 = view1 s" "ok1 s1"
    using lossless_store.store_has_exact [OF assms(1,2), of k e] assms(3) by auto
  have v: "view1 s1 k = Some d" using has(2) assms(3) by simp
  obtain w' s' where g: "sd_get_part (ops1 e) k w off len s1 = (Ok (), w', s')" "view1 s' = view1 s1"
    using lossless_store.get_exact [OF assms(1) has(3) assms(4,5) v] by blast
  from blob_store.get_law [OF lossless_store.axioms(1) [OF assms(1)] has(3) assms(4) g(1)] v
  show ?thesis using has g by (auto simp: fs_get_part_def)
qed

lemma fs_get_part_miss:
  assumes "lossless_store ops1 ok1 view1 acc1" "lossless_store ops2 ok2 view2 acc2" "ok1 s" "ok2 t"
    and "view1 s k = None" "view2 t k = Some d" "acc1 e k d (ExactSize (of_nat (length d)))"
    and "writer_ready w" "wh_takes w = None" "\<And>l. len = Some l \<Longrightarrow> l \<noteq> 0 \<and> unat l + unat off < 2 ^ 64"
  shows "\<exists>w' s' t'. fs_get_part (None, None) (ops1 e) (ops2 f) k w off len (s, t) = Some (Ok (), w', s', t') \<and>
    wrote w w' (slice off len d) \<and> wh_eof_sent w' \<and> ok1 s' \<and> view1 s' = put_blob k d (view1 s) \<and> view2 t' = view2 t"
proof -
  let ?rg = "(off, case len of None \<Rightarrow> - 1 | Some l \<Rightarrow> l + off)"
  obtain s1 where fast: "store_has (ops1 e) k s = (Ok None, s1)" "view1 s1 = view1 s" "ok1 s1"
    using lossless_store.store_has_exact [OF assms(1,3) disjI2 [OF assms(7)]] assms(5) by auto
  obtain t1 where slow: "store_has (ops2 f) k t = (Ok (Some (of_nat (length d))), t1)" "view2 t1 = view2 t" "ok2 t1"
    using lossless_store.store_has_exact [OF assms(2,4), of k f] assms(6) by auto
  obtain tx t2 where get: "store_get (ops2 f) k (new_writer None) t1 = (Ok (), tx, t2)" "view2 t2 = view2 t1"
      "wrote (new_writer None) tx d" "wh_eof_sent tx"
    using store_get_exact [OF assms(2) slow(3)] slow(2) assms(6) by metis
  note rx = wrote_reader [OF get(3)]
  have fits: "blob_fits d" using blob_store.view_fits [OF lossless_store.axioms(1) [OF assms(2)] assms(4,6)] .
  have len: "unat (0 :: u64) + length (rh_data (reader_of tx)) < 2 ^ 64" using fits rx(2) by (simp add: blob_fits_def)
  have rg: "fst ?rg < snd ?rg \<or> unat (0 :: u64) + length (rh_data (reader_of tx)) \<le> unat (fst ?rg)"
  proof (cases len)
    case None
    show ?thesis using None fits rx(2) by (cases "off = - 1") (auto simp: blob_fits_def unat_max word_order.not_eq_extremum)
  next
    case (Some l)
    then have "unat (l + off) = unat l + unat off" "0 < unat l"
      using unat_add_lem [of l off] assms(10) by (auto simp: unat_gt_0)
    then show ?thesis using Some by (simp add: word_less_nat_alt)
  qed
  obtain ftx w1 where loop: "fs_get_loop ?rg 0 (reader_of tx) (new_writer None) w = Some (Ok (Ok ()), ftx, w1)"
      "wrote (new_writer None) ftx d" "wh_eof_sent ftx" "wrote w w1 (slice off len d)" "writer_ready w1"
    using fs_get_loop_exact [OF rx(1) _ new_writer_ready(1) new_writer_ready(2) assms(8,9) len rg] rx get(4)
      slice_part [OF fits, of len off] assms(10) by auto
  obtain s2 where up: "sd_update (ops1 e) k (reader_of ftx) (ExactSize (of_nat (length d))) s1 = (Ok (), s2)"
      "view1 s2 = put_blob k d (view1 s1)"
    using lossless_store.update_exact [OF assms(1) fast(3), of "reader_of ftx" e k] wrote_reader [OF loop(2)] loop(3) fits assms(7)
    by auto
  have "ok1 s2"
    using blob_store.update_law [OF lossless_store.axioms(1) [OF assms(1)] fast(3) wrote_reader(1) [OF loop(2)] _ up(1)]
      wrote_reader(2) [OF loop(2)] fits by simp
  moreover obtain w' where "send_eof w1 = (Ok (), w')" "wh_eof_sent w'" "wh_sent w' = wh_sent w1"
    using send_eof_ready [OF loop(5)] by blast
  ultimately show ?thesis using fast slow get loop up by (auto simp: fs_get_part_def wrote_def)
qed

text \<open>
  A read of no bytes that begins inside a chunk: the range is not empty for \<open>calculate_range\<close>, the
  slice is, and the channel refuses it.
\<close>

lemma fs_read_nothing_fails:
  assumes "0 < unat off" "unat off < length c" "length c < 2 ^ 64" "writer_ready w"
  shows "\<exists>e. send_in_range (off, 0 + off) 0 c w = Some (Err e, w) \<and> code e = InvalidArgument"
proof -
  let ?m = "of_nat (length c) :: u64"
  have m: "unat ?m = length c" using unat_plus_small [of 0 "length c"] assms(3) by simp
  have "off \<noteq> 0" using assms(1) by auto
  then have "unat (off - 1) = unat off - 1" by (simp add: unat_minus_one)
  then have "calculate_range (0, ?m) (off, off) = Some (unat off, unat off)"
    using assms(1,2) m by (auto simp: calculate_range_def Let_def word_le_nat_alt word_less_nat_alt max_def min_def)
  then show ?thesis using assms(4)
    by (simp add: send_in_range_def send_def send_get_bytes_on_error_def writer_ready_def make_input_err_def make_err_def error_new_def)
qed



end
