(* ===== verification/Dedup_Store.thy ===== *)
theory Dedup_Store
  imports Fast_Slow_Store Fast_CDC
begin

text \<open>
  The deduplication store (nativelink-store/src/dedup_store.rs): a blob is cut into frames by the
  content-defined chunker, each frame is kept in the content store under its own digest, and the
  list of these digests is kept in the index store under the key of the blob. The frames of one
  blob are written, and read back, a few at a time; in the model one after the other. The framed
  reader of \<open>tokio_util\<close> and the serializer \<open>bincode\<close> are parameters. The outer \<open>None\<close> is a panic.
\<close>

section \<open>Parameters and configuration\<close>

text \<open>\<open>dx_framed\<close> returns the frames, and the error after them if the stream did not end well.\<close>

record dedup_ext =
  dx_framed :: "fast_cdc \<Rightarrow> read_half \<Rightarrow> bytes list \<times> error option"
  dx_serialize :: "digest_info list \<Rightarrow> bytes option"
  dx_deserialize :: "bytes \<Rightarrow> digest_info list option"

record dedup_spec =
  ds_min_size :: u32
  ds_normal_size :: u32
  ds_max_size :: u32

definition dedup_default :: "u32 \<Rightarrow> u64 \<Rightarrow> u64" where
  "dedup_default v dflt = (if v = 0 then dflt else ucast v)"

definition dedup_new :: "dedup_spec \<Rightarrow> fast_cdc option" where
  "dedup_new spec =
     fast_cdc_new (unat (dedup_default (ds_min_size spec) (64 * 1024)))
       (unat (dedup_default (ds_normal_size spec) (256 * 1024)))
       (unat (dedup_default (ds_max_size spec) (512 * 1024)))"

section \<open>Existence\<close>

fun sum_sizes :: "u64 \<Rightarrow> u64 option list \<Rightarrow> u64 option" where
  "sum_sizes total_size [] = Some total_size"
| "sum_sizes total_size (None # sizes) = None"
| "sum_sizes total_size (Some n # sizes) = sum_sizes (total_size + n) sizes"

definition dedup_has_one ::
  "dedup_ext \<Rightarrow> 's store_driver \<Rightarrow> 't store_driver \<Rightarrow> store_key \<Rightarrow> 's \<times> 't \<Rightarrow> u64 option result \<times> 's \<times> 't" where
  "dedup_has_one X index content key st =
     (let (maybe_data, s') = get_part_unchunked index key 0 None (fst st)
      in case err_tip ''Failed to read index store in dedup store'' maybe_data of
           Inl e \<Rightarrow> (if code e = NotFound then Ok None else Err e, s', snd st)
         | Inr d \<Rightarrow>
             (case dx_deserialize X d of
                None \<Rightarrow> (Ok None, s', snd st)
              | Some entries \<Rightarrow>
                  (case store_has_many content (map Digest entries) (snd st) of
                     (Inl e, t') \<Rightarrow> (Err e, s', t')
                   | (Inr sizes, t') \<Rightarrow> (Ok (sum_sizes 0 sizes), s', t'))))"

fun dedup_has ::
  "dedup_ext \<Rightarrow> 's store_driver \<Rightarrow> 't store_driver \<Rightarrow> store_key list \<Rightarrow> u64 option list \<Rightarrow> 's \<times> 't
     \<Rightarrow> unit result \<times> u64 option list \<times> 's \<times> 't" where
  "dedup_has X index content (key # keys) (result # results) st =
     (case (if is_zero_digest key then (Ok (Some 0), st) else dedup_has_one X index content key st) of
        (Inl e, st') \<Rightarrow> (Err e, result # results, st')
      | (Inr maybe_size, st') \<Rightarrow>
          (let (r, rs, st'') = dedup_has X index content keys results st' in (r, maybe_size # rs, st'')))"
| "dedup_has X index content keys results st = (Ok (), results, st)"

section \<open>Writing\<close>

definition index_entry :: "hash_funcs \<Rightarrow> bytes \<Rightarrow> digest_info" where
  "index_entry H frame = DigestInfo (H Blake3 frame) (of_nat (length frame))"

fun put_frames :: "hash_funcs \<Rightarrow> 't store_driver \<Rightarrow> bytes list \<Rightarrow> 't \<Rightarrow> digest_info list result \<times> 't" where
  "put_frames H content [] t = (Ok [], t)"
| "put_frames H content (frame # frames) t =
     (let entry = index_entry H frame;
          (r, t1) = (case store_has content (Digest entry) t of
                       (Inl e, t') \<Rightarrow> (err_tip ''Failed to call .has() in DedupStore::update()'' (Err e), t')
                     | (Inr (Some _), t') \<Rightarrow> (Ok (), t')
                     | (Inr None, t') \<Rightarrow>
                         (let (u, t'') = update_oneshot content (Digest entry) frame t'
                          in (err_tip ''Failed to update content store in dedup_store'' u, t'')))
      in case r of
           Inl e \<Rightarrow> (Err e, t1)
         | Inr _ \<Rightarrow> (let (es, t2) = put_frames H content frames t1 in (map_sum id ((#) entry) es, t2)))"

definition dedup_update ::
  "dedup_ext \<Rightarrow> hash_funcs \<Rightarrow> fast_cdc \<Rightarrow> 's store_driver \<Rightarrow> 't store_driver \<Rightarrow> store_key \<Rightarrow> read_half \<Rightarrow> 's \<times> 't
     \<Rightarrow> unit result \<times> 's \<times> 't" where
  "dedup_update X H c index content key reader st =
     (let (frames, frame_err) = dx_framed X (cdc_clone c) reader;
          (put_res, t') = put_frames H content frames (snd st)
      in case put_res of
           Inl e \<Rightarrow> (Err e, fst st, t')
         | Inr entries \<Rightarrow>
             (case frame_err of
                Some e \<Rightarrow> (err_tip ''Failed to decode frame from fast_cdc'' (Err e), fst st, t')
              | None \<Rightarrow>
                  (case dx_serialize X entries of
                     None \<Rightarrow> (Err (make_err Internal ''Failed to serialize index in dedup_store''), fst st, t')
                   | Some serialized_index \<Rightarrow>
                       (let (r, s') = update_oneshot index key serialized_index (fst st)
                        in (err_tip ''Failed to insert our index entry to index_store in dedup_store'' r, s', t')))))"

section \<open>Reading\<close>

text \<open>The entries that overlap with the bytes asked for, and the position of the first of them.\<close>

fun select_entries ::
  "u64 \<Rightarrow> u64 option \<Rightarrow> u64 \<Rightarrow> u64 \<Rightarrow> digest_info list \<Rightarrow> digest_info list \<times> u64" where
  "select_entries offset len entries_sum start [] = ([], start)"
| "select_entries offset len entries_sum start (entry # entries) =
     (let sum' = entries_sum + size_bytes entry
      in if sum' \<le> offset then select_entries offset len sum' sum' entries
         else if (case len of None \<Rightarrow> False | Some l \<Rightarrow> offset + l \<le> entries_sum) then ([], start)
         else let (es, st) = select_entries offset len sum' start entries in (entry # es, st))"

fun send_entries ::
  "'t store_driver \<Rightarrow> digest_info list \<Rightarrow> nat \<Rightarrow> nat \<Rightarrow> write_half \<Rightarrow> 't \<Rightarrow> (unit result \<times> write_half \<times> 't) option" where
  "send_entries content [] bytes_to_skip bytes_to_send writer t = Some (Ok (), writer, t)"
| "send_entries content (entry # entries) bytes_to_skip bytes_to_send writer t =
     (case get_part_unchunked content (Digest entry) 0 None t of
        (Inl e, t') \<Rightarrow>
          Some (err_tip ''Inner store iterator closed early in DedupStore''
                  (err_tip ''Failed to get_part in content_store in dedup_store'' (Err e)), writer, t')
      | (Inr d, t') \<Rightarrow>
          if length d < bytes_to_skip then None
          else let end_pos = min (length d) ((bytes_to_send + bytes_to_skip) mod 2 ^ 64);
                   d' = (if bytes_to_skip \<noteq> 0 \<or> bytes_to_send < length d
                         then take (end_pos - bytes_to_skip) (drop bytes_to_skip d) else d)
               in if end_pos < bytes_to_skip then None
                  else case send d' writer of
                    (Inl e, w) \<Rightarrow> Some (err_tip ''Failed to write data to get_part dedup'' (Err e), w, t')
                  | (Inr _, w) \<Rightarrow>
                      send_entries content entries 0 (bytes_to_send - (end_pos - bytes_to_skip)) w t')"

definition dedup_get_part ::
  "dedup_ext \<Rightarrow> 's store_driver \<Rightarrow> 't store_driver \<Rightarrow> store_key \<Rightarrow> write_half \<Rightarrow> u64 \<Rightarrow> u64 option \<Rightarrow> 's \<times> 't
     \<Rightarrow> (unit result \<times> write_half \<times> 's \<times> 't) option" where
  "dedup_get_part X index content key writer offset len st =
     (if len = Some 0
      then let (r, w) = send_eof writer in Some (err_tip ''Failed to write EOF out from get_part dedup'' r, w, st)
      else let (index_res, s') = get_part_unchunked index key 0 None (fst st)
           in case err_tip ''Failed to read index store in dedup store'' index_res of
                Inl e \<Rightarrow> Some (Err e, writer, s', snd st)
              | Inr d \<Rightarrow>
                  (case dx_deserialize X d of
                     None \<Rightarrow> Some (Err (make_err Internal ''Failed to deserialize index in dedup_store::get_part''), writer, s', snd st)
                   | Some index_entries \<Rightarrow>
                       (let (entries, start) = (if offset = 0 \<and> len = None then (index_entries, 0)
                                                else select_entries offset len 0 0 index_entries);
                            bytes_to_skip = unat (offset - start);
                            bytes_to_send = unat (case len of Some l \<Rightarrow> l | None \<Rightarrow> - 1 - offset)
                        in case send_entries content entries bytes_to_skip bytes_to_send writer (snd st) of
                             None \<Rightarrow> None
                           | Some (Inl e, w, t') \<Rightarrow> Some (Err e, w, s', t')
                           | Some (Inr _, w, t') \<Rightarrow>
                               (let (r, w') = send_eof w
                                in Some (err_tip ''Failed to write EOF out from get_part dedup'' r, w', s', t')))))"

section \<open>The frames in the content store\<close>

abbreviation frame_key :: "hash_funcs \<Rightarrow> bytes \<Rightarrow> store_key" where
  "frame_key H f \<equiv> Digest (index_entry H f)"

definition frame_ok :: "bytes \<Rightarrow> bool" where
  "frame_ok f \<longleftrightarrow> f \<noteq> [] \<and> blob_fits f"

lemma frame_size: "frame_ok f \<Longrightarrow> unat (size_bytes (index_entry H f)) = length f"
  using unat_plus_small [of 0 "length f"] by (simp add: frame_ok_def index_entry_def blob_fits_def)

lemma frame_not_zero: "frame_ok f \<Longrightarrow> \<not> is_zero_digest (frame_key H f)"
  using frame_size [of f H] by (auto simp: is_zero_digest_def frame_ok_def)

lemma update_oneshot_exact:
  assumes "lossless_store ops ok view acc" "ok s" "blob_fits d" "acc e k d (ExactSize (of_nat (length d)))"
  shows "\<exists>s'. update_oneshot (ops e) k d s = (Ok (), s') \<and> view s' = put_blob k d (view s) \<and> ok s'"
proof -
  let ?rd = "new_reader (if d = [] then [] else [d]) True"
  have rd: "reader_ok ?rd" "rh_eof_sent ?rd" "rh_data ?rd = d" by simp_all
  obtain s' where u: "sd_update (ops e) k ?rd (ExactSize (of_nat (length d))) s = (Ok (), s')" "view s' = put_blob k d (view s)"
    using lossless_store.update_exact [OF assms(1,2) rd(1,2), of e k "ExactSize (of_nat (length d))"] assms(3,4) rd(3) by auto
  then show ?thesis
    using blob_store.update_law [OF lossless_store.axioms(1) [OF assms(1)] assms(2) rd(1) _ u(1)] assms(3) rd(3)
    by (simp add: update_oneshot_def)
qed

text \<open>What the content store may have of the frames \<open>F\<close>: under each key that frame, or nothing.\<close>

definition frames_right :: "hash_funcs \<Rightarrow> bytes set \<Rightarrow> blob_map \<Rightarrow> bool" where
  "frames_right H F m \<longleftrightarrow> (\<forall>f \<in> F. m (frame_key H f) = None \<or> m (frame_key H f) = Some f)"

lemma put_frames_exact:
  assumes "lossless_store ops ok view acc" "ok t" "\<And>f. f \<in> F \<Longrightarrow> frame_ok f" "inj_on (index_entry H) F"
    and "\<And>f. f \<in> F \<Longrightarrow> acc e (frame_key H f) f (ExactSize (of_nat (length f)))" "frames_right H F (view t)" "set fs \<subseteq> F"
  shows "\<exists>t'. put_frames H (ops e) fs t = (Ok (map (index_entry H) fs), t') \<and> ok t' \<and>
    (\<forall>f \<in> F. f \<in> set fs \<or> view t (frame_key H f) = Some f \<longrightarrow> view t' (frame_key H f) = Some f)"
  using assms(2,6,7)
proof (induction fs arbitrary: t)
  case (Cons f fs)
  have f: "f \<in> F" "frame_ok f" using Cons.prems(3) assms(3) by auto
  obtain t1 where has: "store_has (ops e) (frame_key H f) t = (Ok (map_option (\<lambda>d. of_nat (length d)) (view t (frame_key H f))), t1)"
      "view t1 = view t" "ok t1"
    using lossless_store.store_has_exact [OF assms(1) Cons.prems(1) disjI2 [OF assms(5) [OF f(1)]]] by blast
  have "\<exists>t2. put_frames H (ops e) (f # fs) t
      = (let (es, t3) = put_frames H (ops e) fs t2 in (map_sum id ((#) (index_entry H f)) es, t3)) \<and>
      ok t2 \<and> view t2 = (view t)(frame_key H f \<mapsto> f)"
  proof (cases "view t (frame_key H f)")
    case None
    obtain t2 where "update_oneshot (ops e) (frame_key H f) f t1 = (Ok (), t2)" "view t2 = put_blob (frame_key H f) f (view t1)" "ok t2"
      using update_oneshot_exact [OF assms(1) has(3) _ assms(5) [OF f(1)]] f(2) by (auto simp: frame_ok_def)
    then show ?thesis using None has frame_not_zero [OF f(2)] by (intro exI [of _ t2]) (simp add: put_blob_def Let_def)
  next
    case (Some d)
    then have "d = f" using Cons.prems(2) f(1) by (auto simp: frames_right_def)
    then show ?thesis using Some has by (auto simp: fun_upd_idem Let_def)
  qed
  then obtain t2 where t2: "put_frames H (ops e) (f # fs) t
      = (let (es, t3) = put_frames H (ops e) fs t2 in (map_sum id ((#) (index_entry H f)) es, t3))"
      "ok t2" "view t2 = (view t)(frame_key H f \<mapsto> f)" by blast
  have other: "frame_key H g = frame_key H f \<Longrightarrow> g = f" if "g \<in> F" for g using assms(4) that f(1) by (auto dest: inj_onD)
  have "frames_right H F (view t2)" using Cons.prems(2) t2(3) other by (auto simp: frames_right_def)
  from Cons.IH [OF t2(2) this] Cons.prems(3) obtain t3 where t3: "put_frames H (ops e) fs t2 = (Ok (map (index_entry H) fs), t3)" "ok t3"
      "\<forall>g \<in> F. g \<in> set fs \<or> view t2 (frame_key H g) = Some g \<longrightarrow> view t3 (frame_key H g) = Some g" by auto
  have "view t3 (frame_key H g) = Some g" if "g \<in> F" "g \<in> set (f # fs) \<or> view t (frame_key H g) = Some g" for g
  proof -
    have "g \<in> set fs \<or> view t2 (frame_key H g) = Some g" using that t2(3) other [OF that(1)] by auto
    then show ?thesis using t3(3) that(1) by blast
  qed
  then show ?case using t2(1) t3(1,2) by auto
qed simp

section \<open>The part of the frames that was asked for\<close>

text \<open>The frames \<open>gs\<close>, the first of which begins at \<open>n\<close>, all reach into the positions from \<open>a\<close> to \<open>b\<close>.\<close>

fun overlap :: "nat \<Rightarrow> nat \<Rightarrow> nat \<Rightarrow> bytes list \<Rightarrow> bool" where
  "overlap a b n [] \<longleftrightarrow> True"
| "overlap a b n (g # gs) \<longleftrightarrow> g \<noteq> [] \<and> a < n + length g \<and> n < b \<and> overlap a b (n + length g) gs"

lemma read_whole:
  assumes "lossless_store ops ok view acc" "ok s" "view s k = Some d"
  shows "\<exists>s'. get_part_unchunked (ops e) k 0 None s = (Ok d, s') \<and> view s' = view s \<and> ok s'"
proof -
  obtain s' where s': "get_part_unchunked (ops e) k 0 None s = (Ok (slice 0 None d), s')" "view s' = view s"
    using lossless_store.get_part_unchunked_exact [OF assms(1) assms(2,3)] by metis
  then show ?thesis
    using blob_store.get_part_unchunked_law [OF lossless_store.axioms(1) [OF assms(1)] assms(2) s'(1)] by (simp add: slice_def)
qed

lemma cut_part:
  assumes "a < n + length g" "n < b"
  shows "(if a - n \<noteq> 0 \<or> b - max a n < length g
    then take (min (length g) (b - max a n + (a - n)) - (a - n)) (drop (a - n) g) else g) = part a b n g"
proof (cases "a \<le> n")
  case True
  then show ?thesis using assms by (simp add: part_def max_def min_def)
next
  case False
  then show ?thesis using assms by (simp add: part_def max_def min_def)
qed

lemma cut_left:
  fixes a b n l :: nat
  assumes "a < n + l" "n < b" "a < b"
  shows "b - max a n - (min l (b - max a n + (a - n)) - (a - n)) = b - max a (n + l)"
proof (cases "a \<le> n")
  case True
  then have "a - n = 0" "max a n = n" "max a (n + l) = n + l" by simp_all
  then show ?thesis by (simp add: min_def)
next
  case False
  then have "b - max a n + (a - n) = b - n" "max a n = a" using assms by simp_all
  then show ?thesis using assms False by (simp add: max_def min_def add.commute)
qed

lemma send_entries_step:
  assumes "get_part_unchunked content (Digest entry) 0 None t = (Ok d, t1)" "skip \<le> length d" "bs + skip < 2 ^ 64"
    and "(if skip \<noteq> 0 \<or> bs < length d then take (min (length d) (bs + skip) - skip) (drop skip d) else d) = p"
    and "send p w = (Ok (), w1)"
  shows "send_entries content (entry # entries) skip bs w t =
    send_entries content entries 0 (bs - (min (length d) (bs + skip) - skip)) w1 t1"
proof -
  have "\<not> min (length d) (bs + skip) < skip" using assms(2) by simp
  then show ?thesis using assms by (cases "skip \<noteq> 0 \<or> bs < length d") (simp_all add: Let_def)
qed

lemma send_entries_exact:
  assumes "lossless_store ops ok view acc"
  shows "ok t \<Longrightarrow> overlap a b n gs \<Longrightarrow> a < b \<and> b < 2 ^ 64 \<Longrightarrow> (\<And>g. g \<in> set gs \<Longrightarrow> view t (frame_key H g) = Some g) \<Longrightarrow>
    writer_ready w \<Longrightarrow> wh_takes w = None \<Longrightarrow>
    \<exists>w' t'. send_entries (ops e) (map (index_entry H) gs) (a - n) (b - max a n) w t = Some (Ok (), w', t') \<and>
      wrote w w' (part a b n (concat gs)) \<and> writer_ready w'"
proof (induction gs arbitrary: n w t)
  case Nil
  then show ?case by (simp add: wrote_def)
next
  case (Cons g gs)
  let ?p = "part a b n g"
  let ?stop = "min (length g) (b - max a n + (a - n))"
  have ov: "a < n + length g" "n < b" "overlap a b (n + length g) gs" "g \<noteq> []" using Cons.prems(2) by simp_all
  obtain t1 where get: "get_part_unchunked (ops e) (frame_key H g) 0 None t = (Ok g, t1)" "view t1 = view t" "ok t1"
    using read_whole [OF assms Cons.prems(1) Cons.prems(4) [of g]] by auto
  have "?p \<noteq> []" using ov Cons.prems(3) by (auto simp: part_def max_def)
  then obtain w1 where w1: "send ?p w = (Ok (), w1)" "writer_ready w1" "wh_takes w1 = None" "wrote w w1 ?p"
    using sent_open [OF Cons.prems(5,6)] by blast
  have d': "(if a - n \<noteq> 0 \<or> b - max a n < length g then take (?stop - (a - n)) (drop (a - n) g) else g) = ?p"
    using cut_part [OF ov(1,2)] by metis
  have send': "b - max a n - (?stop - (a - n)) = b - max a (n + length g)" "a - (n + length g) = 0"
    by (rule cut_left [OF ov(1,2) conjunct1 [OF Cons.prems(3)]]) (use ov(1) in simp)
  have kept: "view t1 (frame_key H g') = Some g'" if "g' \<in> set gs" for g'
    using Cons.prems(4) [of g'] get(2) that by simp
  obtain w' t' where rest: "send_entries (ops e) (map (index_entry H) gs) 0 (b - max a (n + length g)) w1 t1 = Some (Ok (), w', t')"
      "wrote w1 w' (part a b (n + length g) (concat gs))" "writer_ready w'"
    using Cons.IH [OF get(3) ov(3) Cons.prems(3) kept w1(2,3)] unfolding send'(2) by blast
  have skip: "a - n \<le> length g" "b - max a n + (a - n) < 2 ^ 64" using ov(1) Cons.prems(3) by (auto simp: max_def)
  have "send_entries (ops e) (map (index_entry H) (g # gs)) (a - n) (b - max a n) w t = Some (Ok (), w', t')"
    unfolding list.map send_entries_step [OF get(1) skip d' w1(1)] send'(1) by (rule rest(1))
  then show ?case using wrote_trans [OF w1(4) rest(2)] rest(3) by (simp add: part_append)
qed

text \<open>
  A selection from frames \<open>fs\<close> that begin at \<open>n\<close>: frames \<open>gs\<close>, the first of which begins at \<open>m\<close>, have all
  the bytes between \<open>a\<close> and \<open>b\<close>; the start is \<open>m\<close>, unless a selected frame has fixed it before.
\<close>

definition selects ::
  "hash_funcs \<Rightarrow> nat \<Rightarrow> nat \<Rightarrow> nat \<Rightarrow> bytes list \<Rightarrow> u64 \<Rightarrow> bytes list \<Rightarrow> nat \<Rightarrow> digest_info list \<times> u64 \<Rightarrow> bool" where
  "selects H a b n fs start gs m res \<longleftrightarrow>
     fst res = map (index_entry H) gs \<and> set gs \<subseteq> set fs \<and> overlap a b m gs \<and>
     part a b m (concat gs) = part a b n (concat fs) \<and>
     (if a < n then m = n \<and> snd res = start else unat (snd res) = m \<and> m \<le> a)"

lemma selects_skip:
  assumes "n + length f \<le> a" "selects H a b (n + length f) fs start' gs m res"
  shows "selects H a b n (f # fs) start gs m res"
proof -
  have "part a b n f = []" using assms(1) by (simp add: part_def)
  moreover have "\<not> a < n" "\<not> a < n + length f" using assms(1) by simp_all
  ultimately show ?thesis using assms(2) by (simp add: selects_def part_append subset_insertI2)
qed

lemma selects_push:
  assumes "f \<noteq> []" "a < n + length f" "n < b" "n \<le> a \<Longrightarrow> unat start = n" "selects H a b (n + length f) fs start gs m res"
  shows "selects H a b n (f # fs) start (f # gs) n (index_entry H f # fst res, snd res)"
proof -
  have "m = n + length f" "snd res = start" using assms(2,5) by (simp_all add: selects_def)
  then show ?thesis using assms(1,2,3,5) assms(4) by (simp add: selects_def part_append subset_insertI2 not_less)
qed

lemma selects_nothing:
  assumes "a < n" "b \<le> n"
  shows "selects H a b n fs start [] n ([], start)"
  using assms by (simp add: selects_def part_def)

lemma select_entries_exact:
  assumes "\<And>f. f \<in> set fs \<Longrightarrow> frame_ok f" "n + length (concat fs) < 2 ^ 64" "unat sum0 = n" "unat off < b"
    and "\<And>l. len = Some l \<Longrightarrow> unat (off + l) = b" "len = None \<Longrightarrow> n + length (concat fs) \<le> b" "n \<le> unat off \<Longrightarrow> start = sum0"
  shows "\<exists>gs m. selects H (unat off) b n fs start gs m (select_entries off len sum0 start (map (index_entry H) fs))"
  using assms
proof (induction fs arbitrary: n sum0 start)
  case Nil
  then show ?case by (intro exI [of _ "[]"] exI [of _ n]) (auto simp: selects_def)
next
  case (Cons f fs)
  let ?a = "unat off"
  let ?sum = "sum0 + size_bytes (index_entry H f)"
  let ?n = "n + length f"
  have f: "frame_ok f" "f \<noteq> []" using Cons.prems(1) by (auto simp: frame_ok_def)
  have "?sum = sum0 + of_nat (length f)" by (simp add: index_entry_def)
  then have sum': "unat ?sum = ?n" using unat_plus_small [of sum0 "length f"] Cons.prems(2,3) by simp
  have le: "?sum \<le> off \<longleftrightarrow> ?n \<le> ?a" by (simp add: word_le_nat_alt sum')
  have IH: "\<exists>gs m. selects H ?a b ?n fs st gs m (select_entries off len ?sum st (map (index_entry H) fs))"
    if "?n \<le> ?a \<Longrightarrow> st = ?sum" for st
    by (rule Cons.IH) (use Cons.prems sum' that in auto)
  show ?case
  proof (cases "?n \<le> ?a")
    case True
    obtain gs m where gs: "selects H ?a b ?n fs ?sum gs m (select_entries off len ?sum ?sum (map (index_entry H) fs))"
      using IH [of ?sum] by auto
    have "select_entries off len sum0 start (map (index_entry H) (f # fs)) =
        select_entries off len ?sum ?sum (map (index_entry H) fs)"
      using True le by (simp add: Let_def)
    then show ?thesis using selects_skip [OF True gs] by metis
  next
    case False
    show ?thesis
    proof (cases "\<exists>l. len = Some l \<and> off + l \<le> sum0")
      case True
      then have "b \<le> n" using Cons.prems(3,5) by (auto simp: word_le_nat_alt)
      then show ?thesis using True False le Cons.prems(4) selects_nothing [of ?a n b H "f # fs" start]
        by (intro exI [of _ "[]"] exI [of _ n]) auto
    next
      case past: False
      have nb: "n < b"
      proof (cases len)
        case None
        then show ?thesis using Cons.prems(6) f(2) by (cases f) auto
      next
        case (Some l)
        then show ?thesis using past Cons.prems(3) Cons.prems(5) [OF Some] by (auto simp: word_le_nat_alt not_le)
      qed
      define res where "res = select_entries off len ?sum start (map (index_entry H) fs)"
      obtain gs m where gs: "selects H ?a b ?n fs start gs m res" using IH [of start] False res_def by auto
      have "select_entries off len sum0 start (map (index_entry H) (f # fs)) = (index_entry H f # fst res, snd res)"
        using False past le by (auto simp: Let_def split_beta res_def split: option.splits)
      moreover have "?a < ?n" "n \<le> ?a \<Longrightarrow> unat start = n" using False Cons.prems(3,7) by auto
      ultimately show ?thesis using selects_push [OF f(2) _ nb _ gs] by metis
    qed
  qed
qed

lemma overlap_all:
  "(\<And>f. f \<in> set fs \<Longrightarrow> f \<noteq> []) \<Longrightarrow> a \<le> n \<Longrightarrow> n + length (concat fs) \<le> b \<Longrightarrow> overlap a b n fs"
proof (induction fs arbitrary: n)
  case (Cons f fs)
  obtain x g where "f = x # g" using Cons.prems(1) [of f] by (cases f) auto
  then show ?case using Cons.IH [of "n + length f"] Cons.prems by simp
qed simp

lemma entries_selected:
  assumes "\<And>f. f \<in> set fs \<Longrightarrow> frame_ok f" "blob_fits (concat fs)" "len \<noteq> Some 0"
    and "unat off + (case len of None \<Rightarrow> 1 | Some l \<Rightarrow> unat l) < 2 ^ 64"
  shows "\<exists>gs m. selects H (unat off) (read_end off len) 0 fs 0 gs m
    (if off = 0 \<and> len = None then (map (index_entry H) fs, 0) else select_entries off len 0 0 (map (index_entry H) fs))"
proof (cases "off = 0 \<and> len = None")
  case True
  have "overlap 0 (2 ^ 64 - 1) 0 fs"
    by (rule overlap_all) (use assms(1,2) in \<open>auto simp: frame_ok_def blob_fits_def\<close>)
  then show ?thesis using True by (intro exI [of _ fs] exI [of _ 0]) (simp add: selects_def read_end_def)
next
  case False
  have "unat off < read_end off len" using assms(3,4) by (auto simp: read_end_def unat_gt_0 split: option.splits)
  moreover have "unat (off + l) = read_end off len" if "len = Some l" for l
    using that assms(4) by (simp add: read_end_def unat_word_ariths)
  moreover have "length (concat fs) \<le> read_end off len" if "len = None" using that assms(2) by (simp add: read_end_def blob_fits_def)
  ultimately have "\<exists>gs m. selects H (unat off) (read_end off len) 0 fs 0 gs m (select_entries off len 0 0 (map (index_entry H) fs))"
    by (intro select_entries_exact) (use assms(1,2) in \<open>auto simp: blob_fits_def\<close>)
  then show ?thesis by (simp only: False if_False)
qed

lemma read_left:
  assumes "unat off + (case len of None \<Rightarrow> 1 | Some l \<Rightarrow> unat l) < 2 ^ 64"
  shows "unat (case len of Some l \<Rightarrow> l | None \<Rightarrow> - 1 - off) = read_end off len - unat off"
proof (cases len)
  case None
  have "off \<le> - 1" by simp
  then show ?thesis using None by (simp add: read_end_def unat_sub unat_max)
qed (simp add: read_end_def)

lemma dedup_get_exact:
  assumes ls: "lossless_store ops1 ok1 view1 acc1" "lossless_store ops2 ok2 view2 acc2" and "ok1 s" "ok2 t"
    and "view1 s k = Some b" "dx_deserialize X b = Some (map (index_entry H) fs)"
    and fs: "\<And>f. f \<in> set fs \<Longrightarrow> frame_ok f" "\<And>f. f \<in> set fs \<Longrightarrow> view2 t (frame_key H f) = Some f" "blob_fits (concat fs)"
    and len: "unat off + (case len of None \<Rightarrow> 1 | Some l \<Rightarrow> unat l) < 2 ^ 64" and w: "writer_ready w" "wh_takes w = None"
  shows "\<exists>w' st. dedup_get_part X (ops1 e1) (ops2 e2) k w off len (s, t) = Some (Ok (), w', st) \<and>
    wrote w w' (slice off len (concat fs)) \<and> wh_eof_sent w'"
proof (cases "len = Some 0")
  case True
  then show ?thesis using send_eof_ready [OF w(1)] by (auto simp: dedup_get_part_def wrote_def slice_def)
next
  case False
  let ?a = "unat off" and ?b = "read_end off len"
  obtain s' where s': "get_part_unchunked (ops1 e1) k 0 None s = (Ok b, s')" using read_whole [OF ls(1) assms(3,5)] by metis
  define sel where "sel = (if off = 0 \<and> len = None then (map (index_entry H) fs, 0)
    else select_entries off len 0 0 (map (index_entry H) fs))"
  obtain gs m where "selects H ?a ?b 0 fs 0 gs m sel" using entries_selected [OF fs(1,3) False len, of H] sel_def by auto
  then have sel: "fst sel = map (index_entry H) gs" "set gs \<subseteq> set fs" "overlap ?a ?b m gs"
      "part ?a ?b m (concat gs) = slice off len (concat fs)" "unat (snd sel) = m" "m \<le> ?a"
    using read_slice [OF fs(3)] by (simp_all add: selects_def)
  have "snd sel \<le> off" using sel(5,6) by (simp add: word_le_nat_alt)
  then have skip: "unat (off - snd sel) = ?a - m" using sel(5) by (simp add: unat_sub)
  have ab: "?a < ?b \<and> ?b < 2 ^ 64" using len False by (auto simp: read_end_def unat_gt_0 split: option.splits)
  have left: "unat (case len of Some l \<Rightarrow> l | None \<Rightarrow> - 1 - off) = ?b - max ?a m" using read_left [OF len] sel(6) by simp
  have kept: "view2 t (frame_key H g) = Some g" if "g \<in> set gs" for g using fs(2) sel(2) that by auto
  obtain w1 t' where send: "send_entries (ops2 e2) (map (index_entry H) gs) (?a - m) (?b - max ?a m) w t = Some (Ok (), w1, t')"
      "wrote w w1 (part ?a ?b m (concat gs))" "writer_ready w1"
    using send_entries_exact [OF ls(2) assms(4) sel(3) ab kept w] by blast
  obtain w' where w': "send_eof w1 = (Ok (), w')" "wh_eof_sent w'" "wh_sent w' = wh_sent w1" using send_eof_ready [OF send(3)] by blast
  have "dedup_get_part X (ops1 e1) (ops2 e2) k w off len (s, t) = Some (Ok (), w', s', t')"
    unfolding dedup_get_part_def using False s' assms(6) sel_def [symmetric] sel(1) skip left send(1) w'(1)
    by (simp add: split_beta)
  moreover have "wrote w w' (slice off len (concat fs))" using send(2) sel(4) w'(3) by (simp add: wrote_def)
  ultimately show ?thesis using w'(2) by blast
qed

section \<open>What was written is read back\<close>

text \<open>
  The framed reader: the bytes of a stream that ends reach the chunker in some pieces, \<open>decode\<close> is
  called any number of times as they come, and \<open>decode_eof\<close> at the end until it has no frame left.
\<close>

definition framed_reader :: "dedup_ext \<Rightarrow> fast_cdc \<Rightarrow> bool" where
  "framed_reader X c \<longleftrightarrow>
     (\<forall>rd. reader_ok rd \<and> rh_eof_sent rd \<longrightarrow>
       (\<exists>fs buf c' gs. dx_framed X (cdc_clone c) rd = (fs @ gs, None) \<and> cdc_run c (rh_data rd) fs buf c' \<and>
          cdc_finish (Suc (length buf)) c' buf = Some gs))"

definition index_codec :: "dedup_ext \<Rightarrow> bool" where
  "index_codec X \<longleftrightarrow> (\<forall>es b. dx_serialize X es = Some b \<longrightarrow> dx_deserialize X b = Some es)"

lemma dedup_default_pos: "dflt \<noteq> 0 \<Longrightarrow> 0 < unat (dedup_default v dflt)"
proof -
  have "unat v < 2 ^ 32" using unsigned_less [of v] by simp
  then have "unat (ucast v :: u64) = unat v" by (simp add: unsigned_ucast_eq take_bit_nat_eq_self)
  then have "ucast v = (0 :: u64) \<Longrightarrow> v = 0" by (metis unsigned_0 unsigned_eq_0_iff)
  then show "dflt \<noteq> 0 \<Longrightarrow> ?thesis" by (auto simp: dedup_default_def unat_gt_0)
qed

lemma dedup_new_sizes:
  "dedup_new spec = Some c \<Longrightarrow> 0 < cdc_min_size c \<and> cdc_min_size c < cdc_max_size c"
  using fast_cdc_new_sizes dedup_default_pos [of "64 * 1024"] by (fastforce simp: dedup_new_def)

lemma framed_frames:
  assumes "framed_reader X c" "0 < cdc_min_size c" "reader_ok rd" "rh_eof_sent rd"
  shows "dx_framed X (cdc_clone c) rd = (cdc_frames c (rh_data rd), None)"
proof -
  obtain fs buf c' gs where f: "dx_framed X (cdc_clone c) rd = (fs @ gs, None)" "cdc_run c (rh_data rd) fs buf c'"
      "cdc_finish (Suc (length buf)) c' buf = Some gs"
    using assms(1,3,4) unfolding framed_reader_def by blast
  note inv = cdc_run_inv [OF f(2) assms(2)]
  have "gs = cdc_frames c buf" using f(3) cdc_finish_frames [OF conjunct1 [OF inv] assms(2) lessI] by (simp del: cdc_finish.simps)
  moreover have "cdc_frames c (rh_data rd) = fs @ cdc_frames c buf" using conjunct2 [OF inv] by (metis append_Nil2)
  ultimately show ?thesis using f(1) by simp
qed

lemma length_concat_member: "f \<in> set fs \<Longrightarrow> length f \<le> length (concat fs)"
  by (induction fs) auto

text \<open>
  C8. Round trip of the deduplication store. A stream that ends is cut into frames and stored, and
  every read of it afterwards, at any offset and of any length that does not wrap around, delivers
  exactly the bytes asked for and the end of the stream. The two stores keep what they accept, the
  digests of the frames of the blob differ, and the content store has nothing else under them.
\<close>

theorem dedup_roundtrip:
  assumes fs: "fs = cdc_frames c (rh_data rd)" and ls: "lossless_store ops1 ok1 view1 acc1" "lossless_store ops2 ok2 view2 acc2" and ok: "ok1 s" "ok2 t"
    and new: "dedup_new spec = Some c" and ext: "framed_reader X c" "index_codec X"
    and rd: "reader_ok rd" "rh_eof_sent rd" "blob_fits (rh_data rd)" and k: "\<not> is_zero_digest k"
    and H: "inj_on (index_entry H) (set fs)" "frames_right H (set fs) (view2 t)"
    and acc2: "\<And>f. f \<in> set fs \<Longrightarrow> acc2 e2 (frame_key H f) f (ExactSize (of_nat (length f)))"
    and b: "dx_serialize X (map (index_entry H) fs) = Some b" "blob_fits b" "acc1 e1 k b (ExactSize (of_nat (length b)))"
    and len: "unat off + (case len of None \<Rightarrow> 1 | Some l \<Rightarrow> unat l) < 2 ^ 64"
  shows "\<exists>s' t'. dedup_update X H c (ops1 e1) (ops2 e2) k rd (s, t) = (Ok (), s', t') \<and>
    (\<exists>w' st. dedup_get_part X (ops1 e1') (ops2 e2') k (new_writer None) off len (s', t') = Some (Ok (), w', st) \<and>
       wrote (new_writer None) w' (slice off len (rh_data rd)) \<and> wh_eof_sent w')"
proof -
  have c: "0 < cdc_min_size c" "cdc_min_size c \<le> cdc_max_size c" using dedup_new_sizes [OF new] by simp_all
  have data: "concat fs = rh_data rd" using cdc_frames_concat [OF c(1)] by (simp add: fs)
  have fok: "frame_ok f" if f: "f \<in> set fs" for f
    unfolding frame_ok_def
    using cdc_frames_sizes [OF c, of "rh_data rd"] length_concat_member [OF f] rd(3) f data by (auto simp: fs blob_fits_def)
  obtain t' where put: "put_frames H (ops2 e2) fs t = (Ok (map (index_entry H) fs), t')" "ok2 t'"
      "\<forall>f \<in> set fs. view2 t' (frame_key H f) = Some f"
    using put_frames_exact [OF ls(2) ok(2) fok H(1) acc2 H(2) order.refl] by auto
  obtain s' where idx: "update_oneshot (ops1 e1) k b s = (Ok (), s')" "view1 s' = put_blob k b (view1 s)" "ok1 s'"
    using update_oneshot_exact [OF ls(1) ok(1) b(2,3)] by blast
  have "dedup_update X H c (ops1 e1) (ops2 e2) k rd (s, t) = (Ok (), s', t')"
    using framed_frames [OF ext(1) c(1) rd(1,2)] put(1) b(1) idx(1) by (simp add: dedup_update_def fs)
  moreover have "view1 s' k = Some b" using idx(2) k by (simp add: put_blob_def)
  moreover have "dx_deserialize X b = Some (map (index_entry H) fs)" using ext(2) b(1) unfolding index_codec_def by blast
  ultimately show ?thesis
    using dedup_get_exact [where fs = fs, OF ls idx(3) put(2) _ _ fok _ _ len new_writer_ready(1) new_writer_ready(2)] put(3) rd(3) data
    by metis
qed

definition sample_codec :: "digest_info list \<Rightarrow> dedup_ext" where
  "sample_codec es =
     \<lparr>dx_framed = (\<lambda>c rd. (the (cdc_finish (Suc (length (rh_data rd))) c (rh_data rd)), None)),
      dx_serialize = (\<lambda>xs. if xs = es then Some [1] else None),
      dx_deserialize = (\<lambda>b. if b = [1] then Some es else None)\<rparr>"

lemma sample_codec_laws:
  assumes "0 < cdc_min_size c"
  shows "framed_reader (sample_codec es) c" "index_codec (sample_codec es)"
proof -
  have "\<exists>fs buf c' gs. dx_framed (sample_codec es) (cdc_clone c) rd = (fs @ gs, None) \<and> cdc_run c (rh_data rd) fs buf c' \<and>
      cdc_finish (Suc (length buf)) c' buf = Some gs" for rd
  proof (intro exI conjI)
    have "cdc_run c ([] @ rh_data rd) [] ([] @ rh_data rd) (cdc_clone c)" by (rule run_feed) (rule run_start)
    then show run: "cdc_run c (rh_data rd) [] (rh_data rd) (cdc_clone c)" by simp
    show "cdc_finish (Suc (length (rh_data rd))) (cdc_clone c) (rh_data rd) = Some (cdc_frames c (rh_data rd))"
      by (rule cdc_finish_frames [OF conjunct1 [OF cdc_run_inv [OF run assms]] assms lessI])
    then show "dx_framed (sample_codec es) (cdc_clone c) rd = ([] @ cdc_frames c (rh_data rd), None)"
      by (simp add: sample_codec_def del: cdc_finish.simps)
  qed
  then show "framed_reader (sample_codec es) c" unfolding framed_reader_def by blast
  show "index_codec (sample_codec es)" by (simp add: index_codec_def sample_codec_def)
qed

lemma sample_frames: "cdc_frames (sample_cdc 0 0) [5, 6, 7, 8, 9, 10] = [[5, 6, 7], [8, 9, 10]]"
proof -
  have "0 < cdc_min_size (sample_cdc 0 0)" by (simp add: sample_cdc_def)
  note inv = cdc_run_inv [OF sample_cdc_run this] and fin = cdc_finish_frames [OF _ this, of _ _ 4]
  have "cdc_frames (sample_cdc 0 0) [8, 9, 10] = [[8, 9, 10]]" using fin [OF conjunct1 [OF inv]] sample_cdc_finish by simp
  then show ?thesis using spec [OF conjunct2 [OF inv], of "[]"] by simp
qed

theorem dedup_roundtrip_witness:
  "\<exists>s' t' w' st. dedup_update (sample_codec (map (index_entry (\<lambda>_ d. d)) [[5, 6, 7], [8, 9, 10]])) (\<lambda>_ d. d) (sample_cdc 0 0)
       (memory_store list_lru default_policy 4) (memory_store list_lru default_policy 5) sample_digest
       (new_reader [[5, 6, 7, 8], [9, 10]] True)
       (memory_store_new list_lru, memory_store_new list_lru :: (store_key \<times> bytes eviction_item) list memory_state) = (Ok (), s', t') \<and>
     dedup_get_part (sample_codec (map (index_entry (\<lambda>_ d. d)) [[5, 6, 7], [8, 9, 10]]))
       (memory_store list_lru default_policy 6) (memory_store list_lru default_policy 7) sample_digest (new_writer None) 2 (Some 3) (s', t')
       = Some (Ok (), w', st) \<and>
     wrote (new_writer None) w' [7, 8, 9] \<and> wh_eof_sent w'"
proof -
  let ?H = "(\<lambda>_ d. d) :: hash_funcs" and ?fs = "[[5, 6, 7], [8, 9, 10]] :: bytes list"
  let ?new = "memory_store_new list_lru :: (store_key \<times> bytes eviction_item) list memory_state"
  let ?rd = "new_reader [[5, 6, 7, 8], [9, 10]] True"
  let ?X = "sample_codec (map (index_entry ?H) ?fs)"
  note mem = memory_lossless [OF ll_em.evicting_map_axioms unlimited_default]
  note new = memory_ok_new [OF ll_em.evicting_map_axioms]
  have zero: "\<not> is_zero_digest sample_digest" by (simp add: sample_digest_def is_zero_digest_def)
  have rd: "reader_ok ?rd" "rh_eof_sent ?rd" "rh_data ?rd = [5, 6, 7, 8, 9, 10]" "blob_fits (rh_data ?rd)"
    by (simp_all add: blob_fits_def)
  have spec: "dedup_new \<lparr>ds_min_size = 2, ds_normal_size = 4, ds_max_size = 8\<rparr> = Some (sample_cdc 0 0)"
    using sample_cdc_new by (simp add: dedup_new_def dedup_default_def)
  have "0 < cdc_min_size (sample_cdc 0 0)" by (simp add: sample_cdc_def)
  note ext = sample_codec_laws [OF this, of "map (index_entry ?H) ?fs"]
  have inj: "inj_on (index_entry ?H) (set ?fs)" by (simp add: index_entry_def)
  have right: "frames_right ?H (set ?fs) (memory_view list_lru ?new)"
    by (simp add: frames_right_def memory_view_def memory_store_new_def em_state_new_def contents_def list_lru_def
        frame_not_zero frame_ok_def blob_fits_def)
  have ser: "dx_serialize ?X (map (index_entry ?H) ?fs) = Some [1]" "blob_fits [1]" by (simp_all add: sample_codec_def blob_fits_def)
  have len: "unat (2 :: u64) + (case Some 3 of None \<Rightarrow> 1 | Some l \<Rightarrow> unat (l :: u64)) < 2 ^ 64" by simp
  have fs: "?fs = cdc_frames (sample_cdc 0 0) (rh_data ?rd)" using sample_frames rd(3) by simp
  from dedup_roundtrip [where ?e1.0 = 4 and ?e2.0 = 5 and e1' = 6 and e2' = 7, OF fs mem mem new new spec ext rd(1,2,4) zero inj right TrueI ser TrueI len]
  show ?thesis by (simp add: slice_def)
qed

end
