(* ===== verification/Compression_Store.thy ===== *)
theory Compression_Store
  imports Shard_Store Fast_Slow_Store
begin

text \<open>
  The compression store (nativelink-store/src/compression_store.rs): a blob is cut into blocks, each
  block is compressed, and the blocks are kept in the inner store between a header and a footer. The
  crates \<open>lz4_flex\<close> and \<open>bincode\<close> are parameters. The task of the inner store and the loop beside it are
  joined by a channel whose receiver may hang up: \<open>takes\<close>. The outer \<open>None\<close> is a panic.
\<close>

section \<open>The format\<close>

definition CURRENT_STREAM_FORMAT_VERSION :: u8 where
  "CURRENT_STREAM_FORMAT_VERSION = 1"

definition CHUNK_FRAME_TYPE :: u8 where
  "CHUNK_FRAME_TYPE = 0"

definition FOOTER_FRAME_TYPE :: u8 where
  "FOOTER_FRAME_TYPE = 1"

definition U32_SZ :: u64 where
  "U32_SZ = 1"

datatype lz4_block_config = Lz4Config (block_size: u32)

record comp_header =
  hd_version :: u8
  hd_config :: lz4_block_config
  hd_upload_size :: upload_size_info

datatype slice_index = SliceIndex (position_from_prev_index: u32)

record comp_footer =
  ft_indexes :: "slice_index list"
  ft_index_count :: u32
  ft_uncompressed_data_size :: u64
  ft_config :: lz4_block_config
  ft_version :: u8

text \<open>The functions of the crates; the last argument of the two on blocks is the room for the result.\<close>

record comp_ext =
  cx_header_size :: "comp_header \<Rightarrow> u64 option"
  cx_header :: "comp_header \<Rightarrow> bytes option"
  cx_parse_header :: "bytes \<Rightarrow> comp_header option"
  cx_footer_size :: "comp_footer \<Rightarrow> u64 option"
  cx_footer :: "comp_footer \<Rightarrow> bytes option"
  cx_parse_footer :: "bytes \<Rightarrow> comp_footer option"
  cx_max_output_size :: "nat \<Rightarrow> nat"
  cx_compress :: "bytes \<Rightarrow> nat \<Rightarrow> bytes option"
  cx_decompress :: "bytes \<Rightarrow> nat \<Rightarrow> bytes option"

section \<open>Configuration\<close>

record lz4_spec =
  ls_block_size :: u32
  ls_max_decode_block_size :: u32

definition compression_new :: "lz4_spec \<Rightarrow> lz4_spec" where
  "compression_new spec =
     (let c1 = (if ls_block_size spec = 0 then spec\<lparr>ls_block_size := 64 * 1024\<rparr> else spec)
      in if ls_max_decode_block_size c1 = 0 then c1\<lparr>ls_max_decode_block_size := ls_block_size c1\<rparr> else c1)"

section \<open>Writing\<close>

definition lz4_compress_bound :: "u64 \<Rightarrow> u64" where
  "lz4_compress_bound input_size = input_size + input_size div 255 + 16"

record upload_state =
  us_header :: comp_header
  us_footer :: comp_footer
  us_max_output_size :: u64
  us_input_max_size :: u64

definition upload_state_new :: "comp_ext \<Rightarrow> lz4_spec \<Rightarrow> upload_size_info \<Rightarrow> upload_state option" where
  "upload_state_new X cfg upload_size =
     (let input_max_size = (case upload_size of MaxSize sz \<Rightarrow> sz | ExactSize sz \<Rightarrow> sz);
          max_index_count = input_max_size div ucast (ls_block_size cfg) + 1;
          header = \<lparr>hd_version = CURRENT_STREAM_FORMAT_VERSION, hd_config = Lz4Config (ls_block_size cfg),
                    hd_upload_size = upload_size\<rparr>;
          footer = \<lparr>ft_indexes = replicate (unat max_index_count) (SliceIndex 0), ft_index_count = ucast max_index_count,
                    ft_uncompressed_data_size = 0, ft_config = hd_config header, ft_version = CURRENT_STREAM_FORMAT_VERSION\<rparr>;
          max_block_size = lz4_compress_bound (ucast (ls_block_size cfg)) + U32_SZ + 1
      in case cx_header_size X header of
           None \<Rightarrow> None
         | Some header_size \<Rightarrow>
             (case cx_footer_size X footer of
                None \<Rightarrow> None
              | Some footer_size \<Rightarrow>
                  Some \<lparr>us_header = header, us_footer = footer,
                        us_max_output_size = header_size + max_block_size * max_index_count + (U32_SZ + 1 + footer_size),
                        us_input_max_size = input_max_size\<rparr>))"

definition put_u32_le :: "u32 \<Rightarrow> bytes" where
  "put_u32_le v = map (\<lambda>i. ucast (drop_bit (8 * i) v)) [0..<4]"

text \<open>The buffer of a block also has the type and the size of the frame; advancing beyond it panics.\<close>

fun compress_blocks ::
  "comp_ext \<Rightarrow> lz4_spec \<Rightarrow> u64 \<Rightarrow> slice_index list \<Rightarrow> u64 \<Rightarrow> u32 \<Rightarrow> read_half \<Rightarrow> write_half
     \<Rightarrow> ((slice_index list \<times> u64 \<times> u32) result \<times> write_half) option" where
  "compress_blocks X cfg input_max_size [] received_amt index_count reader tx = Some (Ok ([], received_amt, index_count), tx)"
| "compress_blocks X cfg input_max_size (index # indexes) received_amt index_count reader tx =
     (case consume (Some (unat (ls_block_size cfg))) reader of
        (Inl e, _) \<Rightarrow> Some (err_tip ''Failed to read take in update in compression store'' (Err e), tx)
      | (Inr chunk, reader') \<Rightarrow>
          if chunk = [] then Some (Ok (index # indexes, received_amt, index_count), tx)
          else let received = received_amt + of_nat (length chunk);
                   max_output_size = cx_max_output_size X (unat (ls_block_size cfg))
               in if input_max_size < received
                  then Some (Err (make_input_err ''Got more data than stated in compression store upload request''), tx)
                  else case cx_compress X chunk max_output_size of
                         None \<Rightarrow> Some (Err (make_err Internal ''Compression error''), tx)
                       | Some z \<Rightarrow>
                           if max_output_size < 5 + length z then None
                           else (case send (CHUNK_FRAME_TYPE # put_u32_le (of_nat (length z)) @ z) tx of
                                   (Inl e, tx') \<Rightarrow>
                                     Some (err_tip ''Failed to write chunk to inner store in compression store'' (Err e), tx')
                                 | (Inr _, tx') \<Rightarrow>
                                     map_option (\<lambda>(r, tx''). (map_sum id (\<lambda>(is, p). (SliceIndex (of_nat (length z)) # is, p)) r, tx''))
                                       (compress_blocks X cfg input_max_size indexes received (index_count + 1) reader' tx')))"

definition write_footer ::
  "comp_ext \<Rightarrow> comp_footer \<Rightarrow> slice_index list \<times> u64 \<times> u32 \<Rightarrow> write_half \<Rightarrow> unit result \<times> write_half" where
  "write_footer X footer blocks tx =
     (let (indexes, received_amt, n) = blocks;
          index_count = unat (if n = 0 then 0 else n - 1);
          indexes' = take index_count indexes @ replicate (index_count - length indexes) (SliceIndex 0);
          footer' = footer\<lparr>ft_indexes := indexes', ft_index_count := of_nat (length indexes'),
                           ft_uncompressed_data_size := received_amt\<rparr>
      in case cx_footer X footer' of
           None \<Rightarrow> (Err (make_err Internal ''Failed to serialize header''), tx)
         | Some b \<Rightarrow>
             (case send (FOOTER_FRAME_TYPE # put_u32_le (of_nat (length b)) @ b) tx of
                (Inl e, tx') \<Rightarrow> (err_tip ''Failed to write footer to inner store in compression store'' (Err e), tx')
              | (Inr _, tx') \<Rightarrow>
                  (let (r, tx'') = send_eof tx' in (err_tip ''Failed writing EOF in compression store update'' r, tx''))))"

definition compression_write ::
  "comp_ext \<Rightarrow> lz4_spec \<Rightarrow> upload_state \<Rightarrow> read_half \<Rightarrow> write_half \<Rightarrow> (unit result \<times> write_half) option" where
  "compression_write X cfg st reader tx =
     (case cx_header X (us_header st) of
        None \<Rightarrow> Some (Err (make_err Internal ''Failed to serialize header''), tx)
      | Some h \<Rightarrow>
          (case send h tx of
             (Inl e, tx1) \<Rightarrow> Some (err_tip ''Failed to write compression header on upload'' (Err e), tx1)
           | (Inr _, tx1) \<Rightarrow>
               (case compress_blocks X cfg (us_input_max_size st) (ft_indexes (us_footer st)) 0 0 reader tx1 of
                  None \<Rightarrow> None
                | Some (Inl e, tx2) \<Rightarrow> Some (Err e, tx2)
                | Some (Inr blocks, tx2) \<Rightarrow> Some (write_footer X (us_footer st) blocks tx2))))"

definition compression_update ::
  "comp_ext \<Rightarrow> lz4_spec \<Rightarrow> nat option \<Rightarrow> 's store_driver \<Rightarrow> store_key \<Rightarrow> read_half \<Rightarrow> upload_size_info \<Rightarrow> 's
     \<Rightarrow> (unit result \<times> 's) option" where
  "compression_update X cfg takes inner key reader upload_size s =
     (case upload_state_new X cfg upload_size of
        None \<Rightarrow> None
      | Some st \<Rightarrow>
          (case compression_write X cfg st reader (new_writer takes) of
             None \<Rightarrow> None
           | Some (write_result, tx) \<Rightarrow>
               (let (r, s') = sd_update inner key (reader_of tx) (MaxSize (us_max_output_size st)) s;
                    update_result = err_tip ''Compression underlying store update failed''
                      (err_tip ''Inner store update in compression store failed'' r)
                in Some (result_merge write_result update_result, s'))))"

section \<open>Reading\<close>

text \<open>What \<open>consume\<close> returns is taken from the stream, whatever reader it is.\<close>

lemma recv_data: "recv r = (Ok c, r') \<Longrightarrow> rh_data r = c @ rh_data r'"
  by (auto simp: recv_def try_recv_def recv_inner_def Let_def rh_data_def split: option.splits list.splits if_splits)

lemma peek_data: "peek r = (Ok c, r') \<Longrightarrow> rh_data r' = rh_data r"
  using recv_data [of r c] by (auto simp: peek_def rh_data_def split: list.splits prod.splits sum.splits)

lemma consume_loop_data: "consume_loop n acc r = (Ok c, r') \<Longrightarrow> acc @ rh_data r = c @ rh_data r'"
proof (induction n acc r rule: consume_loop.induct)
  case (1 n acc r)
  obtain res r1 where r1: "recv r = (res, r1)" by fastforce
  show ?case
  proof (cases res)
    case (Inl e)
    then show ?thesis using 1(2) r1 by (subst (asm) consume_loop.simps) simp
  next
    case (Inr x)
    then have x: "rh_data r = x @ rh_data r1" using recv_data r1 by blast
    have run: "consume_loop n acc r = (if x = [] then (Ok acc, r1)
        else if n < length acc + length x
        then (Ok (acc @ take (n - length acc) x), r1\<lparr>rh_queued_data := drop (n - length acc) x # rh_queued_data r1\<rparr>)
        else if length (acc @ x) = n then (Ok (acc @ x), r1) else consume_loop n (acc @ x) r1)"
      using r1 Inr by (subst consume_loop.simps) simp
    note IH = 1(1) [OF r1 [symmetric] Inr]
    show ?thesis using 1(2) IH x unfolding run by (auto simp: rh_data_def split: if_splits)
  qed
qed

lemma consume_data: "consume lm r = (Ok c, r') \<Longrightarrow> rh_data r = c @ rh_data r'"
  using recv_data [of r] peek_data consume_loop_data
  by (fastforce simp: consume_def Let_def rh_data_def split: prod.splits sum.splits if_splits)

definition read_frame_info :: "string \<Rightarrow> string \<Rightarrow> read_half \<Rightarrow> (u8 \<times> u32) result \<times> read_half" where
  "read_frame_info read_msg eof_msg rx =
     (case consume (Some (1 + 4)) rx of
        (Inl e, rx') \<Rightarrow> (err_tip read_msg (Err e), rx')
      | (Inr chunk, rx') \<Rightarrow>
          if length chunk < 1 + 4 then (Err (make_input_err eof_msg), rx')
          else (Ok (hd chunk, from_le_bytes (take 4 (tl chunk))), rx'))"

lemma read_frame_info_less:
  "read_frame_info m1 m2 rx = (Ok fi, rx') \<Longrightarrow> length (rh_data rx') < length (rh_data rx)"
  using consume_data [of "Some 5" rx]
  by (auto simp: read_frame_info_def split: prod.splits sum.splits if_splits)

lemma frame_round_less:
  "consume lm rx = (Ok c, rx1) \<Longrightarrow> read_frame_info m1 m2 rx1 = (Ok fi, rx2) \<Longrightarrow> length (rh_data rx2) < length (rh_data rx)"
  using consume_data [of lm rx c rx1] read_frame_info_less [of m1 m2 rx1 fi rx2] by simp

text \<open>The part of one block that was asked for; the sum of the start and the rest wraps around.\<close>

definition send_block ::
  "u64 \<Rightarrow> u64 \<Rightarrow> u64 \<Rightarrow> bytes \<Rightarrow> write_half \<Rightarrow> (u64 result \<times> write_half) option" where
  "send_block offset uncompressed_data_sz remaining d writer =
     (if offset \<le> uncompressed_data_sz + of_nat (length d) \<and> 0 < remaining
      then let start_pos = unat (if offset \<le> uncompressed_data_sz then 0 else offset - uncompressed_data_sz);
               end_pos = min ((start_pos + unat remaining) mod 2 ^ 64) (length d);
               rest = remaining - (of_nat end_pos - of_nat start_pos)
           in if end_pos \<noteq> start_pos
              then if end_pos < start_pos then None
                   else case send (take (end_pos - start_pos) (drop start_pos d)) writer of
                          (Inl e, w) \<Rightarrow> Some (err_tip ''Failed sending chunk in compression store'' (Err e), w)
                        | (Inr _, w) \<Rightarrow> Some (Ok rest, w)
              else Some (Ok rest, writer)
      else Some (Ok remaining, writer))"

function decode_blocks ::
  "comp_ext \<Rightarrow> u32 \<Rightarrow> u64 \<Rightarrow> u8 \<times> u32 \<Rightarrow> u64 \<Rightarrow> u64 \<Rightarrow> u32 \<Rightarrow> read_half \<Rightarrow> write_half
     \<Rightarrow> ((u32 \<times> u64 \<times> u32 \<times> read_half) result \<times> write_half) option" where
  "decode_blocks X bsz offset frame uncompressed_data_sz remaining chunks_count rx writer =
     (if fst frame = FOOTER_FRAME_TYPE then Some (Ok (snd frame, uncompressed_data_sz, chunks_count, rx), writer)
      else if fst frame \<noteq> CHUNK_FRAME_TYPE
      then Some (Err (make_input_err ''Expected frame to be BODY in compression store''), writer)
      else case consume (Some (unat (snd frame))) rx of
             (Inl e, _) \<Rightarrow> Some (err_tip ''Failed to read chunk in get_part compression store'' (Err e), writer)
           | (Inr chunk, rx1) \<Rightarrow>
               if length chunk < unat (snd frame)
               then Some (Err (make_err Internal ''Got EOF earlier than expected. Maybe the data is not compressed or different format?''), writer)
               else case cx_decompress X chunk (cx_max_output_size X (unat bsz)) of
                      None \<Rightarrow> Some (Err (make_err Internal ''Decompression error''), writer)
                    | Some d \<Rightarrow>
                        (case send_block offset uncompressed_data_sz remaining d writer of
                           None \<Rightarrow> None
                         | Some (Inl e, w) \<Rightarrow> Some (Err e, w)
                         | Some (Inr remaining', w) \<Rightarrow>
                             (case read_frame_info ''Failed to read frame info in compression store''
                                     ''Received EOF too early while reading frame info in compression store'' rx1 of
                                (Inl e, _) \<Rightarrow> Some (Err e, w)
                              | (Inr frame', rx2) \<Rightarrow>
                                  decode_blocks X bsz offset frame' (uncompressed_data_sz + of_nat (length d)) remaining'
                                    (chunks_count + 1) rx2 w)))"
  by pat_completeness auto

termination
  by (relation "measure (\<lambda>(X, bsz, off, fr, n, rem, cnt, rx, w). length (rh_data rx))")
    (auto dest!: sym [of _ "consume _ _"] sym [of _ "read_frame_info _ _ _"] intro: frame_round_less)

declare decode_blocks.simps [simp del]

definition read_header :: "comp_ext \<Rightarrow> lz4_spec \<Rightarrow> read_half \<Rightarrow> (comp_header result \<times> read_half) option" where
  "read_header X cfg rx =
     (case cx_header_size X \<lparr>hd_version = CURRENT_STREAM_FORMAT_VERSION, hd_config = Lz4Config 0, hd_upload_size = ExactSize 0\<rparr> of
        None \<Rightarrow> None
      | Some header_size \<Rightarrow>
          (case consume (Some (unat header_size)) rx of
             (Inl e, rx1) \<Rightarrow> Some (err_tip ''Failed to read header in get_part compression store'' (Err e), rx1)
           | (Inr chunk, rx1) \<Rightarrow>
               if of_nat (length chunk) \<noteq> header_size
               then Some (Err (make_input_err ''Expected inner store to return the proper amount of data in compression store''), rx1)
               else case cx_parse_header X chunk of
                      None \<Rightarrow> Some (Err (make_err Internal ''Failed to deserialize header''), rx1)
                    | Some header \<Rightarrow>
                        if hd_version header \<noteq> CURRENT_STREAM_FORMAT_VERSION
                        then Some (Err (make_input_err ''Expected header version to match in get compression''), rx1)
                        else if ls_max_decode_block_size cfg < block_size (hd_config header)
                        then Some (Err (make_input_err ''Block size is too large in compression''), rx1)
                        else Some (Ok header, rx1)))"

definition check_footer :: "comp_ext \<Rightarrow> comp_header \<Rightarrow> u32 \<times> u64 \<times> u32 \<times> read_half \<Rightarrow> unit result" where
  "check_footer X header res =
     (let (frame_sz, uncompressed_data_sz, n, rx) = res;
          chunks_count = (if n = 0 then 0 else n - 1)
      in case fst (consume (Some (unat frame_sz)) rx) of
           Inl e \<Rightarrow> err_tip ''Failed to read chunk in get_part compression store'' (Err e)
         | Inr chunk \<Rightarrow>
             if length chunk < unat frame_sz
             then Err (make_input_err ''Unexpected EOF when reading footer in compression store get_part'')
             else case cx_parse_footer X chunk of
                    None \<Rightarrow> Err (make_err Internal ''Failed to deserialize footer'')
                  | Some footer \<Rightarrow>
                      if hd_version header \<noteq> ft_version footer
                      then Err (make_input_err ''Expected header and footer versions to match compression store get_part'')
                      else if length (ft_indexes footer) \<noteq> unat (ft_index_count footer)
                      then Err (make_input_err ''Expected index counts to match in compression store footer in get_part'')
                      else if ft_index_count footer \<noteq> chunks_count
                      then Err (make_input_err ''Expected index counts to match received chunks count in compression store footer in get_part'')
                      else if ft_uncompressed_data_size footer \<noteq> uncompressed_data_sz
                      then Err (make_input_err ''Expected uncompressed data sizes to match in compression store footer in get_part'')
                      else Ok ())"

definition compression_read ::
  "comp_ext \<Rightarrow> lz4_spec \<Rightarrow> u64 \<Rightarrow> u64 option \<Rightarrow> read_half \<Rightarrow> write_half \<Rightarrow> (unit result \<times> write_half) option" where
  "compression_read X cfg offset len rx writer =
     (case read_header X cfg rx of
        None \<Rightarrow> None
      | Some (Inl e, _) \<Rightarrow> Some (Err e, writer)
      | Some (Inr header, rx1) \<Rightarrow>
          (case read_frame_info ''Failed to read init frame info in compression store''
                  ''Received EOF too early while reading init frame info in compression store'' rx1 of
             (Inl e, _) \<Rightarrow> Some (Err e, writer)
           | (Inr frame, rx2) \<Rightarrow>
               (case decode_blocks X (block_size (hd_config header)) offset frame 0 (case len of None \<Rightarrow> - 1 | Some l \<Rightarrow> l) 0 rx2 writer of
                  None \<Rightarrow> None
                | Some (Inl e, w) \<Rightarrow> Some (Err e, w)
                | Some (Inr res, w) \<Rightarrow>
                    (case check_footer X header res of
                       Inl e \<Rightarrow> Some (Err e, w)
                     | Inr _ \<Rightarrow>
                         (let (r, w') = send_eof w in Some (err_tip ''Failed to send eof in compression store write'' r, w'))))))"

definition compression_get_part ::
  "comp_ext \<Rightarrow> lz4_spec \<Rightarrow> nat option \<Rightarrow> 's store_driver \<Rightarrow> store_key \<Rightarrow> write_half \<Rightarrow> u64 \<Rightarrow> u64 option \<Rightarrow> 's
     \<Rightarrow> (unit result \<times> write_half \<times> 's) option" where
  "compression_get_part X cfg takes inner key writer offset len s =
     (if is_zero_digest key
      then let (r, w) = send_eof writer
           in Some (err_tip ''Failed to send zero EOF in filesystem store get_part'' r, w, s)
      else let (r, tx, s') = sd_get_part inner key (new_writer takes) 0 None s;
               get_result = err_tip ''Compression underlying store get failed''
                 (err_tip ''Inner store get in compression store failed'' r)
           in case compression_read X cfg offset len (reader_of tx) writer of
                None \<Rightarrow> None
              | Some (Inr _, w) \<Rightarrow> Some (Ok (), w, s')
              | Some (Inl e, w) \<Rightarrow> Some (Err (case get_result of Inl err \<Rightarrow> error_merge err e | Inr _ \<Rightarrow> e), w, s'))"

definition compression_has ::
  "'s store_driver \<Rightarrow> store_key list \<Rightarrow> u64 option list \<Rightarrow> 's \<Rightarrow> unit result \<times> u64 option list \<times> 's" where
  "compression_has inner keys results s = sd_has inner keys results s"

section \<open>Bytes of numbers\<close>

lemma length_put_u32_le [simp]: "length (put_u32_le v) = 4"
  by (simp add: put_u32_le_def)

lemma from_put_u32_le [simp]: "from_le_bytes (put_u32_le v) = v"
proof (rule bit_word_eqI)
  fix n assume "n < LENGTH(32)"
  then consider "n < 8" | "8 \<le> n" "n < 16" | "16 \<le> n" "n < 24" | "24 \<le> n" "n < 32" by fastforce
  then show "bit (from_le_bytes (put_u32_le v)) n = bit v n"
    by cases (auto simp: from_le_bytes_def put_u32_le_def upt_rec bit_simps)
qed

section \<open>The contract of the crates\<close>

text \<open>
  The serializer writes numbers in a fixed number of bytes, so that every header has the same size and
  a footer is as long as its index; what it wrote it reads. A block that is not too long can be
  compressed into the buffer and comes back.
\<close>

definition codec_laws :: "comp_ext \<Rightarrow> u32 \<Rightarrow> bool" where
  "codec_laws X bsz \<longleftrightarrow>
     (\<exists>n. n \<noteq> 0 \<and> n < 2 ^ 32 \<and> (\<forall>h. cx_header_size X h = Some n \<and>
        (\<exists>b. cx_header X h = Some b \<and> cx_parse_header X b = Some h \<and> length b = unat n))) \<and>
     (\<forall>f. length (ft_indexes f) < 2 ^ 64 \<longrightarrow> (\<exists>n. cx_footer_size X f = Some n) \<and>
        (\<exists>b. cx_footer X f = Some b \<and> cx_parse_footer X b = Some f \<and> length b \<le> 32 + 4 * length (ft_indexes f))) \<and>
     (\<forall>d. d \<noteq> [] \<and> length d \<le> unat bsz \<longrightarrow>
        (\<exists>z. cx_compress X d (cx_max_output_size X (unat bsz)) = Some z \<and> 5 + length z \<le> cx_max_output_size X (unat bsz) \<and>
           length z < 2 ^ 32 \<and> cx_decompress X z (cx_max_output_size X (unat bsz)) = Some d))"

definition compressed :: "comp_ext \<Rightarrow> u32 \<Rightarrow> bytes \<Rightarrow> bytes" where
  "compressed X bsz d = the (cx_compress X d (cx_max_output_size X (unat bsz)))"

definition block_ok :: "u32 \<Rightarrow> bytes \<Rightarrow> bool" where
  "block_ok bsz d \<longleftrightarrow> d \<noteq> [] \<and> length d \<le> unat bsz"

lemma compressed_block:
  assumes "codec_laws X bsz" "block_ok bsz d"
  shows "cx_compress X d (cx_max_output_size X (unat bsz)) = Some (compressed X bsz d)"
    "5 + length (compressed X bsz d) \<le> cx_max_output_size X (unat bsz)" "length (compressed X bsz d) < 2 ^ 32"
    "cx_decompress X (compressed X bsz d) (cx_max_output_size X (unat bsz)) = Some d"
proof -
  obtain z where z: "cx_compress X d (cx_max_output_size X (unat bsz)) = Some z" "5 + length z \<le> cx_max_output_size X (unat bsz)"
      "length z < 2 ^ 32" "cx_decompress X z (cx_max_output_size X (unat bsz)) = Some d"
    using assms unfolding codec_laws_def block_ok_def by blast
  then show "cx_compress X d (cx_max_output_size X (unat bsz)) = Some (compressed X bsz d)"
    "5 + length (compressed X bsz d) \<le> cx_max_output_size X (unat bsz)" "length (compressed X bsz d) < 2 ^ 32"
    "cx_decompress X (compressed X bsz d) (cx_max_output_size X (unat bsz)) = Some d"
    by (simp_all add: compressed_def)
qed

section \<open>What is written\<close>

function blocks :: "nat \<Rightarrow> bytes \<Rightarrow> bytes list" where
  "blocks n d = (if n = 0 \<or> d = [] then [] else take n d # blocks n (drop n d))"
  by pat_completeness auto

termination
  by (relation "measure (\<lambda>(n, d). length d)") auto

declare blocks.simps [simp del]

lemma blocks_Nil [simp]: "blocks n [] = []"
  by (simp add: blocks.simps)

lemma blocks_step: "0 < n \<Longrightarrow> d \<noteq> [] \<Longrightarrow> blocks n d = take n d # blocks n (drop n d)"
  by (subst blocks.simps) simp

lemma concat_blocks: "0 < n \<Longrightarrow> concat (blocks n d) = d"
  by (induction n d rule: blocks.induct) (subst blocks.simps, auto)

lemma blocks_ok: "x \<in> set (blocks (unat bsz) d) \<Longrightarrow> block_ok bsz x"
  by (induction "unat bsz" d rule: blocks.induct) (subst (asm) blocks.simps, auto simp: block_ok_def split: if_splits)

lemma length_blocks: "0 < n \<Longrightarrow> length (blocks n d) \<le> length d div n + 1"
proof (induction n d rule: blocks.induct)
  case (1 n d)
  show ?case
  proof (cases "d = []")
    case False
    have "length (drop n d) div n + 1 \<le> length d div n + 1" by (simp add: div_le_mono)
    moreover have "length (blocks n (drop n d)) \<le> length (drop n d) div n + 1" using 1 False by simp
    moreover have "length (drop n d) div n + 1 \<le> length d div n" if "n \<le> length d" using that 1(2) by (simp add: le_div_geq)
    moreover have "blocks n (drop n d) = []" if "length d < n" using that by simp
    ultimately show ?thesis using 1(2) False by (cases "n \<le> length d") (simp_all add: blocks_step)
  qed simp
qed

definition chunk_frame :: "comp_ext \<Rightarrow> u32 \<Rightarrow> bytes \<Rightarrow> bytes" where
  "chunk_frame X bsz d = CHUNK_FRAME_TYPE # put_u32_le (of_nat (length (compressed X bsz d))) @ compressed X bsz d"

definition block_index :: "comp_ext \<Rightarrow> u32 \<Rightarrow> bytes \<Rightarrow> slice_index" where
  "block_index X bsz d = SliceIndex (of_nat (length (compressed X bsz d)))"

definition footer_frame :: "bytes \<Rightarrow> bytes" where
  "footer_frame b = FOOTER_FRAME_TYPE # put_u32_le (of_nat (length b)) @ b"

lemma compress_blocks_step:
  assumes "consume (Some (unat (ls_block_size cfg))) rd = (Ok c, rd1)" "c \<noteq> []" "\<not> imax < rcv + of_nat (length c)"
    and "cx_compress X c (cx_max_output_size X (unat (ls_block_size cfg))) = Some z"
    and "5 + length z \<le> cx_max_output_size X (unat (ls_block_size cfg))"
    and "send (CHUNK_FRAME_TYPE # put_u32_le (of_nat (length z)) @ z) tx = (Ok (), tx1)"
  shows "compress_blocks X cfg imax (i # idx) rcv n rd tx =
    map_option (\<lambda>(r, tx''). (map_sum id (\<lambda>(is, p). (SliceIndex (of_nat (length z)) # is, p)) r, tx''))
      (compress_blocks X cfg imax idx (rcv + of_nat (length c)) (n + 1) rd1 tx1)"
proof -
  have "\<not> cx_max_output_size X (unat (ls_block_size cfg)) < 5 + length z" using assms(5) by simp
  then show ?thesis using assms(1,2,3,4,6) by (simp add: Let_def)
qed

lemma compress_blocks_exact:
  assumes laws: "codec_laws X (ls_block_size cfg)" "ls_block_size cfg \<noteq> 0"
  shows "reader_ok rd \<Longrightarrow> rh_eof_sent rd \<Longrightarrow> length (rh_data rd) \<le> unat (ls_block_size cfg) * length idx \<Longrightarrow>
    unat rcv + length (rh_data rd) \<le> unat imax \<Longrightarrow> writer_ready tx \<Longrightarrow> wh_takes tx = None \<Longrightarrow>
    \<exists>idx' tx'. compress_blocks X cfg imax idx rcv n rd tx =
        Some (Ok (map (block_index X (ls_block_size cfg)) (blocks (unat (ls_block_size cfg)) (rh_data rd)) @ idx',
          rcv + of_nat (length (rh_data rd)), n + of_nat (length (blocks (unat (ls_block_size cfg)) (rh_data rd)))), tx') \<and>
      wrote tx tx' (concat (map (chunk_frame X (ls_block_size cfg)) (blocks (unat (ls_block_size cfg)) (rh_data rd)))) \<and>
      writer_ready tx' \<and> wh_takes tx' = None"
proof (induction idx arbitrary: rd rcv n tx)
  case Nil
  then show ?case by (simp add: wrote_def)
next
  case (Cons i idx)
  let ?n = "unat (ls_block_size cfg)"
  have n: "0 < ?n" using laws(2) by (simp add: unat_gt_0)
  obtain rd1 where c: "consume (Some ?n) rd = (Ok (take ?n (rh_data rd)), rd1)" "rh_data rd1 = drop ?n (rh_data rd)"
      "reader_ok rd1" "rh_eof_sent rd1"
    using consume_ok [OF Cons.prems(1,2), of "Some ?n"] by auto
  show ?case
  proof (cases "rh_data rd = []")
    case True
    then show ?thesis using c(1) Cons.prems(5,6) by (intro exI [of _ "i # idx"] exI [of _ tx]) (simp add: wrote_def)
  next
    case False
    let ?c = "take ?n (rh_data rd)" and ?rcv = "rcv + of_nat (length (take ?n (rh_data rd)))"
    have ok: "block_ok (ls_block_size cfg) ?c" using False n by (simp add: block_ok_def)
    note z = compressed_block [OF laws(1) ok]
    have lim: "unat imax < 2 ^ 64" using unsigned_less [of imax] by simp
    have rcv: "unat ?rcv = unat rcv + length ?c"
      by (rule unat_plus_small) (use Cons.prems(4) lim in simp)
    then have le: "\<not> imax < ?rcv" using Cons.prems(4) by (simp add: word_less_nat_alt)
    obtain tx1 where tx1: "send (chunk_frame X (ls_block_size cfg) ?c) tx = (Ok (), tx1)" "writer_ready tx1" "wh_takes tx1 = None"
        "wrote tx tx1 (chunk_frame X (ls_block_size cfg) ?c)"
      using sent_open [OF Cons.prems(5,6), of "chunk_frame X (ls_block_size cfg) ?c"] by (auto simp: chunk_frame_def)
    have len: "length (rh_data rd1) \<le> ?n * length idx" "unat ?rcv + length (rh_data rd1) \<le> unat imax"
      using Cons.prems(3,4) c(2) rcv by auto
    obtain idx' tx' where IH: "compress_blocks X cfg imax idx ?rcv (n + 1) rd1 tx1 =
          Some (Ok (map (block_index X (ls_block_size cfg)) (blocks ?n (rh_data rd1)) @ idx',
            ?rcv + of_nat (length (rh_data rd1)), n + 1 + of_nat (length (blocks ?n (rh_data rd1)))), tx')"
        "wrote tx1 tx' (concat (map (chunk_frame X (ls_block_size cfg)) (blocks ?n (rh_data rd1))))" "writer_ready tx'" "wh_takes tx' = None"
      using Cons.IH [OF c(3,4) len tx1(2,3)] by metis
    have "?rcv + of_nat (length (rh_data rd1)) = rcv + of_nat (length (rh_data rd))"
      using c(2) by (metis add.assoc append_take_drop_id length_append of_nat_add)
    moreover have "compress_blocks X cfg imax (i # idx) rcv n rd tx =
        map_option (\<lambda>(r, tx''). (map_sum id (\<lambda>(is, p). (block_index X (ls_block_size cfg) ?c # is, p)) r, tx''))
          (compress_blocks X cfg imax idx ?rcv (n + 1) rd1 tx1)"
      unfolding block_index_def
      by (rule compress_blocks_step [OF c(1) _ le z(1,2) tx1(1) [unfolded chunk_frame_def]]) (use False n in simp)
    ultimately show ?thesis using IH wrote_trans [OF tx1(4) IH(2)] blocks_step [OF n False] c(2)
      by (intro exI [of _ idx'] exI [of _ tx']) (simp add: add.assoc)
  qed
qed

lemma write_footer_exact:
  assumes "length bs < 2 ^ 32" "writer_ready tx" "wh_takes tx = None"
    and "footer' = footer\<lparr>ft_indexes := take (length bs - 1) bs, ft_index_count := of_nat (length bs - 1), ft_uncompressed_data_size := rcv\<rparr>"
    and "cx_footer X footer' = Some b"
  shows "\<exists>tx'. write_footer X footer (bs @ idx, rcv, of_nat (length bs)) tx = (Ok (), tx') \<and> wrote tx tx' (footer_frame b) \<and> wh_eof_sent tx'"
proof -
  have n: "unat (of_nat (length bs) :: u32) = length bs" using assms(1) by (simp add: unsigned_of_nat take_bit_nat_eq_self)
  have cnt: "unat (if of_nat (length bs) = (0 :: u32) then 0 else of_nat (length bs) - 1 :: u32) = length bs - 1"
    using n by (auto simp: unat_minus_one)
  have idx: "take (length bs - 1) (bs @ idx) @ replicate (length bs - 1 - length (bs @ idx)) (SliceIndex 0) = take (length bs - 1) bs"
    by simp
  obtain tx1 where tx1: "send (footer_frame b) tx = (Ok (), tx1)" "writer_ready tx1" "wrote tx tx1 (footer_frame b)"
    using sent_open [OF assms(2,3), of "footer_frame b"] by (auto simp: footer_frame_def)
  obtain tx2 where tx2: "send_eof tx1 = (Ok (), tx2)" "wh_eof_sent tx2" "wh_sent tx2 = wh_sent tx1"
    using send_eof_ready [OF tx1(2)] by blast
  have "write_footer X footer (bs @ idx, rcv, of_nat (length bs)) tx = (Ok (), tx2)"
    using assms(4,5) tx1(1) tx2(1) unfolding write_footer_def prod.case Let_def cnt idx footer_frame_def
    by (simp add: min_absorb2)
  then show ?thesis using tx1(3) tx2(2,3) by (simp add: wrote_def)
qed

section \<open>What is read\<close>

lemma send_block_skips:
  assumes "unat usz + length d < 2 ^ 64" "unat usz + length d < unat off"
  shows "send_block off usz r d w = Some (Ok r, w)"
proof -
  have "unat (usz + of_nat (length d)) = unat usz + length d" by (rule unat_plus_small [OF assms(1)])
  then show ?thesis using assms(2) by (simp add: send_block_def word_le_nat_alt)
qed

lemma send_block_window:
  fixes off usz :: u64
  defines "a \<equiv> unat off" and "n \<equiv> unat usz"
  assumes "n + length d < 2 ^ 64" "a \<le> n + length d" "max a n < b" "b < 2 ^ 64"
  shows "send_block off usz (of_nat (b - max a n)) d w =
    (if part a b n d = [] then Some (Ok (of_nat (b - max a (n + length d))), w)
     else case send (part a b n d) w of
       (Inl e, w) \<Rightarrow> Some (err_tip ''Failed sending chunk in compression store'' (Err e), w)
     | (Inr _, w) \<Rightarrow> Some (Ok (of_nat (b - max a (n + length d))), w))"
proof -
  let ?start = "a - n" and ?stop = "min (b - n) (length d)" and ?rem = "of_nat (b - max a n) :: u64"
  have sum': "unat (usz + of_nat (length d)) = n + length d" unfolding n_def by (rule unat_plus_small) (use assms(3) n_def in simp)
  have cond: "off \<le> usz + of_nat (length d) \<and> 0 < ?rem"
  proof
    show "off \<le> usz + of_nat (length d)" using assms(4) sum' by (simp add: word_le_nat_alt a_def)
    have "unat ?rem = b - max a n" using assms(6) by (simp add: unsigned_of_nat take_bit_nat_eq_self)
    then show "0 < ?rem" using assms(5) by (simp add: word_less_nat_alt)
  qed
  have start: "unat (if off \<le> usz then 0 else off - usz) = ?start"
    by (auto simp: a_def n_def word_le_nat_alt unat_sub not_le)
  have rem': "unat ?rem = b - max a n" using assms(6) by (simp add: unsigned_of_nat take_bit_nat_eq_self)
  have "?start + (b - max a n) = b - n" using assms(5) by (auto simp: max_def)
  then have stop: "min ((?start + unat ?rem) mod 2 ^ 64) (length d) = ?stop" using assms(6) rem' by simp
  have le: "?start \<le> ?stop" using assms(4,5) by auto
  then have "of_nat ?stop - of_nat ?start = (of_nat (?stop - ?start) :: u64)" by (simp add: of_nat_diff)
  moreover have "?stop - ?start \<le> b - max a n" using assms(5) by (auto simp: max_def)
  moreover have "b - max a n - (?stop - ?start) = b - max a (n + length d)" using assms(4,5) by (auto simp: max_def min_def)
  ultimately have rest: "?rem - (of_nat ?stop - of_nat ?start) = of_nat (b - max a (n + length d))"
    by (metis of_nat_diff)
  have part: "take (?stop - ?start) (drop ?start d) = part a b n d" using assms(5) by (auto simp: part_def max_def min_def)
  then have "part a b n d = [] \<longleftrightarrow> ?stop = ?start" using le assms(4) by auto
  then show ?thesis unfolding send_block_def Let_def start stop rest using cond le part by auto
qed

text \<open>With no length given, the sum of a start beyond the first byte and the rest is too large by one.\<close>

lemma send_block_wraps:
  assumes "unat usz + length d < 2 ^ 64" "unat usz < unat off" "\<not> unat usz + length d < unat off"
  shows "send_block off usz (- 1) d w = None"
proof -
  let ?start = "unat off - unat usz"
  have "unat (usz + of_nat (length d)) = unat usz + length d" by (rule unat_plus_small [OF assms(1)])
  then have cond: "off \<le> usz + of_nat (length d) \<and> 0 < (- 1 :: u64)" using assms(3) by (simp add: word_le_nat_alt word_less_nat_alt unat_max)
  have start: "unat (if off \<le> usz then 0 else off - usz) = ?start"
    using assms(2) by (simp add: word_le_nat_alt unat_sub)
  have "unat off < 2 ^ 64" using unsigned_less [of off] by simp
  then have "(?start + unat (- 1 :: u64)) mod 2 ^ 64 = ?start - 1"
    using assms(2) by (simp add: unat_max mod_if less_imp_diff_less)
  then show ?thesis using cond assms(2) unfolding send_block_def Let_def start by auto
qed

lemma send_block_exact:
  assumes "unat usz + length d < 2 ^ 64" "unat off \<le> b" "b < 2 ^ 64" "r = of_nat (b - max (unat off) (unat usz))"
    and "writer_ready w" "wh_takes w = None"
  shows "\<exists>w'. send_block off usz r d w = Some (Ok (of_nat (b - max (unat off) (unat usz + length d))), w') \<and>
    wrote w w' (part (unat off) b (unat usz) d) \<and> writer_ready w' \<and> wh_takes w' = None"
proof -
  let ?p = "part (unat off) b (unat usz) d"
  consider (before) "unat usz + length d < unat off" | (after) "unat off \<le> unat usz + length d" "b \<le> max (unat off) (unat usz)"
    | (window) "unat off \<le> unat usz + length d" "max (unat off) (unat usz) < b" by fastforce
  then show ?thesis
  proof cases
    case before
    have "?p = []" "max (unat off) (unat usz + length d) = max (unat off) (unat usz)" using before by (simp_all add: part_def)
    then show ?thesis using send_block_skips [OF assms(1) before, of r w] assms(4-6) by (simp add: wrote_def)
  next
    case after
    have "?p = []" "r = 0" "b - max (unat off) (unat usz + length d) = 0" using after assms(4) by (auto simp: part_def)
    then show ?thesis using assms(5,6) by (simp add: send_block_def wrote_def)
  next
    case window
    note run = send_block_window [OF assms(1) window assms(3), of w]
    show ?thesis
    proof (cases "?p = []")
      case True
      then show ?thesis using run assms(4-6) by (simp add: wrote_def)
    next
      case False
      then show ?thesis using run sent_open [OF assms(5,6) False] assms(4) by auto
    qed
  qed
qed

lemma read_frame_info_exact:
  assumes "reader_ok rx" "rh_eof_sent rx" "rh_data rx = t # put_u32_le v @ rest"
  shows "\<exists>rx'. read_frame_info m1 m2 rx = (Ok (t, v), rx') \<and> rh_data rx' = rest \<and> reader_ok rx' \<and> rh_eof_sent rx'"
proof -
  obtain rx' where c: "consume (Some 5) rx = (Ok (take 5 (rh_data rx)), rx')" "rh_data rx' = drop 5 (rh_data rx)"
      "reader_ok rx'" "rh_eof_sent rx'"
    using consume_ok [OF assms(1,2), of "Some 5"] by auto
  have "take 5 (rh_data rx) = t # put_u32_le v" "drop 5 (rh_data rx) = rest"
    using assms(3) by (simp_all add: take_Cons' drop_Cons')
  then show ?thesis using c by (simp add: read_frame_info_def)
qed

text \<open>A reader that is at the blocks \<open>cs\<close>, with a footer \<open>fb\<close> behind them; the frame before it was read.\<close>

fun at_frame :: "comp_ext \<Rightarrow> u32 \<Rightarrow> bytes list \<Rightarrow> bytes \<Rightarrow> u8 \<times> u32 \<Rightarrow> bytes \<Rightarrow> bool" where
  "at_frame X bsz [] fb fi d \<longleftrightarrow> fi = (FOOTER_FRAME_TYPE, of_nat (length fb)) \<and> d = fb"
| "at_frame X bsz (c # cs) fb fi d \<longleftrightarrow> fi = (CHUNK_FRAME_TYPE, of_nat (length (compressed X bsz c))) \<and>
     d = compressed X bsz c @ concat (map (chunk_frame X bsz) cs) @ footer_frame fb"

lemma read_at_frame:
  assumes "reader_ok rx" "rh_eof_sent rx" "rh_data rx = concat (map (chunk_frame X bsz) cs) @ footer_frame fb"
  shows "\<exists>fi rx'. read_frame_info m1 m2 rx = (Ok fi, rx') \<and> at_frame X bsz cs fb fi (rh_data rx') \<and> reader_ok rx' \<and> rh_eof_sent rx'"
proof (cases cs)
  case Nil
  then have "rh_data rx = FOOTER_FRAME_TYPE # put_u32_le (of_nat (length fb)) @ fb" using assms(3) by (simp add: footer_frame_def)
  from read_frame_info_exact [OF assms(1,2) this, of m1 m2] show ?thesis using Nil by auto
next
  case (Cons c cs')
  then have "rh_data rx = CHUNK_FRAME_TYPE # put_u32_le (of_nat (length (compressed X bsz c))) @
      compressed X bsz c @ concat (map (chunk_frame X bsz) cs') @ footer_frame fb"
    using assms(3) by (simp add: chunk_frame_def)
  from read_frame_info_exact [OF assms(1,2) this, of m1 m2] show ?thesis using Cons by auto
qed

lemma decode_blocks_step:
  assumes "codec_laws X bsz" "block_ok bsz c" "at_frame X bsz (c # cs) fb fi (rh_data rx)" "reader_ok rx" "rh_eof_sent rx"
  shows "\<exists>fi' rx'. at_frame X bsz cs fb fi' (rh_data rx') \<and> reader_ok rx' \<and> rh_eof_sent rx' \<and>
    decode_blocks X bsz off fi usz r n rx w =
      (case send_block off usz r c w of
         None \<Rightarrow> None
       | Some (Inl e, w') \<Rightarrow> Some (Err e, w')
       | Some (Inr r', w') \<Rightarrow> decode_blocks X bsz off fi' (usz + of_nat (length c)) r' (n + 1) rx' w')"
proof -
  note z = compressed_block [OF assms(1,2)]
  have fi: "fst fi = CHUNK_FRAME_TYPE" "unat (snd fi) = length (compressed X bsz c)"
    using assms(3) z(3) by (simp_all add: unsigned_of_nat take_bit_nat_eq_self)
  have d: "rh_data rx = compressed X bsz c @ concat (map (chunk_frame X bsz) cs) @ footer_frame fb" using assms(3) by simp
  obtain rx1 where c: "consume (Some (unat (snd fi))) rx = (Ok (compressed X bsz c), rx1)"
      "rh_data rx1 = concat (map (chunk_frame X bsz) cs) @ footer_frame fb" "reader_ok rx1" "rh_eof_sent rx1"
    using consume_ok [OF assms(4,5), of "Some (unat (snd fi))"] fi(2) d by auto
  obtain fi' rx2 where f: "read_frame_info ''Failed to read frame info in compression store''
        ''Received EOF too early while reading frame info in compression store'' rx1 = (Ok fi', rx2)"
      "at_frame X bsz cs fb fi' (rh_data rx2)" "reader_ok rx2" "rh_eof_sent rx2"
    using read_at_frame [OF c(3,4,2)] by metis
  have ne: "CHUNK_FRAME_TYPE \<noteq> FOOTER_FRAME_TYPE" by (simp add: CHUNK_FRAME_TYPE_def FOOTER_FRAME_TYPE_def)
  show ?thesis using f fi c(1) z(4) ne by (intro exI [of _ fi'] exI [of _ rx2]) (subst decode_blocks.simps, simp split: option.split sum.split)
qed

lemma decode_blocks_exact:
  assumes "codec_laws X bsz" "unat off \<le> b" "b < 2 ^ 64"
  shows "(\<And>c. c \<in> set cs \<Longrightarrow> block_ok bsz c) \<Longrightarrow> at_frame X bsz cs fb fi (rh_data rx) \<Longrightarrow> reader_ok rx \<Longrightarrow> rh_eof_sent rx \<Longrightarrow>
    unat usz + length (concat cs) < 2 ^ 64 \<Longrightarrow> r = of_nat (b - max (unat off) (unat usz)) \<Longrightarrow> writer_ready w \<Longrightarrow> wh_takes w = None \<Longrightarrow>
    \<exists>w' rx'. decode_blocks X bsz off fi usz r n rx w =
        Some (Ok (of_nat (length fb), usz + of_nat (length (concat cs)), n + of_nat (length cs), rx'), w') \<and>
      rh_data rx' = fb \<and> reader_ok rx' \<and> rh_eof_sent rx' \<and> wrote w w' (part (unat off) b (unat usz) (concat cs)) \<and> writer_ready w'"
proof (induction cs arbitrary: fi rx usz r n w)
  case Nil
  then show ?case by (subst decode_blocks.simps) (simp add: wrote_def)
next
  case (Cons c cs)
  let ?usz = "usz + of_nat (length c)" and ?r = "of_nat (b - max (unat off) (unat usz + length c)) :: u64"
  have c: "block_ok bsz c" using Cons.prems(1) by simp
  have len: "unat usz + length c < 2 ^ 64" "unat usz + length c + length (concat cs) < 2 ^ 64" using Cons.prems(5) by simp_all
  have usz: "unat ?usz = unat usz + length c" by (rule unat_plus_small [OF len(1)])
  obtain w1 where w1: "send_block off usz r c w = Some (Ok ?r, w1)" "wrote w w1 (part (unat off) b (unat usz) c)" "writer_ready w1" "wh_takes w1 = None"
    using send_block_exact [OF len(1) assms(2,3) Cons.prems(6,7,8)] by blast
  obtain fi' rx1 where step: "at_frame X bsz cs fb fi' (rh_data rx1)" "reader_ok rx1" "rh_eof_sent rx1"
      "decode_blocks X bsz off fi usz r n rx w = decode_blocks X bsz off fi' ?usz ?r (n + 1) rx1 w1"
    using decode_blocks_step [OF assms(1) c Cons.prems(2,3,4), of off usz r n w] w1(1) by auto
  have cs: "block_ok bsz x" if "x \<in> set cs" for x using Cons.prems(1) that by simp
  have "unat ?usz + length (concat cs) < 2 ^ 64" using len(2) usz by simp
  then obtain w' rx' where IH: "decode_blocks X bsz off fi' ?usz ?r (n + 1) rx1 w1 =
        Some (Ok (of_nat (length fb), ?usz + of_nat (length (concat cs)), n + 1 + of_nat (length cs), rx'), w')"
      "rh_data rx' = fb" "reader_ok rx'" "rh_eof_sent rx'" "wrote w1 w' (part (unat off) b (unat ?usz) (concat cs))" "writer_ready w'"
    using Cons.IH [OF cs step(1,2,3) _ _ w1(3,4), of ?usz ?r "n + 1"] usz by (metis (no_types))
  have "wrote w w' (part (unat off) b (unat usz) (concat (c # cs)))"
    using wrote_trans [OF w1(2) IH(5)] usz by (simp add: part_append)
  then show ?case using IH step(4) by (intro exI [of _ w'] exI [of _ rx']) (simp add: ac_simps)
qed

lemma decode_blocks_wraps:
  assumes "codec_laws X bsz"
  shows "(\<And>c. c \<in> set cs \<Longrightarrow> block_ok bsz c) \<Longrightarrow> at_frame X bsz cs fb fi (rh_data rx) \<Longrightarrow> reader_ok rx \<Longrightarrow> rh_eof_sent rx \<Longrightarrow>
    unat usz + length (concat cs) < 2 ^ 64 \<Longrightarrow> unat usz < unat off \<Longrightarrow> unat off \<le> unat usz + length (concat cs) \<Longrightarrow>
    decode_blocks X bsz off fi usz (- 1) n rx w = None"
proof (induction cs arbitrary: fi rx usz n)
  case Nil
  then show ?case by simp
next
  case (Cons c cs)
  let ?usz = "usz + of_nat (length c)"
  have c: "block_ok bsz c" using Cons.prems(1) by simp
  have len: "unat usz + length c < 2 ^ 64" using Cons.prems(5) by simp
  have usz: "unat ?usz = unat usz + length c" by (rule unat_plus_small [OF len])
  obtain fi' rx1 where step: "at_frame X bsz cs fb fi' (rh_data rx1)" "reader_ok rx1" "rh_eof_sent rx1"
      "decode_blocks X bsz off fi usz (- 1) n rx w =
        (case send_block off usz (- 1) c w of None \<Rightarrow> None | Some (Inl e, w') \<Rightarrow> Some (Err e, w')
         | Some (Inr r', w') \<Rightarrow> decode_blocks X bsz off fi' ?usz r' (n + 1) rx1 w')"
    using decode_blocks_step [OF assms(1) c Cons.prems(2,3,4), of off usz "- 1" n w] by auto
  show ?case
  proof (cases "unat usz + length c < unat off")
    case True
    have cs: "block_ok bsz x" if "x \<in> set cs" for x using Cons.prems(1) that by simp
    have "decode_blocks X bsz off fi' ?usz (- 1) (n + 1) rx1 w = None"
      by (rule Cons.IH [OF cs step(1,2,3)]) (use Cons.prems(5,7) usz True in simp_all)
    then show ?thesis using step(4) send_block_skips [OF len True] by simp
  next
    case False
    then show ?thesis using step(4) send_block_wraps [OF len Cons.prems(6)] by simp
  qed
qed

section \<open>The whole stream\<close>

definition header_of :: "lz4_spec \<Rightarrow> upload_size_info \<Rightarrow> comp_header" where
  "header_of cfg up = \<lparr>hd_version = CURRENT_STREAM_FORMAT_VERSION, hd_config = Lz4Config (ls_block_size cfg), hd_upload_size = up\<rparr>"

definition footer_of :: "comp_ext \<Rightarrow> lz4_spec \<Rightarrow> bytes \<Rightarrow> comp_footer" where
  "footer_of X cfg d =
     (let bs = map (block_index X (ls_block_size cfg)) (blocks (unat (ls_block_size cfg)) d)
      in \<lparr>ft_indexes = take (length bs - 1) bs, ft_index_count = of_nat (length bs - 1), ft_uncompressed_data_size = of_nat (length d),
          ft_config = Lz4Config (ls_block_size cfg), ft_version = CURRENT_STREAM_FORMAT_VERSION\<rparr>)"

definition compressed_stream :: "comp_ext \<Rightarrow> lz4_spec \<Rightarrow> upload_size_info \<Rightarrow> bytes \<Rightarrow> bytes" where
  "compressed_stream X cfg up d =
     the (cx_header X (header_of cfg up)) @
     concat (map (chunk_frame X (ls_block_size cfg)) (blocks (unat (ls_block_size cfg)) d)) @
     footer_frame (the (cx_footer X (footer_of X cfg d)))"

lemma header_laws:
  assumes "codec_laws X bsz"
  shows "\<exists>n h. n \<noteq> 0 \<and> cx_header_size X hdr' = Some n \<and> cx_header X hdr = Some h \<and> cx_parse_header X h = Some hdr \<and>
    length h = unat n \<and> length h < 2 ^ 32"
proof -
  obtain n where n: "n \<noteq> 0" "n < 2 ^ 32" "\<And>h. cx_header_size X h = Some n"
      "\<And>h. \<exists>b. cx_header X h = Some b \<and> cx_parse_header X b = Some h \<and> length b = unat n"
    using assms unfolding codec_laws_def by blast
  obtain h where "cx_header X hdr = Some h" "cx_parse_header X h = Some hdr" "length h = unat n" using n(4) by blast
  then show ?thesis using n(1,2,3) by (simp add: word_less_nat_alt)
qed

lemma footer_laws:
  assumes "codec_laws X bsz" "length (ft_indexes f) < 2 ^ 64"
  shows "\<exists>n b. cx_footer_size X f = Some n \<and> cx_footer X f = Some b \<and> cx_parse_footer X b = Some f \<and>
    length b \<le> 32 + 4 * length (ft_indexes f)"
  using assms unfolding codec_laws_def by blast

lemma footer_of_laws:
  assumes "codec_laws X bsz" "length (blocks (unat (ls_block_size cfg)) d) < 2 ^ 32"
  shows "\<exists>b. cx_footer X (footer_of X cfg d) = Some b \<and> cx_parse_footer X b = Some (footer_of X cfg d) \<and>
    length b \<le> 32 + 4 * length (blocks (unat (ls_block_size cfg)) d)"
proof -
  have n: "length (ft_indexes (footer_of X cfg d)) \<le> length (blocks (unat (ls_block_size cfg)) d)" by (simp add: footer_of_def Let_def)
  then have "length (ft_indexes (footer_of X cfg d)) < 2 ^ 64" using assms(2) by simp
  from footer_laws [OF assms(1) this] n show ?thesis by fastforce
qed

lemma read_header_exact:
  assumes "codec_laws X (ls_block_size cfg)" "ls_block_size cfg \<le> ls_max_decode_block_size cfg" "reader_ok rx" "rh_eof_sent rx"
    and "rh_data rx = the (cx_header X (header_of cfg up)) @ rest"
  shows "\<exists>rx'. read_header X cfg rx = Some (Ok (header_of cfg up), rx') \<and> rh_data rx' = rest \<and> reader_ok rx' \<and> rh_eof_sent rx'"
proof -
  let ?empty = "\<lparr>hd_version = CURRENT_STREAM_FORMAT_VERSION, hd_config = Lz4Config 0, hd_upload_size = ExactSize 0\<rparr>"
  obtain n h where h: "cx_header_size X ?empty = Some n" "cx_header X (header_of cfg up) = Some h"
      "cx_parse_header X h = Some (header_of cfg up)" "length h = unat n"
    using header_laws [OF assms(1), of ?empty "header_of cfg up"] by blast
  obtain rx' where c: "consume (Some (unat n)) rx = (Ok h, rx')" "rh_data rx' = rest" "reader_ok rx'" "rh_eof_sent rx'"
    using consume_ok [OF assms(3,4), of "Some (unat n)"] assms(5) h(2,4) by auto
  have "read_header X cfg rx = Some (Ok (header_of cfg up), rx')"
    unfolding read_header_def using h c(1) assms(2) by (simp add: header_of_def not_less [symmetric])
  then show ?thesis using c by blast
qed

lemma saturating_pred:
  assumes "n < 2 ^ 32"
  shows "(if of_nat n = (0 :: u32) then 0 else of_nat n - 1) = (of_nat (n - 1) :: u32)"
proof (cases n)
  case (Suc m)
  have "unat (of_nat n :: u32) = n" using assms by (simp add: unsigned_of_nat take_bit_nat_eq_self)
  then have "of_nat n \<noteq> (0 :: u32)" using Suc by (metis nat.distinct(1) unsigned_0)
  moreover have "of_nat n - 1 = (of_nat m :: u32)" unfolding Suc of_nat_Suc by (rule add_diff_cancel_left')
  ultimately show ?thesis using Suc by (simp only: if_False diff_Suc_1)
qed simp

lemma check_footer_exact:
  assumes "codec_laws X (ls_block_size cfg)" "length (blocks (unat (ls_block_size cfg)) d) < 2 ^ 32"
    and "reader_ok rx" "rh_eof_sent rx" "rh_data rx = fb" "fb = the (cx_footer X (footer_of X cfg d))" "length fb < 2 ^ 32"
  shows "check_footer X (header_of cfg up)
    (of_nat (length fb), of_nat (length d), of_nat (length (blocks (unat (ls_block_size cfg)) d)), rx) = Ok ()"
proof -
  let ?n = "length (blocks (unat (ls_block_size cfg)) d)"
  obtain b where b: "cx_footer X (footer_of X cfg d) = Some b" "cx_parse_footer X b = Some (footer_of X cfg d)"
    using footer_of_laws [OF assms(1,2)] by blast
  have len: "unat (of_nat (length fb) :: u32) = length fb" using assms(7) by (simp add: unsigned_of_nat take_bit_nat_eq_self)
  have c: "fst (consume (Some (length fb)) rx) = Ok fb" using consume_ok [OF assms(3,4), of "Some (length fb)"] assms(5) by auto
  have cnt: "(if of_nat ?n = (0 :: u32) then 0 else of_nat ?n - 1) = (of_nat (?n - 1) :: u32)"
    by (rule saturating_pred [OF assms(2)])
  have "unat (of_nat (?n - 1) :: u32) = ?n - 1" using assms(2) by (simp add: unsigned_of_nat take_bit_nat_eq_self)
  then show ?thesis
    unfolding check_footer_def prod.case Let_def cnt len c using b assms(6)
    by (simp add: footer_of_def header_of_def Let_def)
qed

lemma upload_room:
  assumes "bsz \<noteq> 0" "n \<le> unat sz" "sz < - 1"
  shows "n \<le> unat bsz * unat (sz div ucast (bsz :: u32) + 1 :: u64)"
proof -
  let ?q = "sz div ucast bsz :: u64"
  have "unat bsz < 2 ^ 32" using unsigned_less [of bsz] by simp
  then have "unat (ucast bsz :: u64) = unat bsz" by (simp add: unsigned_ucast_eq take_bit_nat_eq_self)
  then have q: "unat ?q = unat sz div unat bsz" by (simp only: unat_div)
  have "unat sz < 2 ^ 64 - 1" using assms(3) by (simp add: word_less_nat_alt unat_max)
  then have "unat ?q + 1 < 2 ^ 64" using div_le_dividend [of "unat sz" "unat bsz"] unfolding q by linarith
  from unat_plus_small [OF this] have "unat (?q + 1) = unat sz div unat bsz + 1" unfolding q of_nat_1 .
  moreover have "unat sz < unat bsz + unat bsz * (unat sz div unat bsz)"
    by (rule dividend_less_times_div) (use assms(1) in \<open>simp add: unat_gt_0\<close>)
  ultimately show ?thesis using assms(2) by (simp only: distrib_left mult_1_right)
qed

lemma compression_write_exact:
  assumes laws: "codec_laws X (ls_block_size cfg)" "ls_block_size cfg \<noteq> 0"
    and rd: "reader_ok rd" "rh_eof_sent rd" and up: "up = ExactSize sz \<or> up = MaxSize sz" "length (rh_data rd) \<le> unat sz" "sz < - 1"
    and n: "length (blocks (unat (ls_block_size cfg)) (rh_data rd)) < 2 ^ 32"
  shows "\<exists>st tx. upload_state_new X cfg up = Some st \<and> compression_write X cfg st rd (new_writer None) = Some (Ok (), tx) \<and>
    wrote (new_writer None) tx (compressed_stream X cfg up (rh_data rd)) \<and> wh_eof_sent tx"
proof -
  let ?bsz = "ls_block_size cfg" and ?d = "rh_data rd" and ?f = "footer_of X cfg (rh_data rd)"
  let ?bs = "map (block_index X ?bsz) (blocks (unat ?bsz) ?d)"
  let ?cnt = "sz div ucast ?bsz + 1 :: u64"
  define f0 where "f0 = \<lparr>ft_indexes = replicate (unat ?cnt) (SliceIndex 0), ft_index_count = ucast ?cnt, ft_uncompressed_data_size = 0,
    ft_config = Lz4Config ?bsz, ft_version = CURRENT_STREAM_FORMAT_VERSION\<rparr>"
  obtain m h where h: "cx_header_size X (header_of cfg up) = Some m" "cx_header X (header_of cfg up) = Some h" "h \<noteq> []"
    using header_laws [OF laws(1), of "header_of cfg up" "header_of cfg up"] that by (fastforce simp: unat_eq_0)
  have "unat ?cnt < 2 ^ 64" using unsigned_less [of ?cnt] by simp
  then obtain fsz where fsz: "cx_footer_size X f0 = Some fsz" using footer_laws [OF laws(1), of f0] by (auto simp: f0_def)
  obtain b where b: "cx_footer X ?f = Some b" using footer_of_laws [OF laws(1) n] by blast
  obtain st where st: "upload_state_new X cfg up = Some st" "us_header st = header_of cfg up" "us_footer st = f0" "us_input_max_size st = sz"
    using h(1) fsz up(1) unfolding upload_state_new_def Let_def header_of_def f0_def by auto
  obtain tx1 where tx1: "send h (new_writer None) = (Ok (), tx1)" "writer_ready tx1" "wh_takes tx1 = None" "wrote (new_writer None) tx1 h"
    using sent_open [OF new_writer_ready(1) new_writer_ready(2) h(3)] by blast
  have room: "length ?d \<le> unat ?bsz * length (ft_indexes f0)" using upload_room [OF laws(2) up(2,3)] by (simp add: f0_def)
  obtain idx tx2 where tx2: "compress_blocks X cfg sz (ft_indexes f0) 0 0 rd tx1 = Some (Ok (?bs @ idx, of_nat (length ?d), of_nat (length ?bs)), tx2)"
      "wrote tx1 tx2 (concat (map (chunk_frame X ?bsz) (blocks (unat ?bsz) ?d)))" "writer_ready tx2" "wh_takes tx2 = None"
    using compress_blocks_exact [OF laws rd room _ tx1(2,3), of 0 sz 0] up(2) by auto
  have f: "?f = f0\<lparr>ft_indexes := take (length ?bs - 1) ?bs, ft_index_count := of_nat (length ?bs - 1), ft_uncompressed_data_size := of_nat (length ?d)\<rparr>"
    by (simp add: footer_of_def f0_def Let_def)
  obtain tx where tx: "write_footer X f0 (?bs @ idx, of_nat (length ?d), of_nat (length ?bs)) tx2 = (Ok (), tx)"
      "wrote tx2 tx (footer_frame b)" "wh_eof_sent tx"
    using write_footer_exact [OF _ tx2(3,4) f b, of idx] n by auto
  have "compression_write X cfg st rd (new_writer None) = Some (Ok (), tx)"
    using h(2) st tx1(1) tx2(1) tx(1) by (simp add: compression_write_def)
  moreover have "wrote (new_writer None) tx (compressed_stream X cfg up ?d)"
    using wrote_trans [OF tx1(4) wrote_trans [OF tx2(2) tx(2)]] h(2) b by (simp add: compressed_stream_def)
  ultimately show ?thesis using st(1) tx(3) by blast
qed

lemma length_frames:
  assumes "codec_laws X bsz"
  shows "(\<And>c. c \<in> set cs \<Longrightarrow> block_ok bsz c) \<Longrightarrow> length (concat (map (chunk_frame X bsz) cs)) \<le> length cs * (2 ^ 32 + 5)"
proof (induction cs)
  case (Cons c cs)
  have "length (compressed X bsz c) < 2 ^ 32" using compressed_block(3) [OF assms] Cons.prems [of c] by simp
  then show ?case using Cons by (simp add: chunk_frame_def)
qed simp

text \<open>A blob of fewer than \<open>2\<^sup>2\<^sup>9\<close> blocks: the footer and the whole stream fit.\<close>

definition few_blocks :: "lz4_spec \<Rightarrow> bytes \<Rightarrow> bool" where
  "few_blocks cfg d \<longleftrightarrow> length d div unat (ls_block_size cfg) < 2 ^ 29 - 1"

lemma stream_fits:
  assumes "codec_laws X (ls_block_size cfg)" "ls_block_size cfg \<noteq> 0" "few_blocks cfg d"
  shows "length (blocks (unat (ls_block_size cfg)) d) < 2 ^ 29" "length (the (cx_footer X (footer_of X cfg d))) < 2 ^ 32"
    "blob_fits (compressed_stream X cfg up d)"
proof -
  let ?bs = "blocks (unat (ls_block_size cfg)) d" and ?fb = "the (cx_footer X (footer_of X cfg d))"
  have "0 < unat (ls_block_size cfg)" using assms(2) by (simp add: unat_gt_0)
  then show n: "length ?bs < 2 ^ 29" using length_blocks [of _ d] assms(3) unfolding few_blocks_def by (metis add.commute le_less_trans less_diff_conv)
  then have "length ?bs < 2 ^ 32" by simp
  from footer_of_laws [OF assms(1) this] have "length ?fb \<le> 32 + 4 * length ?bs" by (metis option.sel)
  then show fb: "length ?fb < 2 ^ 32" using n by simp
  have "length (the (cx_header X (header_of cfg up))) < 2 ^ 32" using header_laws [OF assms(1)] by (metis option.sel)
  moreover have "length (concat (map (chunk_frame X (ls_block_size cfg)) ?bs)) \<le> length ?bs * (2 ^ 32 + 5)"
    by (rule length_frames [OF assms(1)]) (rule blocks_ok)
  moreover have "length ?bs * (2 ^ 32 + 5) \<le> 2 ^ 29 * (2 ^ 32 + 5)" using n by (intro mult_right_mono) simp_all
  ultimately show "blob_fits (compressed_stream X cfg up d)" using fb
    by (simp add: blob_fits_def compressed_stream_def footer_frame_def)
qed

lemma compression_update_exact:
  assumes "lossless_store ops ok view acc" "ok s" and laws: "codec_laws X (ls_block_size cfg)" "ls_block_size cfg \<noteq> 0"
    and rd: "reader_ok rd" "rh_eof_sent rd" and up: "up = ExactSize sz \<or> up = MaxSize sz" "length (rh_data rd) \<le> unat sz" "sz < - 1"
    and few: "few_blocks cfg (rh_data rd)" and acc: "\<And>d n. acc e k d (MaxSize n)"
  shows "\<exists>s'. compression_update X cfg None (ops e) k rd up s = Some (Ok (), s') \<and> ok s' \<and>
    view s' = put_blob k (compressed_stream X cfg up (rh_data rd)) (view s)"
proof -
  note fits = stream_fits [OF laws few]
  have n: "length (blocks (unat (ls_block_size cfg)) (rh_data rd)) < 2 ^ 32" using fits(1) by simp
  obtain st tx where w: "upload_state_new X cfg up = Some st" "compression_write X cfg st rd (new_writer None) = Some (Ok (), tx)"
      "wrote (new_writer None) tx (compressed_stream X cfg up (rh_data rd))" "wh_eof_sent tx"
    using compression_write_exact [OF laws rd up n] by blast
  have rx: "reader_ok (reader_of tx)" "rh_data (reader_of tx) = compressed_stream X cfg up (rh_data rd)" "rh_eof_sent (reader_of tx)"
    using wrote_reader [OF w(3)] w(4) by simp_all
  have fit: "blob_fits (rh_data (reader_of tx))" using fits(3) rx(2) by simp
  obtain s' where s': "sd_update (ops e) k (reader_of tx) (MaxSize (us_max_output_size st)) s = (Ok (), s')"
      "view s' = put_blob k (rh_data (reader_of tx)) (view s)"
    using lossless_store.update_exact [OF assms(1,2) rx(1,3) fit acc] by blast
  have "ok s'" using blob_store.update_law [OF lossless_store.axioms(1) [OF assms(1)] assms(2) rx(1) fit s'(1)] by simp
  then show ?thesis using w(1,2) s' rx(2) by (simp add: compression_update_def)
qed

lemma compression_inner_get:
  assumes "lossless_store ops ok view acc" "ok s" "view s k = Some d" "\<not> is_zero_digest k"
  shows "\<exists>rx s'. reader_ok rx \<and> rh_eof_sent rx \<and> rh_data rx = d \<and>
    compression_get_part X cfg None (ops e) k w off len s =
      (case compression_read X cfg off len rx w of
         None \<Rightarrow> None
       | Some (Inr _, w') \<Rightarrow> Some (Ok (), w', s')
       | Some (Inl err, w') \<Rightarrow> Some (Err err, w', s'))"
proof -
  obtain tx s' where g: "store_get (ops e) k (new_writer None) s = (Ok (), tx, s')" "wrote (new_writer None) tx d" "wh_eof_sent tx"
    using store_get_exact [OF assms(1-3)] by blast
  show ?thesis using g(1) assms(4) wrote_reader [OF g(2)] g(3)
    by (intro exI [of _ "reader_of tx"] exI [of _ s']) (simp add: compression_get_part_def store_get_def split: option.split sum.split)
qed

lemma compression_read_start:
  assumes laws: "codec_laws X (ls_block_size cfg)" "ls_block_size cfg \<noteq> 0" "ls_block_size cfg \<le> ls_max_decode_block_size cfg"
    and rx: "reader_ok rx" "rh_eof_sent rx" "rh_data rx = compressed_stream X cfg up d"
  shows "\<exists>fi rx'. at_frame X (ls_block_size cfg) (blocks (unat (ls_block_size cfg)) d) (the (cx_footer X (footer_of X cfg d))) fi (rh_data rx') \<and>
    reader_ok rx' \<and> rh_eof_sent rx' \<and>
    compression_read X cfg off len rx w =
      (case decode_blocks X (ls_block_size cfg) off fi 0 (case len of None \<Rightarrow> - 1 | Some l \<Rightarrow> l) 0 rx' w of
         None \<Rightarrow> None
       | Some (Inl e, w) \<Rightarrow> Some (Err e, w)
       | Some (Inr res, w) \<Rightarrow>
           (case check_footer X (header_of cfg up) res of
              Inl e \<Rightarrow> Some (Err e, w)
            | Inr _ \<Rightarrow> (let (r, w') = send_eof w in Some (err_tip ''Failed to send eof in compression store write'' r, w'))))"
proof -
  obtain rx1 where h: "read_header X cfg rx = Some (Ok (header_of cfg up), rx1)" "reader_ok rx1" "rh_eof_sent rx1"
      "rh_data rx1 = concat (map (chunk_frame X (ls_block_size cfg)) (blocks (unat (ls_block_size cfg)) d)) @
        footer_frame (the (cx_footer X (footer_of X cfg d)))"
    using read_header_exact [OF laws(1,3) rx(1,2) rx(3) [unfolded compressed_stream_def]] by blast
  obtain fi rx2 where f: "read_frame_info ''Failed to read init frame info in compression store''
        ''Received EOF too early while reading init frame info in compression store'' rx1 = (Ok fi, rx2)"
      "at_frame X (ls_block_size cfg) (blocks (unat (ls_block_size cfg)) d) (the (cx_footer X (footer_of X cfg d))) fi (rh_data rx2)"
      "reader_ok rx2" "rh_eof_sent rx2"
    using read_at_frame [OF h(2,3,4)] by metis
  have "block_size (hd_config (header_of cfg up)) = ls_block_size cfg" by (simp add: header_of_def)
  then show ?thesis using h(1) f unfolding compression_read_def by (intro exI [of _ fi] exI [of _ rx2]) simp
qed

lemma compression_read_exact:
  assumes laws: "codec_laws X (ls_block_size cfg)" "ls_block_size cfg \<noteq> 0" "ls_block_size cfg \<le> ls_max_decode_block_size cfg"
    and rx: "reader_ok rx" "rh_eof_sent rx" "rh_data rx = compressed_stream X cfg up d"
    and d: "few_blocks cfg d" "blob_fits d" and w: "writer_ready w" "wh_takes w = None"
    and len: "case len of None \<Rightarrow> off = 0 | Some l \<Rightarrow> unat off + unat l < 2 ^ 64"
  shows "\<exists>w'. compression_read X cfg off len rx w = Some (Ok (), w') \<and> wrote w w' (slice off len d) \<and> wh_eof_sent w'"
proof -
  let ?n = "unat (ls_block_size cfg)" and ?fb = "the (cx_footer X (footer_of X cfg d))" and ?b = "read_end off len"
  let ?r = "case len of None \<Rightarrow> - 1 | Some l \<Rightarrow> l"
  note fits = stream_fits [OF laws(1,2) d(1)]
  have bs: "concat (blocks ?n d) = d" by (rule concat_blocks) (use laws(2) in \<open>simp add: unat_gt_0\<close>)
  have b: "unat off \<le> ?b" "?b < 2 ^ 64" using len by (simp_all add: read_end_def split: option.splits)
  have r: "?r = of_nat (?b - max (unat off) (unat (0 :: u64)))"
    using len by (cases len) (simp_all add: read_end_def)
  obtain fi rx1 where start: "at_frame X (ls_block_size cfg) (blocks ?n d) ?fb fi (rh_data rx1)" "reader_ok rx1" "rh_eof_sent rx1"
      "compression_read X cfg off len rx w =
        (case decode_blocks X (ls_block_size cfg) off fi 0 ?r 0 rx1 w of
           None \<Rightarrow> None
         | Some (Inl e, w) \<Rightarrow> Some (Err e, w)
         | Some (Inr res, w) \<Rightarrow>
             (case check_footer X (header_of cfg up) res of
                Inl e \<Rightarrow> Some (Err e, w)
              | Inr _ \<Rightarrow> (let (r, w') = send_eof w in Some (err_tip ''Failed to send eof in compression store write'' r, w'))))"
    using compression_read_start [OF laws rx, of off len w] by blast
  have ok: "block_ok (ls_block_size cfg) c" if "c \<in> set (blocks ?n d)" for c using that by (rule blocks_ok)
  have sz: "unat (0 :: u64) + length (concat (blocks ?n d)) < 2 ^ 64" using d(2) bs by (simp add: blob_fits_def)
  obtain w1 rx2 where dec: "decode_blocks X (ls_block_size cfg) off fi 0 ?r 0 rx1 w =
        Some (Ok (of_nat (length ?fb), 0 + of_nat (length (concat (blocks ?n d))), 0 + of_nat (length (blocks ?n d)), rx2), w1)"
      "rh_data rx2 = ?fb" "reader_ok rx2" "rh_eof_sent rx2" "wrote w w1 (part (unat off) ?b (unat (0 :: u64)) (concat (blocks ?n d)))" "writer_ready w1"
    using decode_blocks_exact [OF laws(1) b ok start(1,2,3) sz r w, of 0] by blast
  have n: "length (blocks ?n d) < 2 ^ 32" using fits(1) by simp
  have foot: "check_footer X (header_of cfg up) (of_nat (length ?fb), of_nat (length d), of_nat (length (blocks ?n d)), rx2) = Ok ()"
    by (rule check_footer_exact [OF laws(1) n dec(3,4,2) refl fits(2)])
  obtain w' where w': "send_eof w1 = (Ok (), w')" "wh_eof_sent w'" "wh_sent w' = wh_sent w1" using send_eof_ready [OF dec(6)] by blast
  have "compression_read X cfg off len rx w = Some (Ok (), w')" using start(4) dec(1) foot w'(1) bs by simp
  moreover have "wrote w w' (slice off len d)" using dec(5) bs read_slice [OF d(2)] w'(3) by (simp add: wrote_def)
  ultimately show ?thesis using w'(2) by blast
qed

lemma compression_read_wraps:
  assumes laws: "codec_laws X (ls_block_size cfg)" "ls_block_size cfg \<noteq> 0" "ls_block_size cfg \<le> ls_max_decode_block_size cfg"
    and rx: "reader_ok rx" "rh_eof_sent rx" "rh_data rx = compressed_stream X cfg up d" "blob_fits d" and off: "0 < off" "unat off \<le> length d"
  shows "compression_read X cfg off None rx w = None"
proof -
  let ?n = "unat (ls_block_size cfg)"
  have bs: "concat (blocks ?n d) = d" by (rule concat_blocks) (use laws(2) in \<open>simp add: unat_gt_0\<close>)
  obtain fi rx1 where start: "at_frame X (ls_block_size cfg) (blocks ?n d) (the (cx_footer X (footer_of X cfg d))) fi (rh_data rx1)"
      "reader_ok rx1" "rh_eof_sent rx1"
      "decode_blocks X (ls_block_size cfg) off fi 0 (- 1) 0 rx1 w = None \<Longrightarrow> compression_read X cfg off None rx w = None"
    using compression_read_start [OF laws rx(1,2,3), of off None w] by auto
  have ok: "block_ok (ls_block_size cfg) c" if "c \<in> set (blocks ?n d)" for c using that by (rule blocks_ok)
  show ?thesis
    by (rule start(4), rule decode_blocks_wraps [OF laws(1) ok start(1,2,3)])
      (use rx(4) off bs in \<open>simp_all add: blob_fits_def word_less_nat_alt\<close>)
qed

lemma compression_new_block_size: "ls_block_size (compression_new spec) \<noteq> 0"
  by (simp add: compression_new_def Let_def)

section \<open>What was written is read back\<close>

text \<open>A codec: the fixed-size layout of numbers, and blocks that are kept as they are.\<close>

definition put_u64_le :: "u64 \<Rightarrow> bytes" where
  "put_u64_le v = put_u32_le (ucast v) @ put_u32_le (ucast (drop_bit 32 v))"

definition get_u64_le :: "bytes \<Rightarrow> u64" where
  "get_u64_le b = ucast (from_le_bytes (take 4 b)) OR push_bit 32 (ucast (from_le_bytes (take 4 (drop 4 b))))"

lemma length_put_u64_le [simp]: "length (put_u64_le v) = 8"
  by (simp add: put_u64_le_def)

lemma get_put_u64_le: "get_u64_le (put_u64_le v @ rest) = v"
proof (rule bit_word_eqI)
  fix n assume "n < LENGTH(64)"
  then consider "n < 32" | "32 \<le> n" "n < 64" by fastforce
  then show "bit (get_u64_le (put_u64_le v @ rest)) n = bit v n"
    by cases (auto simp: get_u64_le_def put_u64_le_def bit_simps)
qed

definition sample_put_header :: "comp_header \<Rightarrow> bytes" where
  "sample_put_header h =
     hd_version h # put_u32_le (block_size (hd_config h)) @
     (case hd_upload_size h of ExactSize sz \<Rightarrow> put_u32_le 0 @ put_u64_le sz | MaxSize sz \<Rightarrow> put_u32_le 1 @ put_u64_le sz)"

definition sample_get_header :: "bytes \<Rightarrow> comp_header" where
  "sample_get_header b =
     \<lparr>hd_version = hd b, hd_config = Lz4Config (from_le_bytes (take 4 (drop 1 b))),
      hd_upload_size = (if from_le_bytes (take 4 (drop 5 b)) = 0 then ExactSize else MaxSize) (get_u64_le (drop 9 b))\<rparr>"

definition sample_put_footer :: "comp_footer \<Rightarrow> bytes" where
  "sample_put_footer f =
     put_u64_le (of_nat (length (ft_indexes f))) @ concat (map (\<lambda>i. put_u32_le (position_from_prev_index i)) (ft_indexes f)) @
     put_u32_le (ft_index_count f) @ put_u64_le (ft_uncompressed_data_size f) @ put_u32_le (block_size (ft_config f)) @ [ft_version f]"

definition sample_get_footer :: "bytes \<Rightarrow> comp_footer" where
  "sample_get_footer b =
     (let n = unat (get_u64_le b); t = drop (8 + 4 * n) b
      in \<lparr>ft_indexes = map (\<lambda>i. SliceIndex (from_le_bytes (take 4 (drop (4 * i) (drop 8 b))))) [0..<n],
          ft_index_count = from_le_bytes (take 4 t), ft_uncompressed_data_size = get_u64_le (drop 4 t),
          ft_config = Lz4Config (from_le_bytes (take 4 (drop 12 t))), ft_version = last b\<rparr>)"

definition sample_codec_ext :: comp_ext where
  "sample_codec_ext =
     \<lparr>cx_header_size = (\<lambda>_. Some 17), cx_header = (\<lambda>h. Some (sample_put_header h)), cx_parse_header = (\<lambda>b. Some (sample_get_header b)),
      cx_footer_size = (\<lambda>f. Some (25 + 4 * of_nat (length (ft_indexes f)))), cx_footer = (\<lambda>f. Some (sample_put_footer f)),
      cx_parse_footer = (\<lambda>b. Some (sample_get_footer b)), cx_max_output_size = (\<lambda>n. n + 20),
      cx_compress = (\<lambda>d n. if length d \<le> n then Some d else None), cx_decompress = (\<lambda>d n. if length d \<le> n then Some d else None)\<rparr>"

lemma sample_header: "sample_get_header (sample_put_header h) = h" "length (sample_put_header h) = 17"
proof -
  have 1: "from_le_bytes (put_u32_le (1 :: u32)) \<noteq> 0" by simp
  show "sample_get_header (sample_put_header h) = h"
    using get_put_u64_le [of _ "[]"] 1
    by (cases h; cases "hd_config h"; cases "hd_upload_size h") (simp_all add: sample_get_header_def sample_put_header_def drop_Cons')
  show "length (sample_put_header h) = 17" by (simp add: sample_put_header_def split: upload_size_info.split)
qed

lemma take_piece:
  "i < length xs \<Longrightarrow> take 4 (drop (4 * i) (concat (map (\<lambda>x. put_u32_le (f x)) xs) @ ys)) = put_u32_le (f (xs ! i))"
proof (induction xs arbitrary: i)
  case (Cons x xs)
  let ?r = "concat (map (\<lambda>x. put_u32_le (f x)) xs) @ ys"
  have r: "concat (map (\<lambda>x. put_u32_le (f x)) (x # xs)) @ ys = put_u32_le (f x) @ ?r" by simp
  show ?case
  proof (cases i)
    case 0
    then show ?thesis unfolding r by (simp del: append_assoc)
  next
    case (Suc j)
    have "drop (4 * i) (put_u32_le (f x) @ ?r) = drop (4 * j) ?r" unfolding Suc drop_append by simp
    then show ?thesis using Cons.IH [of j] Cons.prems Suc unfolding r by (simp only: length_Cons Suc_less_eq nth_Cons_Suc)
  qed
qed simp

lemma length_pieces: "length (concat (map (\<lambda>x. put_u32_le (f x)) xs)) = 4 * length xs"
  by (induction xs) auto

lemma sample_footer:
  assumes "length (ft_indexes f) < 2 ^ 64"
  shows "sample_get_footer (sample_put_footer f) = f" "length (sample_put_footer f) = 25 + 4 * length (ft_indexes f)"
proof -
  let ?n = "length (ft_indexes f)"
  let ?ix = "concat (map (\<lambda>i. put_u32_le (position_from_prev_index i)) (ft_indexes f))"
  let ?t = "put_u32_le (ft_index_count f) @ put_u64_le (ft_uncompressed_data_size f) @ put_u32_le (block_size (ft_config f)) @ [ft_version f]"
  have n: "unat (get_u64_le (sample_put_footer f)) = ?n"
    using assms by (simp add: sample_put_footer_def get_put_u64_le unsigned_of_nat take_bit_nat_eq_self)
  have d: "drop 8 (sample_put_footer f) = ?ix @ ?t" by (simp add: sample_put_footer_def)
  have t: "drop (8 + 4 * ?n) (sample_put_footer f) = ?t"
    using length_pieces [of position_from_prev_index "ft_indexes f"] by (simp add: sample_put_footer_def)
  have "map (\<lambda>i. SliceIndex (from_le_bytes (take 4 (drop (4 * i) (?ix @ ?t))))) [0..<?n] = ft_indexes f"
  proof (intro nth_equalityI)
    fix i assume "i < length (map (\<lambda>i. SliceIndex (from_le_bytes (take 4 (drop (4 * i) (?ix @ ?t))))) [0..<?n])"
    then have i: "i < ?n" by simp
    then show "map (\<lambda>i. SliceIndex (from_le_bytes (take 4 (drop (4 * i) (?ix @ ?t))))) [0..<?n] ! i = ft_indexes f ! i"
      using take_piece [OF i, of position_from_prev_index ?t] by (simp only: nth_map length_upt nth_upt diff_zero add_0) simp
  qed simp
  moreover have "last (sample_put_footer f) = ft_version f" by (simp add: sample_put_footer_def)
  ultimately show "sample_get_footer (sample_put_footer f) = f"
    unfolding sample_get_footer_def Let_def n d t by (cases f; cases "ft_config f") (simp add: get_put_u64_le)
  show "length (sample_put_footer f) = 25 + 4 * ?n"
    using length_pieces [of position_from_prev_index "ft_indexes f"] by (simp add: sample_put_footer_def)
qed

lemma sample_codec_ext_laws: "codec_laws sample_codec_ext bsz"
proof -
  have "unat bsz < 2 ^ 32" using unsigned_less [of bsz] by simp
  then show ?thesis
    unfolding codec_laws_def using sample_header sample_footer
    by (intro conjI exI [of _ 17]) (auto simp: sample_codec_ext_def)
qed


lemma sample_compression:
  "lossless_store (memory_store (list_lru :: (store_key \<times> bytes eviction_item) list memory_lru) default_policy)
     (memory_ok list_lru) (memory_view list_lru) (\<lambda>_ _ _ _. True)"
  "memory_ok list_lru (memory_store_new list_lru :: (store_key \<times> bytes eviction_item) list memory_state)"
  "\<not> is_zero_digest sample_digest"
  "ls_block_size (compression_new \<lparr>ls_block_size = 2, ls_max_decode_block_size = 0\<rparr>)
     \<le> ls_max_decode_block_size (compression_new \<lparr>ls_block_size = 2, ls_max_decode_block_size = 0\<rparr>)"
  "reader_ok (new_reader [[1, 2, 3]] True)" "rh_eof_sent (new_reader [[1, 2, 3]] True)" "rh_data (new_reader [[1, 2, 3]] True) = [1, 2, 3]"
  "few_blocks (compression_new \<lparr>ls_block_size = 2, ls_max_decode_block_size = 0\<rparr>) (rh_data (new_reader [[1, 2, 3]] True))"
  "length (rh_data (new_reader [[1, 2, 3]] True)) \<le> unat (3 :: u64)" "(3 :: u64) < - 1"
  using memory_lossless [OF ll_em.evicting_map_axioms unlimited_default] memory_ok_new [OF ll_em.evicting_map_axioms]
  by (simp_all add: sample_digest_def is_zero_digest_def compression_new_def Let_def few_blocks_def word_less_nat_alt unat_max)




end
