(* ===== verification/Spec2Isabelle.thy ===== *)
theory Spec2Isabelle
  imports NL_Prelude NL_Error Lru_Cache Evicting_Map Rust_Std Digest_Info Action_Messages
    Platform_Properties Sched_Worker Api_Worker_Scheduler Awaited_Action Memory_Action_Db
    Chunked_Stream Action_Db State_Manager Operation_Listing Simple_Scheduler Scheduler_Invariant
    Resource_Info Buf_Channel Fast_CDC Store_Trait Memory_Store Verify_Store Partition_Store Store_Stack
    Shard_Store Fast_Slow_Store Dedup_Store Compression_Store
begin

text \<open>
  A verification development for NativeLink, a remote build cache and remote execution server.

  \<^bold>\<open>The program.\<close>  Clients send actions; the scheduler keeps one awaited action per operation in
  a database, matches queued actions with workers of a pool by their platform properties, and hands
  state changes back to the clients. Blobs live in stores, most of which keep their entries in an
  evicting map.

  \<^bold>\<open>Conventions.\<close>  \<^verbatim>\<open>Result<T, Error>\<close> is \<^typ>\<open>'a result\<close>, with \<^verbatim>\<open>Ok\<close> and \<^verbatim>\<open>Err\<close> for the
  two injections; the \<^verbatim>\<open>?\<close> operator is a case distinction or \<^const>\<open>try_bind\<close>. Messages built by
  \<^verbatim>\<open>format!\<close> keep their literal text only. A panic is an outer \<^const>\<open>None\<close>. \<^verbatim>\<open>u64\<close>, \<^verbatim>\<open>u32\<close> and
  \<^verbatim>\<open>i32\<close> are words of their width; lengths of collections are natural numbers; system times are
  integers (nanoseconds since the epoch). Code under one mutex is one state-passing function.
  Hash maps that the code iterates over are association lists, the others are maps.

  \<^bold>\<open>Code of other crates\<close> is a parameter. The \<^verbatim>\<open>lru\<close> crate is the record of operations in
  \<^verbatim>\<open>Lru_Cache\<close>, with its documented behaviour as the locale \<^verbatim>\<open>lru_cache\<close> and a list instance that
  satisfies it; the \<^verbatim>\<open>hex\<close> crate is the locale \<^verbatim>\<open>hex_codec\<close> in \<^verbatim>\<open>Digest_Info\<close>; \<^verbatim>\<open>prost\<close>, \<^verbatim>\<open>uuid\<close>
  and the timestamp conversions are the record and the locale \<^verbatim>\<open>ext_laws\<close> in \<^verbatim>\<open>Action_Messages\<close>.

  \<^bold>\<open>The theories.\<close>
  \<^item> \<^verbatim>\<open>NL_Prelude\<close>: word and result types, range bounds, association lists.
  \<^item> \<^verbatim>\<open>NL_Error\<close> (\<^verbatim>\<open>nativelink-error/src/lib.rs\<close>): codes, errors, \<^verbatim>\<open>err_tip\<close>, \<^verbatim>\<open>merge\<close>, conversions.
  \<^item> \<^verbatim>\<open>Rust_Std\<close>: decimal printing and parsing, \<^verbatim>\<open>split_once\<close>.
  \<^item> \<^verbatim>\<open>Evicting_Map\<close> (\<^verbatim>\<open>nativelink-util/src/evicting_map.rs\<close>): the state record and every method.
    Shown: byte accounting, each value is unreferenced exactly once, the limits hold after an
    eviction, what insert and get return; and two defects, the lost index entry of a replaced key
    and the watermark that switches size eviction off.
  \<^item> \<^verbatim>\<open>Digest_Info\<close> (\<^verbatim>\<open>common.rs\<close>, \<^verbatim>\<open>digest_hasher.rs\<close>): digests and their text and message forms.
  \<^item> \<^verbatim>\<open>Action_Messages\<close> (\<^verbatim>\<open>action_messages.rs\<close>): identifiers, action results, stages, and the
    conversions to protobuf messages; shown: the round trip of an action state.
  \<^item> \<^verbatim>\<open>Platform_Properties\<close> (\<^verbatim>\<open>platform_properties.rs\<close>, \<^verbatim>\<open>platform_property_manager.rs\<close>).
  \<^item> \<^verbatim>\<open>Sched_Worker\<close> (\<^verbatim>\<open>nativelink-scheduler/src/worker.rs\<close>): one connected worker; shown: its
    resources are conserved, and are not when an operation is started twice.
  \<^item> \<^verbatim>\<open>Api_Worker_Scheduler\<close> (\<^verbatim>\<open>api_worker_scheduler.rs\<close>): the pool, with the state manager as a
    parameter; shown: the choice of a worker, eviction, timeouts, and the outcome of an update.
  \<^item> \<^verbatim>\<open>Awaited_Action\<close>, \<^verbatim>\<open>Memory_Action_Db\<close> (\<^verbatim>\<open>awaited_action_db/\<close>, \<^verbatim>\<open>memory_awaited_action_db.rs\<close>):
    the records of operations and the in-memory database with its four sorted sets, its key index
    and its client counters; shown: these tables agree in every reachable state.
  \<^item> \<^verbatim>\<open>Chunked_Stream\<close> (\<^verbatim>\<open>nativelink-util/src/chunked_stream.rs\<close>): a stream read in chunks, with the
    loop that consumes it and may change the state the next chunk is read from.
  \<^item> \<^verbatim>\<open>Action_Db\<close> (\<^verbatim>\<open>awaited_action_db/mod.rs\<close>): the database trait as a record, what the scheduler
    relies on as the locale \<^verbatim>\<open>action_db_laws\<close>, and its interpretation on the in-memory database.
  \<^item> \<^verbatim>\<open>State_Manager\<close>, \<^verbatim>\<open>Operation_Listing\<close> (\<^verbatim>\<open>simple_scheduler_state_manager.rs\<close>): updates with
    their optimistic retries, time-outs and listings. Other tasks act on the database between the
    read and the write of an update; shown: no update is lost, an undisturbed attempt gets through,
    a failing job ends after its retries, updates that are refused, and what a listing returns.
  \<^item> \<^verbatim>\<open>Simple_Scheduler\<close>, \<^verbatim>\<open>Scheduler_Invariant\<close> (\<^verbatim>\<open>simple_scheduler.rs\<close>): the matching engine over
    database and pool; shown, for every interleaving of calls: an executing operation is running on
    a connected worker, and a run of the matching engine ends without a panic.
  \<^item> \<^verbatim>\<open>Resource_Info\<close> (\<^verbatim>\<open>resource_info.rs\<close>): parser and printer of blob resource names; shown: the
    round trip, and what a successful parse says of the name.
  \<^item> \<^verbatim>\<open>Buf_Channel\<close> (\<^verbatim>\<open>buf_channel.rs\<close>): both halves of the channel that carries a blob; shown:
    \<^verbatim>\<open>consume\<close> cuts exact pieces off the stream, and a reset replays the data once only.
  \<^item> \<^verbatim>\<open>Fast_CDC\<close> (\<^verbatim>\<open>fastcdc.rs\<close>): the content-defined chunker; shown: its frames are those of a
    reference on the whole input however it is delivered, the bounds on their sizes, and that the
    rolling hash never wraps around.
  \<^item> \<^verbatim>\<open>Store_Trait\<close> (\<^verbatim>\<open>store_trait.rs\<close>, \<^verbatim>\<open>cas_utils.rs\<close>, the hashers of \<^verbatim>\<open>digest_hasher.rs\<close>): a driver is a
    record of operations; what every store promises is the locale \<^verbatim>\<open>blob_store\<close>, with the map that may
    forget as its specification.
  \<^item> \<^verbatim>\<open>Memory_Store\<close> (\<^verbatim>\<open>memory_store.rs\<close>, \<^verbatim>\<open>noop_store.rs\<close>), \<^verbatim>\<open>Verify_Store\<close> (\<^verbatim>\<open>verify_store.rs\<close>),
    \<^verbatim>\<open>Partition_Store\<close> (\<^verbatim>\<open>size_partitioning_store.rs\<close>): stores, each with the proof that it keeps the
    contract if the stores inside it do; shown: behind the verification only matching blobs are served.
  \<^item> \<^verbatim>\<open>Store_Stack\<close>: the contract of stores that forget nothing (\<^verbatim>\<open>lossless_store\<close>), and a content
    addressable storage put together from these stores; shown: it refines a map.
  \<^item> \<^verbatim>\<open>Shard_Store\<close> (\<^verbatim>\<open>shard_store.rs\<close>): keys spread over several stores by weight; shown: the table of a
    new store is well formed, every key has its shard, and no call panics.
  \<^item> \<^verbatim>\<open>Fast_Slow_Store\<close> (\<^verbatim>\<open>fast_slow_store.rs\<close>): a fast store in front of a slow one; shown: a read that
    the fast store misses delivers the part asked for and fills the fast store.
  \<^item> \<^verbatim>\<open>Dedup_Store\<close> (\<^verbatim>\<open>dedup_store.rs\<close>): blobs cut by the chunker of \<^verbatim>\<open>Fast_CDC\<close>, with the frames in one
    store and the list of their digests in another; shown: the round trip of writing and reading.
  \<^item> \<^verbatim>\<open>Compression_Store\<close> (\<^verbatim>\<open>compression_store.rs\<close>): blobs as compressed blocks between a header and a footer;
    shown: the round trip of writing and reading, and the panic of a read to the end from an offset.

  \<^bold>\<open>Bounds.\<close>  Loops are structural recursions over what the code consumes. The eviction loop counts
  its iterations by the number of entries, which is enough because every iteration pops one. A
  consumer of a chunked stream has fuel for a number of chunks; one more than the number of
  operations is enough, since each chunk leaves out a key that the one before let in. The
  hypotheses on sizes exclude wrap-around of 64-bit sums and are stated where used.

  \<^bold>\<open>Not modelled:\<close> the stores over a network or a file system, the gRPC services and the worker process,
  whose code is calls into the operating system and into crates; the completeness check, the
  existence cache and the reference store, and the code that builds stores from a configuration; the
  schedulers that forward to another one, and the action database kept in a store; configuration
  parsing, metrics and tracing. Tasks that the code runs side by side are run in one order, with the
  points where a receiver may hang up as arguments.
\<close>

end
